(* ===== verification/LC_Prelude.thy ===== *)
theory LC_Prelude
  imports Main
begin

text \<open>
  Shared ground of the development: the result type of fallible Go code, its
  sequencing, and the generic lemmas on lists, maps and results that several
  components use.

  A Go function that returns \<open>(T, error)\<close>, or that can panic, is modelled by a value of
  \<open>'e + 'a\<close>: \<open>Inl\<close> carries the error (or the panic), \<open>Inr\<close> the result.
\<close>

named_theorems go_eval \<open>equations that evaluate the Go standard-library models on literals\<close>

type_synonym go_time = int

subsection \<open>Results\<close>

fun bind_res :: "'e + 'a \<Rightarrow> ('a \<Rightarrow> 'e + 'b) \<Rightarrow> 'e + 'b" where
  "bind_res (Inl e) f = Inl e"
| "bind_res (Inr x) f = f x"

lemma bind_res_Inr_iff:
  "bind_res r f = Inr y \<longleftrightarrow> (\<exists>x. r = Inr x \<and> f x = Inr y)"
  by (cases r) auto

lemma bind_res_Inl_iff:
  "bind_res r f = Inl e \<longleftrightarrow> r = Inl e \<or> (\<exists>x. r = Inr x \<and> f x = Inl e)"
  by (cases r) auto

lemma bind_res_assoc: "bind_res (bind_res r f) g = bind_res r (\<lambda>x. bind_res (f x) g)"
  by (cases r) auto

definition is_ok :: "'e + 'a \<Rightarrow> bool" where
  "is_ok r = (case r of Inl _ \<Rightarrow> False | Inr _ \<Rightarrow> True)"

lemma is_ok_simps [simp]: "is_ok (Inr x)" "\<not> is_ok (Inl e)"
  by (simp_all add: is_ok_def)

lemma is_ok_iff: "is_ok r \<longleftrightarrow> (\<exists>x. r = Inr x)"
  by (cases r) auto

subsection \<open>Lists\<close>

lemma takeWhile_all: "(\<And>x. x \<in> set xs \<Longrightarrow> P x) \<Longrightarrow> takeWhile P xs = xs"
  by (induction xs) auto

lemma takeWhile_append_stop:
  "(\<And>x. x \<in> set xs \<Longrightarrow> P x) \<Longrightarrow> \<not> P y \<Longrightarrow> takeWhile P (xs @ y # ys) = xs"
  by (induction xs) auto

lemma dropWhile_append_stop:
  "(\<And>x. x \<in> set xs \<Longrightarrow> P x) \<Longrightarrow> \<not> P y \<Longrightarrow> dropWhile P (xs @ y # ys) = y # ys"
  by (induction xs) auto

lemma length_dropWhile_le: "length (dropWhile P xs) \<le> length xs"
  by (induction xs) auto

subsection \<open>Maps\<close>

text \<open>A Go map built by inserting the entries of a list in order: a later entry wins.\<close>

definition map_of_rev :: "('k \<times> 'v) list \<Rightarrow> 'k \<Rightarrow> 'v option" where
  "map_of_rev kvs = foldl (\<lambda>m kv. m(fst kv \<mapsto> snd kv)) Map.empty kvs"

lemma foldl_upd_map_of:
  "foldl (\<lambda>m kv. m(fst kv \<mapsto> snd kv)) m kvs = m ++ map_of (rev kvs)"
proof (induction kvs arbitrary: m)
  case Nil
  then show ?case by simp
next
  case (Cons kv kvs)
  have "m(fst kv \<mapsto> snd kv) ++ map_of (rev kvs) = m ++ map_of (rev (kv # kvs))"
    by (cases kv) (simp add: map_add_def fun_eq_iff split: option.split)
  moreover have "foldl (\<lambda>m kv. m(fst kv \<mapsto> snd kv)) m (kv # kvs)
      = m(fst kv \<mapsto> snd kv) ++ map_of (rev kvs)"
    by (simp only: foldl_Cons Cons)
  ultimately show ?case by (simp only:)
qed

lemma map_of_rev_eq: "map_of_rev kvs = map_of (rev kvs)"
  by (simp add: map_of_rev_def foldl_upd_map_of)

lemma map_of_rev_distinct: "distinct (map fst kvs) \<Longrightarrow> map_of_rev kvs = map_of kvs"
  unfolding map_of_rev_eq by (rule map_of_inject_set [THEN iffD2]) (simp_all add: rev_map [symmetric])

end
