(* ===== verification/Go_Utf8.thy ===== *)
theory Go_Utf8
  imports LC_Prelude
begin

text \<open>
  UTF-8 as the Go standard library (package \<^verbatim>\<open>unicode/utf8\<close>) decodes and encodes it.
  A Go string is a sequence of bytes, so it is a \<open>string\<close> of HOL (a list of 8-bit
  \<open>char\<close>s); a rune is a natural number.
\<close>

abbreviation bcode :: "char \<Rightarrow> nat" where
  "bcode c \<equiv> of_char c"

definition rune_error :: nat where
  "rune_error = 65533"

definition is_cont :: "nat \<Rightarrow> bool" where
  "is_cont b \<longleftrightarrow> 128 \<le> b \<and> b < 192"

definition valid_rune :: "nat \<Rightarrow> bool" where
  "valid_rune r \<longleftrightarrow> r < 55296 \<or> (57344 \<le> r \<and> r < 1114112)"

text \<open>
  \<open>decode_rune\<close> is \<^verbatim>\<open>utf8.DecodeRuneInString\<close> on a non-empty string: the rune and
  the number of bytes it takes; a malformed sequence is \<open>U+FFFD\<close> of one byte.
\<close>

definition decode2 :: "nat \<Rightarrow> nat \<Rightarrow> (nat \<times> nat) option" where
  "decode2 b0 b1 =
     (if 194 \<le> b0 \<and> b0 < 224 \<and> is_cont b1
      then Some ((b0 - 192) * 64 + (b1 - 128), 2) else None)"

definition decode3 :: "nat \<Rightarrow> nat \<Rightarrow> nat \<Rightarrow> (nat \<times> nat) option" where
  "decode3 b0 b1 b2 =
     (if 224 \<le> b0 \<and> b0 < 240 \<and> is_cont b1 \<and> is_cont b2
         \<and> (b0 = 224 \<longrightarrow> 160 \<le> b1) \<and> (b0 = 237 \<longrightarrow> b1 < 160)
      then Some ((b0 - 224) * 4096 + (b1 - 128) * 64 + (b2 - 128), 3) else None)"

definition decode4 :: "nat \<Rightarrow> nat \<Rightarrow> nat \<Rightarrow> nat \<Rightarrow> (nat \<times> nat) option" where
  "decode4 b0 b1 b2 b3 =
     (if 240 \<le> b0 \<and> b0 < 245 \<and> is_cont b1 \<and> is_cont b2 \<and> is_cont b3
         \<and> (b0 = 240 \<longrightarrow> 144 \<le> b1) \<and> (b0 = 244 \<longrightarrow> b1 < 144)
      then Some ((b0 - 240) * 262144 + (b1 - 128) * 4096 + (b2 - 128) * 64 + (b3 - 128), 4)
      else None)"

definition decode_rune :: "string \<Rightarrow> nat \<times> nat" where
  "decode_rune s =
     (case map bcode (take 4 s) of
        [] \<Rightarrow> (rune_error, 0)
      | b0 # bs \<Rightarrow>
          if b0 < 128 then (b0, 1)
          else (case bs of
              [] \<Rightarrow> (rune_error, 1)
            | b1 # bs1 \<Rightarrow>
                (case decode2 b0 b1 of Some r \<Rightarrow> r
                 | None \<Rightarrow>
                    (case bs1 of
                        [] \<Rightarrow> (rune_error, 1)
                      | b2 # bs2 \<Rightarrow>
                          (case decode3 b0 b1 b2 of Some r \<Rightarrow> r
                           | None \<Rightarrow>
                              (case bs2 of
                                  [] \<Rightarrow> (rune_error, 1)
                                | b3 # _ \<Rightarrow>
                                    (case decode4 b0 b1 b2 b3 of Some r \<Rightarrow> r
                                     | None \<Rightarrow> (rune_error, 1))))))))"

text \<open>\<open>encode_rune\<close> is \<^verbatim>\<open>utf8.AppendRune\<close>: an invalid rune is written as \<open>U+FFFD\<close>.\<close>

definition encode_rune :: "nat \<Rightarrow> string" where
  "encode_rune r0 =
     (let r = (if valid_rune r0 then r0 else rune_error) in
      map char_of
       (if r < 128 then [r]
        else if r < 2048 then [192 + r div 64, 128 + r mod 64]
        else if r < 65536 then [224 + r div 4096, 128 + r div 64 mod 64, 128 + r mod 64]
        else [240 + r div 262144, 128 + r div 4096 mod 64, 128 + r div 64 mod 64,
              128 + r mod 64]))"

lemma bcode_less [simp]: "bcode c < 256"
  using of_char_mod_256 [of c, where 'a = nat] by (metis mod_less_divisor zero_less_numeral)

lemma bcode_char_of [simp]: "n < 256 \<Longrightarrow> bcode (char_of n) = n"
  by (simp add: of_char_of)

lemma decode_rune_size: "s \<noteq> [] \<Longrightarrow> 0 < snd (decode_rune s)"
  by (cases s)
     (auto simp: decode_rune_def decode2_def decode3_def decode4_def
           split: list.splits option.splits if_splits)

text \<open>The three multi-byte forms of a rune are decoded back, whatever follows them.\<close>

lemma decode2_encode:
  assumes "128 \<le> r" "r < 2048"
  shows "decode2 (192 + r div 64) (128 + r mod 64) = Some (r, 2)"
proof -
  have "2 \<le> r div 64" "r div 64 < 32" using assms by auto
  moreover have "r div 64 * 64 + r mod 64 = r" by simp
  ultimately show ?thesis by (simp add: decode2_def is_cont_def)
qed

lemma decode3_encode:
  assumes "2048 \<le> r" "r < 65536" "valid_rune r"
  shows "decode3 (224 + r div 4096) (128 + r div 64 mod 64) (128 + r mod 64) = Some (r, 3)"
proof -
  define q where "q = r div 64"
  have r: "q * 64 + r mod 64 = r" by (simp add: q_def)
  have q: "q div 64 * 64 + q mod 64 = q" by simp
  have d: "r div 4096 = q div 64" by (simp add: q_def flip: div_mult2_eq)
  have "q div 64 * 4096 + q mod 64 * 64 + r mod 64 = r" using r q by linarith
  moreover have "q div 64 = 0 \<longrightarrow> 32 \<le> q mod 64" "q div 64 < 16"
    using assms by (auto simp: q_def)
  moreover have "q div 64 = 13 \<longrightarrow> q mod 64 < 32"
  proof
    assume "q div 64 = 13"
    then have "832 \<le> q" "q < 896" by auto
    moreover have "r < 55296 \<or> 57344 \<le> r" using assms(3) by (auto simp: valid_rune_def)
    ultimately have "q < 864" using r q_def by auto
    then show "q mod 64 < 32" using q \<open>q div 64 = 13\<close> by linarith
  qed
  ultimately show ?thesis by (simp add: decode3_def is_cont_def d flip: q_def)
qed

lemma decode4_encode:
  assumes "65536 \<le> r" "r < 1114112"
  shows "decode4 (240 + r div 262144) (128 + r div 4096 mod 64) (128 + r div 64 mod 64)
           (128 + r mod 64) = Some (r, 4)"
proof -
  define q where "q = r div 64"
  define p where "p = q div 64"
  have r: "q * 64 + r mod 64 = r" by (simp add: q_def)
  have q: "p * 64 + q mod 64 = q" by (simp add: p_def)
  have p: "p div 64 * 64 + p mod 64 = p" by simp
  have d: "r div 4096 = p" "r div 262144 = p div 64"
    by (simp_all add: p_def q_def flip: div_mult2_eq)
  have "p div 64 * 262144 + p mod 64 * 4096 + q mod 64 * 64 + r mod 64 = r"
    using r q p by linarith
  moreover have b: "p < 272" "16 \<le> p"
    using assms by (auto simp: p_def q_def div_mult2_eq [symmetric])
  moreover have "p div 64 = 0 \<longrightarrow> 16 \<le> p mod 64" "p div 64 = 4 \<longrightarrow> p mod 64 < 16" "p div 64 < 5"
    using p b by linarith+
  ultimately show ?thesis by (simp add: decode4_def is_cont_def d flip: q_def)
qed

lemma decode_encode_rune:
  assumes "valid_rune r"
  shows "decode_rune (encode_rune r @ rest) = (r, length (encode_rune r))"
proof -
  consider "r < 128" | "128 \<le> r" "r < 2048" | "2048 \<le> r" "r < 65536" | "65536 \<le> r" "r < 1114112"
    using assms by (fastforce simp: valid_rune_def)
  then show ?thesis
  proof cases
    case 1
    with assms show ?thesis by (simp add: encode_rune_def decode_rune_def)
  next
    case 2
    then have "192 + r div 64 < 256" by auto
    with 2 assms show ?thesis
      by (simp add: encode_rune_def decode_rune_def decode2_encode)
  next
    case 3
    then have "224 + r div 4096 < 256" by auto
    with 3 assms show ?thesis
      by (simp add: encode_rune_def decode_rune_def decode3_encode decode2_def [of "224 + _"])
  next
    case 4
    then have "240 + r div 262144 < 256" by auto
    with 4 assms show ?thesis
      by (simp add: encode_rune_def decode_rune_def decode4_encode
          decode2_def [of "240 + _"] decode3_def [of "240 + _"])
  qed
qed

end
