(* ===== verification/Go_Strings.thy ===== *)
theory Go_Strings
  imports Go_Utf8
begin

text \<open>
  The functions of packages \<^verbatim>\<open>strings\<close>, \<^verbatim>\<open>strconv\<close> (quoting) and
  \<^verbatim>\<open>reflect\<close> (\<open>StructTag.Get\<close>) that liveconfig calls on struct tags, keys and raw
  override values.
\<close>

subsection \<open>Prefixes, cutting and splitting\<close>

definition has_prefix :: "string \<Rightarrow> string \<Rightarrow> bool" where
  "has_prefix s p \<longleftrightarrow> take (length p) s = p"

text \<open>\<^verbatim>\<open>strings.Cut\<close> at a one-byte separator, its first result.\<close>

definition cut_before :: "char \<Rightarrow> string \<Rightarrow> string" where
  "cut_before c s = takeWhile (\<lambda>x. x \<noteq> c) s"

fun split_on :: "char \<Rightarrow> string \<Rightarrow> string list" where
  "split_on c [] = [[]]"
| "split_on c (x # xs) =
     (if x = c then [] # split_on c xs
      else (case split_on c xs of [] \<Rightarrow> [[x]] | p # ps \<Rightarrow> (x # p) # ps))"

lemma split_on_nonempty [simp]: "split_on c s \<noteq> []"
  by (cases s) (auto split: list.splits)

lemma split_on_no_sep: "c \<notin> set s \<Longrightarrow> split_on c s = [s]"
  by (induction s) auto

lemma split_on_append_sep: "c \<notin> set p \<Longrightarrow> split_on c (p @ c # s) = p # split_on c s"
  by (induction p) auto

text \<open>\<open>join_with\<close> writes the elements with the separator between them.\<close>

fun join_with :: "char \<Rightarrow> string list \<Rightarrow> string" where
  "join_with c [] = []"
| "join_with c [p] = p"
| "join_with c (p # q # ps) = p @ c # join_with c (q # ps)"

lemma split_on_join:
  "ps \<noteq> [] \<Longrightarrow> (\<And>p. p \<in> set ps \<Longrightarrow> c \<notin> set p) \<Longrightarrow> split_on c (join_with c ps) = ps"
  by (induction c ps rule: join_with.induct) (auto simp: split_on_no_sep split_on_append_sep)

lemma split_on_elem_no_sep: "p \<in> set (split_on c s) \<Longrightarrow> c \<notin> set p"
  by (induction c s arbitrary: p rule: split_on.induct) (auto split: if_splits list.splits)

subsection \<open>Lower case\<close>

text \<open>
  \<^verbatim>\<open>strings.ToLower\<close> on ASCII text, the only use being Go field names; names with
  non-ASCII letters are outside the model.
\<close>

definition to_lower_char :: "char \<Rightarrow> char" where
  "to_lower_char c = (if 65 \<le> bcode c \<and> bcode c \<le> 90 then char_of (bcode c + 32) else c)"

definition to_lower :: "string \<Rightarrow> string" where
  "to_lower s = map to_lower_char s"

lemma to_lower_char_idem [simp]: "to_lower_char (to_lower_char c) = to_lower_char c"
  by (auto simp: to_lower_char_def)

lemma to_lower_idem [simp]: "to_lower (to_lower s) = to_lower s"
  by (simp add: to_lower_def)

subsection \<open>White space\<close>

text \<open>
  \<open>space_len\<close> is the number of bytes of the white-space rune (\<^verbatim>\<open>unicode.IsSpace\<close>) a byte
  sequence starts with, 0 if there is none; \<open>space_len_rev\<close> the same at the end of a
  string, on the reversed bytes.
\<close>

definition ascii_space :: "nat \<Rightarrow> bool" where
  "ascii_space b \<longleftrightarrow> b = 32 \<or> (9 \<le> b \<and> b \<le> 13)"

definition space2 :: "nat \<Rightarrow> nat \<Rightarrow> bool" where
  "space2 b0 b1 \<longleftrightarrow> b0 = 194 \<and> (b1 = 133 \<or> b1 = 160)"

definition space3 :: "nat \<Rightarrow> nat \<Rightarrow> nat \<Rightarrow> bool" where
  "space3 b0 b1 b2 \<longleftrightarrow>
     (b0 = 225 \<and> b1 = 154 \<and> b2 = 128) \<or>
     (b0 = 226 \<and> b1 = 128 \<and> ((128 \<le> b2 \<and> b2 \<le> 138) \<or> b2 = 168 \<or> b2 = 169 \<or> b2 = 175)) \<or>
     (b0 = 226 \<and> b1 = 129 \<and> b2 = 159) \<or>
     (b0 = 227 \<and> b1 = 128 \<and> b2 = 128)"

fun space_len :: "string \<Rightarrow> nat" where
  "space_len (a # b # c # _) =
     (if ascii_space (bcode a) then 1
      else if space2 (bcode a) (bcode b) then 2
      else if space3 (bcode a) (bcode b) (bcode c) then 3 else 0)"
| "space_len [a, b] =
     (if ascii_space (bcode a) then 1 else if space2 (bcode a) (bcode b) then 2 else 0)"
| "space_len [a] = (if ascii_space (bcode a) then 1 else 0)"
| "space_len [] = 0"

fun space_len_rev :: "string \<Rightarrow> nat" where
  "space_len_rev (a # b # c # _) =
     (if ascii_space (bcode a) then 1
      else if space2 (bcode b) (bcode a) then 2
      else if space3 (bcode c) (bcode b) (bcode a) then 3 else 0)"
| "space_len_rev [a, b] =
     (if ascii_space (bcode a) then 1 else if space2 (bcode b) (bcode a) then 2 else 0)"
| "space_len_rev [a] = (if ascii_space (bcode a) then 1 else 0)"
| "space_len_rev [] = 0"

function strip_with :: "(string \<Rightarrow> nat) \<Rightarrow> string \<Rightarrow> string" where
  "strip_with f s = (if s = [] \<or> f s = 0 then s else strip_with f (drop (f s) s))"
  by pat_completeness auto
termination
  by (relation "measure (\<lambda>(f, s). length s)") auto

declare strip_with.simps [simp del]

definition trim_space :: "string \<Rightarrow> string" where
  "trim_space s = rev (strip_with space_len_rev (rev (strip_with space_len s)))"

lemma strip_with_stop: "f s = 0 \<Longrightarrow> strip_with f s = s"
  by (simp add: strip_with.simps)

lemma strip_with_Nil [simp]: "strip_with f [] = []"
  by (simp add: strip_with.simps)

lemma strip_with_stopped: "strip_with f s = [] \<or> f (strip_with f s) = 0"
proof (induction f s rule: strip_with.induct)
  case (1 f s)
  then show ?case by (cases "s = [] \<or> f s = 0") (auto simp: strip_with.simps [of f s])
qed

lemma strip_with_suffix: "\<exists>k. strip_with f s = drop k s"
proof (induction f s rule: strip_with.induct)
  case (1 f s)
  show ?case
  proof (cases "s = [] \<or> f s = 0")
    case True
    then show ?thesis by (intro exI [of _ 0]) (auto simp: strip_with.simps [of f s])
  next
    case False
    with 1 obtain k where "strip_with f (drop (f s) s) = drop k (drop (f s) s)" by blast
    with False show ?thesis by (auto simp: strip_with.simps [of f s] intro: exI [of _ "k + f s"])
  qed
qed

text \<open>What is trimmed on the left stays trimmed on the left when bytes are cut at the end.\<close>

lemma space_len_append: "space_len s \<noteq> 0 \<Longrightarrow> space_len (s @ t) \<noteq> 0"
proof (cases s rule: space_len.cases)
  case (2 a b)
  then show "space_len s \<noteq> 0 \<Longrightarrow> ?thesis" by (cases t) (auto split: if_splits)
next
  case (3 a)
  then show "space_len s \<noteq> 0 \<Longrightarrow> ?thesis"
    by (cases t rule: space_len.cases) (auto split: if_splits)
qed auto

lemma space_len_ascii:
  "bcode c < 128 \<Longrightarrow> \<not> ascii_space (bcode c) \<Longrightarrow> space_len (c # s) = 0"
  "bcode c < 128 \<Longrightarrow> \<not> ascii_space (bcode c) \<Longrightarrow> space_len_rev (c # s) = 0"
  by (cases "c # s" rule: space_len.cases; auto simp: space2_def space3_def)
     (cases "c # s" rule: space_len_rev.cases; auto simp: space2_def space3_def)

lemma trim_space_id: "space_len s = 0 \<Longrightarrow> space_len_rev (rev s) = 0 \<Longrightarrow> trim_space s = s"
  by (simp add: trim_space_def strip_with_stop)

lemma trim_space_trimmed:
  "trim_space s = [] \<or> (space_len (trim_space s) = 0 \<and> space_len_rev (rev (trim_space s)) = 0)"
proof -
  let ?l = "strip_with space_len s"
  obtain k where k: "strip_with space_len_rev (rev ?l) = drop k (rev ?l)"
    using strip_with_suffix by blast
  have r: "strip_with space_len_rev (rev ?l) = [] \<or> space_len_rev (drop k (rev ?l)) = 0"
    using strip_with_stopped [of space_len_rev "rev ?l"] k by simp
  have t: "trim_space s = take (length ?l - k) ?l"
    by (simp add: trim_space_def k drop_rev)
  have "?l = [] \<or> space_len ?l = 0" by (rule strip_with_stopped)
  moreover have "space_len (take (length ?l - k) ?l) = 0" if "space_len ?l = 0"
    using that space_len_append [of "take (length ?l - k) ?l" "drop (length ?l - k) ?l"]
    by (metis append_take_drop_id)
  moreover have "rev (trim_space s) = strip_with space_len_rev (rev ?l)"
    by (simp add: trim_space_def)
  moreover have "?l = [] \<Longrightarrow> trim_space s = []" by (simp add: t)
  ultimately show ?thesis using r k by (auto simp: t)
qed

lemma trim_space_Nil [simp]: "trim_space [] = []"
  by (simp add: trim_space_def)

lemma trim_space_idem [simp]: "trim_space (trim_space s) = trim_space s"
  using trim_space_trimmed [of s] by (auto simp: trim_space_id)

end
