(* ===== verification/Go_StructTag.thy ===== *)
theory Go_StructTag
  imports Go_Strings
begin

text \<open>
  Struct tags: \<^verbatim>\<open>reflect.StructTag.Get\<close>, which scans the conventional
  \<^verbatim>\<open>key:"value" key:"value"\<close> form and unquotes the value with
  \<^verbatim>\<open>strconv.Unquote\<close>.
\<close>

subsection \<open>Unquoting a double-quoted Go string literal\<close>

fun hex_val :: "char \<Rightarrow> nat option" where
  "hex_val c =
     (let n = bcode c in
      if 48 \<le> n \<and> n \<le> 57 then Some (n - 48)
      else if 97 \<le> n \<and> n \<le> 102 then Some (n - 87)
      else if 65 \<le> n \<and> n \<le> 70 then Some (n - 55)
      else None)"

fun hex_num :: "nat \<Rightarrow> string \<Rightarrow> nat option" where
  "hex_num acc [] = Some acc"
| "hex_num acc (c # cs) =
     (case hex_val c of None \<Rightarrow> None | Some d \<Rightarrow> hex_num (16 * acc + d) cs)"

text \<open>\<open>hex_digits n s\<close> reads exactly \<open>n\<close> hexadecimal digits and returns the rest.\<close>

definition hex_digits :: "nat \<Rightarrow> string \<Rightarrow> (nat \<times> string) option" where
  "hex_digits n s =
     (if length s < n then None
      else map_option (\<lambda>v. (v, drop n s)) (hex_num 0 (take n s)))"

definition oct_digit :: "char \<Rightarrow> bool" where
  "oct_digit c \<longleftrightarrow> 48 \<le> bcode c \<and> bcode c \<le> 55"

text \<open>
  One step of the unquoting loop inside double quotes (\<^verbatim>\<open>strconv.UnquoteChar\<close> and the
  append to the buffer): the bytes it writes and the rest of the input.
\<close>

fun unquote_escape :: "string \<Rightarrow> (string \<times> string) option" where
  "unquote_escape [] = None"
| "unquote_escape (e # s) =
     (if e = CHR ''a'' then Some ([CHR 0x07], s)
      else if e = CHR ''b'' then Some ([CHR 0x08], s)
      else if e = CHR ''f'' then Some ([CHR 0x0C], s)
      else if e = CHR ''n'' then Some ([CHR 0x0A], s)
      else if e = CHR ''r'' then Some ([CHR 0x0D], s)
      else if e = CHR ''t'' then Some ([CHR 0x09], s)
      else if e = CHR ''v'' then Some ([CHR 0x0B], s)
      else if e = CHR 0x5C then Some ([CHR 0x5C], s)
      else if e = CHR 0x22 then Some ([CHR 0x22], s)
      else if e = CHR ''x'' then map_option (\<lambda>(v, r). ([char_of v], r)) (hex_digits 2 s)
      else if e = CHR ''u'' then
        (case hex_digits 4 s of None \<Rightarrow> None
         | Some (v, r) \<Rightarrow> if valid_rune v then Some (encode_rune v, r) else None)
      else if e = CHR ''U'' then
        (case hex_digits 8 s of None \<Rightarrow> None
         | Some (v, r) \<Rightarrow> if valid_rune v then Some (encode_rune v, r) else None)
      else if oct_digit e then
        (case s of
           d1 # d2 # r \<Rightarrow>
             let v = (bcode e - 48) * 64 + (bcode d1 - 48) * 8 + (bcode d2 - 48) in
             if oct_digit d1 \<and> oct_digit d2 \<and> v < 256 then Some ([char_of v], r) else None
         | _ \<Rightarrow> None)
      else None)"

definition unquote_char :: "string \<Rightarrow> (string \<times> string) option" where
  "unquote_char s =
     (case s of
        [] \<Rightarrow> None
      | c # r \<Rightarrow>
          if c = CHR 0x0A \<or> c = CHR 0x22 then None
          else if bcode c \<ge> 128 then
            (let (rn, n) = decode_rune s in Some (encode_rune rn, drop n s))
          else if c \<noteq> CHR 0x5C then Some ([c], r)
          else unquote_escape r)"

lemma hex_digits_length: "hex_digits n s = Some (v, r) \<Longrightarrow> length r \<le> length s"
  by (auto simp: hex_digits_def split: if_splits)

lemma unquote_escape_length: "unquote_escape s = Some (w, r) \<Longrightarrow> length r < length s"
  by (cases s)
     (auto simp: Let_def dest!: hex_digits_length split: if_splits option.splits list.splits)

lemma unquote_char_length: "unquote_char s = Some (w, r) \<Longrightarrow> length r < length s"
  using decode_rune_size [of s]
  by (auto simp: unquote_char_def split: list.splits if_splits prod.splits
      dest: unquote_escape_length)

text \<open>\<open>unquote_body\<close> unquotes what stands between the quotes.\<close>

function unquote_body :: "string \<Rightarrow> string option" where
  "unquote_body s =
     (if s = [] then Some []
      else (case unquote_char s of
              None \<Rightarrow> None
            | Some (w, r) \<Rightarrow> map_option (\<lambda>v. w @ v) (unquote_body r)))"
  by pat_completeness auto
termination
  by (relation "measure length") (auto dest: unquote_char_length)

declare unquote_body.simps [simp del]

text \<open>Text without escapes, quotes, line breaks and non-ASCII bytes is its own unquoting.\<close>

definition plain_char :: "char \<Rightarrow> bool" where
  "plain_char c \<longleftrightarrow> bcode c < 128 \<and> c \<noteq> CHR 0x22 \<and> c \<noteq> CHR 0x5C \<and> c \<noteq> CHR 0x0A"

lemma unquote_body_plain: "list_all plain_char s \<Longrightarrow> unquote_body s = Some s"
proof (induction s)
  case Nil
  then show ?case by (simp add: unquote_body.simps)
next
  case (Cons c s)
  then show ?case
    by (simp add: unquote_body.simps [of "c # s"] unquote_char_def plain_char_def)
qed

subsection \<open>StructTag.Get\<close>

text \<open>
  \<open>scan_quoted\<close> takes the text after an opening quote and returns the bytes up to the
  closing quote, still escaped, and what follows it.
\<close>

fun scan_quoted :: "string \<Rightarrow> (string \<times> string) option" where
  "scan_quoted [] = None"
| "scan_quoted (c # s) =
     (if c = CHR 0x22 then Some ([], s)
      else if c = CHR 0x5C then
        (case s of [] \<Rightarrow> None
         | d # s' \<Rightarrow> map_option (\<lambda>(q, r). (c # d # q, r)) (scan_quoted s'))
      else map_option (\<lambda>(q, r). (c # q, r)) (scan_quoted s))"

definition tag_name_char :: "char \<Rightarrow> bool" where
  "tag_name_char c \<longleftrightarrow> 32 < bcode c \<and> c \<noteq> CHR '':'' \<and> c \<noteq> CHR 0x22 \<and> c \<noteq> CHR 0x7F"

lemma scan_quoted_length: "scan_quoted s = Some (q, r) \<Longrightarrow> length r < length s"
  by (induction s arbitrary: q r rule: scan_quoted.induct)
     (fastforce split: if_splits list.splits)+

text \<open>
  One round of the loop of \<^verbatim>\<open>StructTag.Lookup\<close>: the name and the still quoted value of
  the next pair, and the rest of the tag.
\<close>

definition tag_pair :: "string \<Rightarrow> (string \<times> string \<times> string) option" where
  "tag_pair tag0 =
     (let tag = dropWhile (\<lambda>c. c = CHR '' '') tag0;
          name = takeWhile tag_name_char tag;
          rest = dropWhile tag_name_char tag
      in if name = [] then None
         else (case rest of
             c # d # body \<Rightarrow>
               if c = CHR '':'' \<and> d = CHR 0x22 then
                 map_option (\<lambda>(q, r). (name, q, r)) (scan_quoted body)
               else None
           | _ \<Rightarrow> None))"

lemma tag_pair_length: "tag_pair s = Some (n, q, r) \<Longrightarrow> length r < length s"
proof -
  assume a: "tag_pair s = Some (n, q, r)"
  let ?t = "dropWhile (\<lambda>c. c = CHR '' '') s"
  obtain c d body where d: "dropWhile tag_name_char ?t = c # d # body"
    and "scan_quoted body = Some (q, r)"
    using a by (auto simp: tag_pair_def Let_def split: if_splits list.splits)
  then have "length r < length body" by (simp add: scan_quoted_length)
  moreover have "length (c # d # body) \<le> length ?t"
    using length_dropWhile_le [of tag_name_char ?t] by (simp add: d)
  moreover have "length ?t \<le> length s" by (rule length_dropWhile_le)
  ultimately show ?thesis by simp
qed

function tag_lookup :: "string \<Rightarrow> string \<Rightarrow> string option" where
  "tag_lookup key tag =
     (case tag_pair tag of
        None \<Rightarrow> None
      | Some (name, q, rest) \<Rightarrow>
          if key = name then unquote_body q else tag_lookup key rest)"
  by pat_completeness auto
termination
  by (relation "measure (\<lambda>(key, tag). length tag)") (auto dest: tag_pair_length)

declare tag_lookup.simps [simp del]

definition tag_get :: "string \<Rightarrow> string \<Rightarrow> string" where
  "tag_get tag key = (case tag_lookup key tag of None \<Rightarrow> [] | Some v \<Rightarrow> v)"

text \<open>A tag written the conventional way, from its key/value pairs.\<close>

fun render_tag :: "(string \<times> string) list \<Rightarrow> string" where
  "render_tag [] = []"
| "render_tag ((k, v) # kvs) = k @ CHR '':'' # CHR 0x22 # v @ CHR 0x22 # CHR '' '' # render_tag kvs"

lemma scan_quoted_plain:
  "list_all plain_char v \<Longrightarrow> scan_quoted (v @ CHR 0x22 # r) = Some (v, r)"
  by (induction v) (auto simp: plain_char_def)

lemma tag_pair_strip: "tag_pair (CHR '' '' # s) = tag_pair s"
  by (simp add: tag_pair_def)

lemma tag_lookup_strip: "tag_lookup key (CHR '' '' # s) = tag_lookup key s"
  by (simp add: tag_lookup.simps [of key "_ # _"] tag_lookup.simps [of key s] tag_pair_strip)

lemma tag_pair_render:
  assumes "k \<noteq> []" "list_all tag_name_char k" "list_all plain_char v"
  shows "tag_pair (k @ CHR '':'' # CHR 0x22 # v @ CHR 0x22 # s) = Some (k, v, s)"
proof -
  have sp: "dropWhile (\<lambda>c. c = CHR '' '') (k @ t) = k @ t" for t
    using assms(1,2) by (cases k) (auto simp: tag_name_char_def)
  have "\<not> tag_name_char CHR '':''" by (simp add: tag_name_char_def)
  moreover have "c \<in> set k \<Longrightarrow> tag_name_char c" for c using assms(2) by (auto simp: list_all_iff)
  ultimately show ?thesis using assms
    by (simp add: tag_pair_def Let_def sp takeWhile_append_stop dropWhile_append_stop
        scan_quoted_plain)
qed

lemma tag_lookup_render:
  assumes "\<forall>(k, v) \<in> set kvs. k \<noteq> [] \<and> list_all tag_name_char k \<and> list_all plain_char v"
  shows "tag_lookup key (render_tag kvs) = map_of kvs key"
  using assms
proof (induction kvs)
  case Nil
  then show ?case by (simp add: tag_lookup.simps tag_pair_def)
next
  case (Cons kv kvs)
  obtain k v where kv: "kv = (k, v)" by fastforce
  with Cons show ?case
    by (simp add: tag_lookup.simps [of key "k @ _"] tag_pair_render unquote_body_plain
        tag_lookup_strip)
qed

end
