(* ===== verification/Go_Strconv.thy ===== *)
theory Go_Strconv
  imports Go_Strings
begin

text \<open>
  \<^verbatim>\<open>strconv.ParseBool\<close>, \<^verbatim>\<open>ParseInt\<close> and \<^verbatim>\<open>ParseUint\<close> in
  base 10 with 64 bits, the way \<open>parseFieldValue\<close> calls them. Every error of these
  functions is \<open>None\<close>: the code only tests that there is one. \<open>show_int\<close> is the
  canonical decimal form, used to state the round trip.
\<close>

definition is_digit :: "char \<Rightarrow> bool" where
  "is_digit c \<longleftrightarrow> 48 \<le> bcode c \<and> bcode c \<le> 57"

definition digit_val :: "char \<Rightarrow> nat" where
  "digit_val c = bcode c - 48"

definition dec_val :: "string \<Rightarrow> nat" where
  "dec_val s = foldl (\<lambda>n c. 10 * n + digit_val c) 0 s"

definition parse_bool :: "string \<Rightarrow> bool option" where
  "parse_bool s =
     (if s \<in> set [''1'', ''t'', ''T'', ''true'', ''TRUE'', ''True''] then Some True
      else if s \<in> set [''0'', ''f'', ''F'', ''false'', ''FALSE'', ''False''] then Some False
      else None)"

definition parse_uint64 :: "string \<Rightarrow> int option" where
  "parse_uint64 s =
     (if s = [] \<or> \<not> list_all is_digit s then None
      else if dec_val s < 2 ^ 64 then Some (int (dec_val s)) else None)"

definition parse_int64 :: "string \<Rightarrow> int option" where
  "parse_int64 s =
     (let neg = (s \<noteq> [] \<and> hd s = CHR ''-'');
          body = (if s \<noteq> [] \<and> (hd s = CHR ''-'' \<or> hd s = CHR ''+'') then tl s else s)
      in case parse_uint64 body of
           None \<Rightarrow> None
         | Some n \<Rightarrow>
             if neg then (if n \<le> 2 ^ 63 then Some (- n) else None)
             else (if n < 2 ^ 63 then Some n else None))"

fun show_nat :: "nat \<Rightarrow> string" where
  "show_nat n = (if n < 10 then [char_of (48 + n)] else show_nat (n div 10) @ [char_of (48 + n mod 10)])"

declare show_nat.simps [simp del]

definition show_int :: "int \<Rightarrow> string" where
  "show_int i = (if i < 0 then CHR ''-'' # show_nat (nat (- i)) else show_nat (nat i))"

lemma dec_val_snoc: "dec_val (s @ [c]) = 10 * dec_val s + digit_val c"
  by (simp add: dec_val_def)

lemma show_nat_digits: "show_nat n \<noteq> [] \<and> list_all is_digit (show_nat n) \<and> dec_val (show_nat n) = n"
proof (induction n rule: show_nat.induct)
  case (1 n)
  show ?case
  proof (cases "n < 10")
    case True
    then show ?thesis by (simp add: show_nat.simps [of n] is_digit_def dec_val_def digit_val_def)
  next
    case False
    moreover have "is_digit (char_of (48 + n mod 10))" "digit_val (char_of (48 + n mod 10)) = n mod 10"
      by (simp_all add: is_digit_def digit_val_def)
    ultimately show ?thesis
      using 1 by (simp add: show_nat.simps [of n] dec_val_snoc)
  qed
qed

lemma show_nat_hd: "is_digit (hd (show_nat n))"
  using show_nat_digits [of n] by (cases "show_nat n") auto

lemma parse_uint64_show: "n < 2 ^ 64 \<Longrightarrow> parse_uint64 (show_nat n) = Some (int n)"
  using show_nat_digits [of n] by (simp add: parse_uint64_def)

lemma parse_int64_show:
  assumes "- (2 ^ 63) \<le> i" "i < 2 ^ 63"
  shows "parse_int64 (show_int i) = Some i"
proof (cases "i < 0")
  case True
  with assms have "parse_uint64 (show_nat (nat (- i))) = Some (- i)"
    by (subst parse_uint64_show) auto
  with True assms show ?thesis by (simp add: parse_int64_def show_int_def)
next
  case False
  have "hd (show_nat (nat i)) \<noteq> CHR ''-''" "hd (show_nat (nat i)) \<noteq> CHR ''+''"
    using show_nat_hd [of "nat i"] by (auto simp: is_digit_def)
  moreover from False assms have "parse_uint64 (show_nat (nat i)) = Some i"
    by (subst parse_uint64_show) auto
  ultimately show ?thesis using False assms by (simp add: parse_int64_def show_int_def)
qed

lemma parse_uint64_range: "parse_uint64 s = Some n \<Longrightarrow> 0 \<le> n \<and> n < 2 ^ 64"
  by (auto simp: parse_uint64_def split: if_splits)

lemma parse_int64_range: "parse_int64 s = Some i \<Longrightarrow> - (2 ^ 63) \<le> i \<and> i < 2 ^ 63"
  by (auto simp: parse_int64_def Let_def split: if_splits option.splits dest!: parse_uint64_range)

lemma parse_bool_cases:
  "parse_bool s = Some b \<longleftrightarrow>
     s \<in> set (if b then [''1'', ''t'', ''T'', ''true'', ''TRUE'', ''True'']
              else [''0'', ''f'', ''F'', ''false'', ''FALSE'', ''False''])"
  by (cases b) (auto simp: parse_bool_def)

end
