(* ===== verification/Go_Json.thy ===== *)
theory Go_Json
  imports Go_StructTag
begin

text \<open>
  \<^verbatim>\<open>json.Unmarshal\<close> of a JSON document into a Go \<open>[]string\<close>, the one use
  liveconfig's core makes of package \<^verbatim>\<open>encoding/json\<close>. The document must be an array;
  an element is a string, or \<open>null\<close> (which leaves the zero value, the empty string). Any
  other element is a type error of Go, and any malformed text a syntax error; both are
  \<open>None\<close> here.
\<close>

definition json_ws :: "char \<Rightarrow> bool" where
  "json_ws c \<longleftrightarrow> c = CHR '' '' \<or> c = CHR 0x09 \<or> c = CHR 0x0A \<or> c = CHR 0x0D"

definition skip_ws :: "string \<Rightarrow> string" where
  "skip_ws s = dropWhile json_ws s"

definition high_surrogate :: "nat \<Rightarrow> bool" where
  "high_surrogate v \<longleftrightarrow> 55296 \<le> v \<and> v < 56320"

definition low_surrogate :: "nat \<Rightarrow> bool" where
  "low_surrogate v \<longleftrightarrow> 56320 \<le> v \<and> v < 57344"

text \<open>
  A \<^verbatim>\<open>\u\<close> escape after its four digits: a surrogate pair is combined, a lone
  surrogate becomes \<open>U+FFFD\<close>.
\<close>

definition json_unicode :: "nat \<Rightarrow> string \<Rightarrow> string \<times> string" where
  "json_unicode v r =
     (if high_surrogate v then
        (case r of
           b # u # r2 \<Rightarrow>
             if b = CHR 0x5C \<and> u = CHR ''u'' then
               (case hex_digits 4 r2 of
                  Some (v2, r3) \<Rightarrow>
                    if low_surrogate v2
                    then (encode_rune (65536 + (v - 55296) * 1024 + (v2 - 56320)), r3)
                    else (encode_rune rune_error, r)
                | None \<Rightarrow> (encode_rune rune_error, r))
             else (encode_rune rune_error, r)
         | _ \<Rightarrow> (encode_rune rune_error, r))
      else (encode_rune v, r))"

fun json_escape :: "string \<Rightarrow> (string \<times> string) option" where
  "json_escape [] = None"
| "json_escape (e # s) =
     (if e = CHR 0x22 \<or> e = CHR 0x5C \<or> e = CHR ''/'' then Some ([e], s)
      else if e = CHR ''b'' then Some ([CHR 0x08], s)
      else if e = CHR ''f'' then Some ([CHR 0x0C], s)
      else if e = CHR ''n'' then Some ([CHR 0x0A], s)
      else if e = CHR ''r'' then Some ([CHR 0x0D], s)
      else if e = CHR ''t'' then Some ([CHR 0x09], s)
      else if e = CHR ''u'' then
        map_option (\<lambda>(v, r). json_unicode v r) (hex_digits 4 s)
      else None)"

text \<open>One step inside a string literal: the bytes it denotes and the rest of the input.\<close>

definition json_char :: "string \<Rightarrow> (string \<times> string) option" where
  "json_char s =
     (case s of
        [] \<Rightarrow> None
      | c # r \<Rightarrow>
          if bcode c < 32 then None
          else if c = CHR 0x5C then json_escape r
          else if bcode c < 128 then Some ([c], r)
          else (let (rn, n) = decode_rune s in Some (encode_rune rn, drop n s)))"

lemma json_unicode_length: "json_unicode v r = (w, r') \<Longrightarrow> length r' \<le> length r"
  by (auto simp: json_unicode_def dest!: hex_digits_length
      split: if_splits list.splits option.splits)

lemma json_escape_length: "json_escape s = Some (w, r) \<Longrightarrow> length r < length s"
proof (cases s)
  case (Cons e s')
  assume "json_escape s = Some (w, r)"
  with Cons show ?thesis
    by (auto split: if_splits dest!: hex_digits_length)
       (metis json_unicode_length le_imp_less_Suc le_trans)
qed simp

lemma json_char_length: "json_char s = Some (w, r) \<Longrightarrow> length r < length s"
  using decode_rune_size [of s]
  by (auto simp: json_char_def split: list.splits if_splits prod.splits dest: json_escape_length)

text \<open>The text after an opening quote: the decoded string and what follows the closing quote.\<close>

function json_string :: "string \<Rightarrow> (string \<times> string) option" where
  "json_string s =
     (if s \<noteq> [] \<and> hd s = CHR 0x22 then Some ([], tl s)
      else (case json_char s of
              None \<Rightarrow> None
            | Some (w, r) \<Rightarrow> map_option (\<lambda>(v, r'). (w @ v, r')) (json_string r)))"
  by pat_completeness auto
termination
  by (relation "measure length") (auto dest: json_char_length)

declare json_string.simps [simp del]

lemma json_string_length: "json_string s = Some (v, r) \<Longrightarrow> length r < length s"
proof (induction s arbitrary: v r rule: json_string.induct)
  case (1 s)
  show ?case
  proof (cases "s \<noteq> [] \<and> hd s = CHR 0x22")
    case True
    then have "json_string s = Some ([], tl s)" by (simp add: json_string.simps [of s])
    with 1(2) have "r = tl s" by simp
    with True show ?thesis by simp
  next
    case False
    with 1(2) obtain w r1 v1 where c: "json_char s = Some (w, r1)" "json_string r1 = Some (v1, r)"
      by (auto simp: json_string.simps [of s] split: option.splits if_splits)
    then show ?thesis using 1(1) [OF False c(1) refl c(2)] json_char_length [OF c(1)] by simp
  qed
qed

definition json_elem :: "string \<Rightarrow> (string \<times> string) option" where
  "json_elem s =
     (if s \<noteq> [] \<and> hd s = CHR 0x22 then json_string (tl s)
      else if has_prefix s ''null'' then Some ([], drop 4 s)
      else None)"

lemma json_elem_length: "json_elem s = Some (v, r) \<Longrightarrow> length r < length s"
proof (cases "s \<noteq> [] \<and> hd s = CHR 0x22")
  case True
  assume "json_elem s = Some (v, r)"
  with True have "json_string (tl s) = Some (v, r)" by (simp add: json_elem_def)
  then have "length r < length (tl s)" by (rule json_string_length)
  then show ?thesis by simp
next
  case False
  assume "json_elem s = Some (v, r)"
  with False show ?thesis
    by (cases s) (auto simp: json_elem_def has_prefix_def split: if_splits)
qed

text \<open>The elements after the opening bracket, up to the end of the document.\<close>

function json_elems :: "string \<Rightarrow> string list option" where
  "json_elems s =
     (case json_elem (skip_ws s) of
        None \<Rightarrow> None
      | Some (v, r) \<Rightarrow>
          (case skip_ws r of
             [] \<Rightarrow> None
           | c # r' \<Rightarrow>
               if c = CHR '','' then map_option (\<lambda>vs. v # vs) (json_elems r')
               else if c = CHR '']'' \<and> skip_ws r' = [] then Some [v]
               else None))"
  by pat_completeness auto
termination
proof (relation "measure length")
  fix s x v r c r'
  assume "json_elem (skip_ws s) = Some x" "(v, r) = x" "skip_ws r = c # r'"
  then have "length r < length (skip_ws s)" "length (c # r') \<le> length r"
    using length_dropWhile_le [of json_ws r] by (auto simp: json_elem_length skip_ws_def)
  moreover have "length (skip_ws s) \<le> length s" by (simp add: skip_ws_def length_dropWhile_le)
  ultimately show "(r', s) \<in> measure length" by simp
qed simp

declare json_elems.simps [simp del]

definition json_strings :: "string \<Rightarrow> string list option" where
  "json_strings s =
     (case skip_ws s of
        [] \<Rightarrow> None
      | c # r \<Rightarrow>
          if c \<noteq> CHR ''['' then None
          else (case skip_ws r of
                  [] \<Rightarrow> None
                | d # r' \<Rightarrow>
                    if d = CHR '']'' then (if skip_ws r' = [] then Some [] else None)
                    else json_elems r))"

subsection \<open>The runes of a string\<close>

text \<open>Decoding rune by rune, a malformed byte giving \<open>U+FFFD\<close>; and the strings that are UTF-8.\<close>

definition utf8_string :: "nat list \<Rightarrow> string" where
  "utf8_string rs = concat (map encode_rune rs)"

function runes_of :: "string \<Rightarrow> nat list" where
  "runes_of s = (if s = [] then [] else fst (decode_rune s) # runes_of (drop (snd (decode_rune s)) s))"
  by pat_completeness auto
termination
proof (relation "measure length")
  fix s :: string
  assume "s \<noteq> []"
  then have "0 < snd (decode_rune s)" "0 < length s" by (simp_all add: decode_rune_size)
  then show "(drop (snd (decode_rune s)) s, s) \<in> measure length" by simp
qed simp

declare runes_of.simps [simp del]

definition valid_utf8 :: "string \<Rightarrow> bool" where
  "valid_utf8 s \<longleftrightarrow> list_all valid_rune (runes_of s) \<and> utf8_string (runes_of s) = s"

lemma runes_of_utf8: "list_all valid_rune rs \<Longrightarrow> runes_of (utf8_string rs) = rs"
proof (induction rs)
  case Nil
  then show ?case by (simp add: utf8_string_def runes_of.simps)
next
  case (Cons r rs)
  have "encode_rune r \<noteq> []" by (simp add: encode_rune_def Let_def)
  with Cons decode_encode_rune [of r "utf8_string rs"] show ?case
    by (simp add: runes_of.simps [of "utf8_string (r # rs)"]) (simp add: utf8_string_def)
qed

lemma valid_utf8_iff: "valid_utf8 s \<longleftrightarrow> (\<exists>rs. list_all valid_rune rs \<and> s = utf8_string rs)"
  by (metis valid_utf8_def runes_of_utf8)

subsection \<open>An encoder, for the round trip\<close>

text \<open>A string is given by its runes; the encoder escapes what JSON asks to be escaped.\<close>

definition hex_char :: "nat \<Rightarrow> char" where
  "hex_char n = char_of (if n < 10 then 48 + n else 87 + n)"

definition json_rune :: "nat \<Rightarrow> string" where
  "json_rune r =
     (if r < 32 then [CHR 0x5C, CHR ''u'', CHR ''0'', CHR ''0'', hex_char (r div 16), hex_char (r mod 16)]
      else if r = 34 then [CHR 0x5C, CHR 0x22]
      else if r = 92 then [CHR 0x5C, CHR 0x5C]
      else encode_rune r)"

definition json_quote :: "nat list \<Rightarrow> string" where
  "json_quote rs = CHR 0x22 # concat (map json_rune rs) @ [CHR 0x22]"

definition json_encode :: "nat list list \<Rightarrow> string" where
  "json_encode xs = CHR ''['' # join_with CHR '','' (map json_quote xs) @ [CHR '']'']"

lemma hex_val_hex_char: "n < 16 \<Longrightarrow> hex_val (hex_char n) = Some n"
  by (auto simp: hex_char_def Let_def)

lemma hex_digits_4:
  "hex_val a = Some i \<Longrightarrow> hex_val b = Some j \<Longrightarrow> hex_val c = Some k \<Longrightarrow> hex_val d = Some l \<Longrightarrow>
   hex_digits 4 (a # b # c # d # s) = Some (16 * (16 * (16 * i + j) + k) + l, s)"
  by (simp add: hex_digits_def del: hex_val.simps)

lemma hex_val_zero: "hex_val CHR ''0'' = Some 0"
  by simp

lemma char_of_quote: "char_of (34 :: nat) = CHR 0x22" "char_of (92 :: nat) = CHR 0x5C"
  by code_simp+

lemma json_char_rune:
  assumes "valid_rune r"
  shows "json_char (json_rune r @ s) = Some (encode_rune r, s)"
    and "hd (json_rune r @ s) \<noteq> CHR 0x22"
proof -
  consider "r < 32" | "r = 34" | "r = 92" | "32 \<le> r" "r < 128" "r \<noteq> 34" "r \<noteq> 92" | "128 \<le> r"
    by linarith
  then have "json_char (json_rune r @ s) = Some (encode_rune r, s) \<and> hd (json_rune r @ s) \<noteq> CHR 0x22"
  proof cases
    case 1
    then have "hex_digits 4 (CHR ''0'' # CHR ''0'' # hex_char (r div 16) # hex_char (r mod 16) # s)
        = Some (r, s)"
      using hex_digits_4 [of "CHR ''0''" 0 "CHR ''0''" 0 "hex_char (r div 16)" "r div 16"
          "hex_char (r mod 16)" "r mod 16" s]
      by (simp add: hex_val_hex_char hex_val_zero del: hex_val.simps)
    with 1 show ?thesis
      by (simp add: json_rune_def json_char_def json_unicode_def high_surrogate_def)
  next
    case 2
    then show ?thesis by (simp add: json_rune_def json_char_def encode_rune_def valid_rune_def char_of_quote)
  next
    case 3
    then show ?thesis by (simp add: json_rune_def json_char_def encode_rune_def valid_rune_def char_of_quote)
  next
    case 4
    then have e: "encode_rune r = [char_of r]" by (simp add: encode_rune_def valid_rune_def)
    have "bcode (char_of r) = r" using 4 by simp
    moreover have "bcode CHR 0x22 = 34" "bcode CHR 0x5C = 92" by simp_all
    ultimately have "char_of r \<noteq> CHR 0x22" "char_of r \<noteq> CHR 0x5C" using 4 by metis+
    with 4 show ?thesis by (simp add: json_rune_def json_char_def e)
  next
    case 5
    have j: "json_rune r = encode_rune r" using 5 by (simp add: json_rune_def)
    obtain b bs where e: "encode_rune r = b # bs" and b: "128 \<le> bcode b"
    proof -
      have "encode_rune r \<noteq> [] \<and> 128 \<le> bcode (hd (encode_rune r))"
        using 5 assms by (auto simp: encode_rune_def valid_rune_def)
      then show ?thesis using that by (cases "encode_rune r") auto
    qed
    have "b \<noteq> CHR 0x22" "b \<noteq> CHR 0x5C" using b by auto
    with b show ?thesis
      using decode_encode_rune [OF assms, of s]
      by (simp add: j e json_char_def)
  qed
  then show "json_char (json_rune r @ s) = Some (encode_rune r, s)"
    and "hd (json_rune r @ s) \<noteq> CHR 0x22" by auto
qed

lemma json_rune_nonempty: "json_rune r \<noteq> []"
  by (simp add: json_rune_def encode_rune_def Let_def)

lemma json_string_quote:
  "list_all valid_rune rs \<Longrightarrow>
   json_string (concat (map json_rune rs) @ CHR 0x22 # s) = Some (utf8_string rs, s)"
proof (induction rs)
  case Nil
  then show ?case by (simp add: json_string.simps utf8_string_def)
next
  case (Cons r rs)
  let ?t = "concat (map json_rune rs) @ CHR 0x22 # s"
  have "json_char (json_rune r @ ?t) = Some (encode_rune r, ?t)"
    and "hd (json_rune r @ ?t) \<noteq> CHR 0x22"
    using Cons.prems by (auto intro!: json_char_rune)
  then show ?case using Cons
    by (simp add: json_string.simps [of "json_rune r @ _"] utf8_string_def)
qed

lemma json_elem_quote:
  "list_all valid_rune rs \<Longrightarrow> json_elem (skip_ws (json_quote rs @ s)) = Some (utf8_string rs, s)"
  by (simp add: json_elem_def json_quote_def skip_ws_def json_ws_def json_string_quote)

lemma json_elems_encode:
  assumes "list_all (list_all valid_rune) (x # xs)"
  shows "json_elems (join_with CHR '','' (map json_quote (x # xs)) @ [CHR '']''])
    = Some (map utf8_string (x # xs))"
  using assms
proof (induction xs arbitrary: x)
  case Nil
  then show ?case
    by (simp add: json_elems.simps json_elem_quote) (simp add: skip_ws_def json_ws_def)
next
  case (Cons y ys)
  then show ?case
    by (simp add: json_elems.simps [of "json_quote x @ _"] json_elem_quote)
       (simp add: skip_ws_def json_ws_def)
qed

lemma json_strings_encode:
  assumes "list_all (list_all valid_rune) xs"
  shows "json_strings (json_encode xs) = Some (map utf8_string xs)"
proof (cases xs)
  case Nil
  then show ?thesis by (simp add: json_encode_def json_strings_def skip_ws_def json_ws_def)
next
  case (Cons x ys)
  have "skip_ws (CHR ''['' # t) = CHR ''['' # t" "skip_ws (CHR 0x22 # t) = CHR 0x22 # t" for t
    by (simp_all add: skip_ws_def json_ws_def)
  moreover obtain t where "join_with CHR '','' (map json_quote xs) @ [CHR '']''] = CHR 0x22 # t"
    using Cons by (cases ys) (auto simp: json_quote_def)
  ultimately show ?thesis using json_elems_encode [of x ys] assms Cons
    by (simp add: json_encode_def json_strings_def)
qed

end
