(* ===== verification/Go_Json_Value.thy ===== *)
theory Go_Json_Value
  imports Go_Json Go_Strconv
begin

text \<open>
  More of package \<^verbatim>\<open>encoding/json\<close>: the text \<^verbatim>\<open>json.Marshal\<close> gives a string, the scanner that
  finds where a value of any shape ends, and the members of an object. The scanner is an
  automaton with a stack of the objects and arrays it is in, at most 10000 of them.
\<close>

subsection \<open>Strings\<close>

text \<open>A lower-case hexadecimal \<^verbatim>\<open>\u\<close> escape.\<close>

definition json_u :: "nat \<Rightarrow> string" where
  "json_u v = [CHR 0x5C, CHR ''u'', hex_char (v div 4096), hex_char (v div 256 mod 16), hex_char (v div 16 mod 16), hex_char (v mod 16)]"

text \<open>
  Control characters, quotes and backslashes are escaped, and so are the characters that
  HTML and JavaScript give a meaning: \<^verbatim>\<open><\<close>, \<^verbatim>\<open>>\<close>, \<^verbatim>\<open>&\<close>, \<open>U+2028\<close> and \<open>U+2029\<close>. A byte that is
  not UTF-8 becomes an escaped \<open>U+FFFD\<close>.
\<close>

definition marshal_rune :: "nat \<Rightarrow> string" where
  "marshal_rune r =
     (if r = 34 \<or> r = 92 then [CHR 0x5C, char_of r]
      else if r = 8 then [CHR 0x5C, CHR ''b'']
      else if r = 12 then [CHR 0x5C, CHR ''f'']
      else if r = 10 then [CHR 0x5C, CHR ''n'']
      else if r = 13 then [CHR 0x5C, CHR ''r'']
      else if r = 9 then [CHR 0x5C, CHR ''t'']
      else if r < 32 \<or> r = 60 \<or> r = 62 \<or> r = 38 \<or> r = 8232 \<or> r = 8233 then json_u r
      else encode_rune r)"

function marshal_body :: "string \<Rightarrow> string" where
  "marshal_body s =
     (if s = [] then []
      else (let (r, n) = decode_rune s in
            (if r = rune_error \<and> n = 1 then json_u rune_error else marshal_rune r) @ marshal_body (drop n s)))"
  by pat_completeness auto
termination
proof (relation "measure length")
  fix s :: string and x r n
  assume "s \<noteq> []" "x = decode_rune s" "(r, n) = x"
  then have "0 < n" "0 < length s" using decode_rune_size [of s] by (auto simp: prod_eq_iff)
  then show "(drop n s, s) \<in> measure length" by simp
qed simp

declare marshal_body.simps [simp del]

definition marshal_string :: "string \<Rightarrow> string" where
  "marshal_string s = CHR 0x22 # marshal_body s @ [CHR 0x22]"

lemma base16: "q * 16 + a = v \<Longrightarrow> p * 16 + b = q \<Longrightarrow> c * 16 + d = p \<Longrightarrow>
    16 * (16 * (16 * c + d) + b) + a = v" for a b c d p q v :: nat
  by simp

lemma json_u_read:
  assumes "v < 55296 \<or> v = rune_error"
  shows "json_char (json_u v @ s) = Some (encode_rune v, s)"
proof -
  define q p where "q = v div 16" "p = q div 16"
  have v: "q * 16 + v mod 16 = v" "p * 16 + q mod 16 = q" "p div 16 * 16 + p mod 16 = p" by (simp_all add: q_p_def)
  have d: "v div 4096 = p div 16" "v div 256 = p" by (simp_all add: q_p_def div_mult2_eq [symmetric])
  have "p div 16 < 16" using assms by (auto simp: rune_error_def simp flip: d(1))
  with hex_digits_4 [of "hex_char (v div 4096)" "p div 16" "hex_char (v div 256 mod 16)" "p mod 16"
      "hex_char (v div 16 mod 16)" "q mod 16" "hex_char (v mod 16)" "v mod 16" s]
  have "hex_digits 4 (hex_char (v div 4096) # hex_char (v div 256 mod 16) # hex_char (v div 16 mod 16) # hex_char (v mod 16) # s)
      = Some (16 * (16 * (16 * (p div 16) + p mod 16) + q mod 16) + v mod 16, s)"
    by (simp add: hex_val_hex_char d q_p_def(1) del: hex_val.simps)
  also have "16 * (16 * (16 * (p div 16) + p mod 16) + q mod 16) + v mod 16 = v" by (rule base16 [OF v])
  finally show ?thesis using assms
    by (auto simp: json_u_def json_char_def json_unicode_def high_surrogate_def rune_error_def)
qed

lemma char_of_ctl: "char_of (8 :: nat) = CHR 0x08" "char_of (12 :: nat) = CHR 0x0C" "char_of (10 :: nat) = CHR 0x0A"
  "char_of (13 :: nat) = CHR 0x0D" "char_of (9 :: nat) = CHR 0x09"
  by code_simp+

lemma marshal_rune_read:
  assumes "valid_rune r"
  shows "json_char (marshal_rune r @ s) = Some (encode_rune r, s)" "hd (marshal_rune r @ s) \<noteq> CHR 0x22"
proof -
  consider "r \<in> {34, 92, 8, 12, 10, 13, 9}" | "r \<in> {60, 62, 38, 8232, 8233} \<or> r < 32 \<and> r \<notin> {8, 12, 10, 13, 9}"
    | "32 \<le> r" "r \<notin> {34, 92, 60, 62, 38, 8232, 8233}" by fastforce
  then have "json_char (marshal_rune r @ s) = Some (encode_rune r, s) \<and> hd (marshal_rune r @ s) \<noteq> CHR 0x22"
  proof cases
    case 1
    have enc: "encode_rune 8 = [CHR 0x08]" "encode_rune 12 = [CHR 0x0C]" "encode_rune 10 = [CHR 0x0A]"
        "encode_rune 13 = [CHR 0x0D]" "encode_rune 9 = [CHR 0x09]" "encode_rune 34 = [CHR 0x22]" "encode_rune 92 = [CHR 0x5C]"
      by (simp_all add: encode_rune_def valid_rune_def char_of_quote char_of_ctl)
    from 1 show ?thesis
      by (elim insertE emptyE) (simp_all add: marshal_rune_def json_char_def char_of_quote enc)
  next
    case 2
    then have "marshal_rune r = json_u r" "r < 55296" by (auto simp: marshal_rune_def)
    with json_u_read [of r s] show ?thesis by (simp add: json_u_def)
  next
    case 3
    then have "marshal_rune r = json_rune r" by (auto simp: marshal_rune_def json_rune_def)
    with json_char_rune [OF assms, of s] show ?thesis by simp
  qed
  then show "json_char (marshal_rune r @ s) = Some (encode_rune r, s)" "hd (marshal_rune r @ s) \<noteq> CHR 0x22"
    by simp_all
qed

lemma decode_rune_valid: "s \<noteq> [] \<Longrightarrow> valid_rune (fst (decode_rune s))"
proof -
  have two: "decode2 a b = Some x \<Longrightarrow> valid_rune (fst x)" for a b x
    by (auto simp: decode2_def is_cont_def valid_rune_def split: if_splits)
  have three: "decode3 a b c = Some x \<Longrightarrow> valid_rune (fst x)" for a b c x
  proof -
    assume "decode3 a b c = Some x"
    then have x: "fst x = (a - 224) * 4096 + (b - 128) * 64 + (c - 128)" "a - 224 < 16" "b - 128 < 64"
      "c - 128 < 64" "a - 224 = 13 \<longrightarrow> b - 128 < 32"
      by (auto simp: decode3_def is_cont_def split: if_splits)
    consider "a - 224 < 13" | "a - 224 = 13" | "14 \<le> a - 224" by linarith
    then have "fst x < 55296 \<or> 57344 \<le> fst x" using x by cases linarith+
    moreover have "fst x < 1114112" using x by linarith
    ultimately show ?thesis by (simp add: valid_rune_def)
  qed
  have four: "decode4 a b c d = Some x \<Longrightarrow> valid_rune (fst x)" for a b c d x
    by (auto simp: decode4_def is_cont_def valid_rune_def split: if_splits)
  assume "s \<noteq> []"
  then show ?thesis
    by (cases s) (auto simp: decode_rune_def valid_rune_def rune_error_def dest: two three four split: list.splits option.splits)
qed

text \<open>A marshalled string is read back with its malformed bytes replaced.\<close>

lemma marshal_body_read: "json_string (marshal_body s @ CHR 0x22 # t) = Some (utf8_string (runes_of s), t)"
proof (induction s rule: marshal_body.induct)
  case (1 s)
  show ?case
  proof (cases "s = []")
    case True
    then show ?thesis by (simp add: marshal_body.simps runes_of.simps json_string.simps utf8_string_def)
  next
    case False
    obtain r n where d: "decode_rune s = (r, n)" by (cases "decode_rune s")
    define w where "w = (if r = rune_error \<and> n = 1 then json_u rune_error else marshal_rune r)"
    let ?t = "marshal_body (drop n s) @ CHR 0x22 # t"
    have body: "marshal_body s = w @ marshal_body (drop n s)" and runes: "runes_of s = r # runes_of (drop n s)"
      using False d by (simp_all add: marshal_body.simps [of s] runes_of.simps [of s] w_def)
    have "valid_rune r" using decode_rune_valid [OF False] d by simp
    then have c: "json_char (w @ ?t) = Some (encode_rune r, ?t)" "hd (w @ ?t) \<noteq> CHR 0x22"
      using marshal_rune_read [of r ?t] json_u_read [of rune_error ?t] by (auto simp: w_def json_u_def)
    have "json_string ?t = Some (utf8_string (runes_of (drop n s)), t)" using 1 [OF False] d by simp
    with c show ?thesis
      by (simp add: body runes json_string.simps [of "w @ _"] utf8_string_def)
  qed
qed

lemma marshal_string_read: "json_string (tl (marshal_string s @ t)) = Some (utf8_string (runes_of s), t)"
  using marshal_body_read by (simp add: marshal_string_def)

subsection \<open>The scanner\<close>

text \<open>A number's end: an optional sign, an integer without leading zeros, a fraction, an exponent.\<close>

definition skip_digits :: "string \<Rightarrow> string" where
  "skip_digits s = dropWhile is_digit s"

definition skip_exponent :: "string \<Rightarrow> string option" where
  "skip_exponent s =
     (case s of
        e # r \<Rightarrow>
          if e = CHR ''e'' \<or> e = CHR ''E'' then
            (let r' = (if r \<noteq> [] \<and> (hd r = CHR ''+'' \<or> hd r = CHR ''-'') then tl r else r) in
             if r' \<noteq> [] \<and> is_digit (hd r') then Some (skip_digits r') else None)
          else Some s
      | [] \<Rightarrow> Some [])"

definition skip_fraction :: "string \<Rightarrow> string option" where
  "skip_fraction s =
     (if s \<noteq> [] \<and> hd s = CHR ''.'' then
        (if tl s \<noteq> [] \<and> is_digit (hd (tl s)) then skip_exponent (skip_digits (tl s)) else None)
      else skip_exponent s)"

definition skip_number :: "string \<Rightarrow> string option" where
  "skip_number s =
     (case (if s \<noteq> [] \<and> hd s = CHR ''-'' then tl s else s) of
        [] \<Rightarrow> None
      | c # r \<Rightarrow>
          if c = CHR ''0'' then skip_fraction r
          else if is_digit c then skip_fraction (skip_digits r) else None)"

text \<open>A value that is neither an object nor an array.\<close>

definition skip_scalar :: "string \<Rightarrow> string option" where
  "skip_scalar s =
     (if s \<noteq> [] \<and> hd s = CHR 0x22 then map_option snd (json_string (tl s))
      else if has_prefix s ''true'' \<or> has_prefix s ''null'' then Some (drop 4 s)
      else if has_prefix s ''false'' then Some (drop 5 s)
      else skip_number s)"

datatype scan_context = InObject | InArray

datatype scan_state = AtValue | AtValueOrEnd | AtKey | AtKeyOrEnd | AtColon | AfterValue

text \<open>One token: the next state, the objects and arrays the scanner is in, and the rest.\<close>

fun scan_token :: "nat \<Rightarrow> scan_state \<Rightarrow> scan_context list \<Rightarrow> string \<Rightarrow>
    (scan_state \<times> scan_context list \<times> string) option" where
  "scan_token lim st stack [] = None"
| "scan_token lim st stack (c # r) =
     (case st of
        AtColon \<Rightarrow> if c = CHR '':'' then Some (AtValue, stack, r) else None
      | AfterValue \<Rightarrow>
          (case stack of
             [] \<Rightarrow> None
           | InObject # rest \<Rightarrow>
               if c = CHR '','' then Some (AtKey, stack, r)
               else if c = CHR ''}'' then Some (AfterValue, rest, r) else None
           | InArray # rest \<Rightarrow>
               if c = CHR '','' then Some (AtValue, stack, r)
               else if c = CHR '']'' then Some (AfterValue, rest, r) else None)
      | _ \<Rightarrow>
          if st = AtKey \<or> st = AtKeyOrEnd then
            (if c = CHR 0x22 then map_option (\<lambda>(v, r'). (AtColon, stack, r')) (json_string r)
             else if st = AtKeyOrEnd \<and> c = CHR ''}'' then Some (AfterValue, tl stack, r) else None)
          else if st = AtValueOrEnd \<and> c = CHR '']'' then Some (AfterValue, tl stack, r)
          else if c = CHR ''{'' then (if length stack < lim then Some (AtKeyOrEnd, InObject # stack, r) else None)
          else if c = CHR ''['' then (if length stack < lim then Some (AtValueOrEnd, InArray # stack, r) else None)
          else map_option (\<lambda>r'. (AfterValue, stack, r')) (skip_scalar (c # r)))"

lemma skip_digits_length: "length (skip_digits s) \<le> length s"
  by (simp add: skip_digits_def length_dropWhile_le)

lemma skip_exponent_length: "skip_exponent s = Some r \<Longrightarrow> length r \<le> length s"
  by (cases s) (auto simp: skip_exponent_def Let_def skip_digits_length le_SucI le_diff_conv
    split: if_splits intro: order_trans [OF skip_digits_length])

lemma skip_fraction_length: "skip_fraction s = Some r \<Longrightarrow> length r \<le> length s"
  by (auto simp: skip_fraction_def split: if_splits dest!: skip_exponent_length
    intro: order_trans [OF _ order_trans [OF skip_digits_length]])

lemma skip_number_length: "skip_number s = Some r \<Longrightarrow> length r < length s"
  using skip_digits_length [of "tl s"] skip_digits_length [of "tl (tl s)"]
  by (cases s; cases "tl s")
     (auto simp: skip_number_def less_Suc_eq_le split: if_splits dest!: skip_fraction_length intro: order_trans)

lemma skip_scalar_length: "skip_scalar s = Some r \<Longrightarrow> length r < length s"
  by (cases s) (auto simp: skip_scalar_def has_prefix_def less_Suc_eq_le dest: skip_number_length json_string_length
    split: if_splits)

lemma scan_token_length: "scan_token lim st stack s = Some (st', stack', r) \<Longrightarrow> length r < length s"
  by (cases s) (auto dest: skip_scalar_length json_string_length
    split: scan_state.splits list.splits scan_context.splits if_splits)

text \<open>The rest after one value that starts in the given state.\<close>

function scan_value :: "nat \<Rightarrow> scan_state \<Rightarrow> scan_context list \<Rightarrow> string \<Rightarrow> string option" where
  "scan_value lim st stack s =
     (if st = AfterValue \<and> stack = [] then Some s
      else (case scan_token lim st stack (skip_ws s) of
              None \<Rightarrow> None
            | Some (st', stack', r) \<Rightarrow> scan_value lim st' stack' r))"
  by pat_completeness auto
termination
proof (relation "measure (\<lambda>(lim, st, stack, s). length s)")
  fix lim st stack s x st' y stack' r
  assume "scan_token lim st stack (skip_ws s) = Some x" "(st', y) = x" "(stack', r) = y"
  then have "length r < length (skip_ws s)" using scan_token_length by auto
  also have "\<dots> \<le> length s" by (simp add: skip_ws_def length_dropWhile_le)
  finally show "((lim, st', stack', r), lim, st, stack, s) \<in> measure (\<lambda>(lim, st, stack, s). length s)" by simp
qed simp

declare scan_value.simps [simp del]

lemma scan_value_length: "scan_value lim st stack s = Some r \<Longrightarrow> length r \<le> length s"
proof (induction lim st stack s rule: scan_value.induct)
  case (1 lim st stack s)
  show ?case
  proof (cases "st = AfterValue \<and> stack = []")
    case False
    with 1(2) obtain st' stack' t where t: "scan_token lim st stack (skip_ws s) = Some (st', stack', t)"
      "scan_value lim st' stack' t = Some r" by (auto simp: scan_value.simps [of lim st stack s] split: option.splits)
    have "length r \<le> length t" using 1(1) [OF False t(1) refl refl t(2)] .
    also have "\<dots> \<le> length (skip_ws s)" using scan_token_length [OF t(1)] by simp
    also have "\<dots> \<le> length s" by (simp add: skip_ws_def length_dropWhile_le)
    finally show ?thesis .
  qed (use 1(2) in \<open>auto simp: scan_value.simps [of lim AfterValue "[]"]\<close>)
qed

subsection \<open>Objects\<close>

definition json_max_depth :: nat where
  "json_max_depth = 10000"

text \<open>
  The members of an object after its opening brace, each a name and the text of its value,
  when nothing but white space follows the closing brace.
\<close>

function json_members :: "string \<Rightarrow> (string \<times> string) list option" where
  "json_members s =
     (case skip_ws s of
        [] \<Rightarrow> None
      | q # r \<Rightarrow>
          if q \<noteq> CHR 0x22 then None
          else (case json_string r of
              None \<Rightarrow> None
            | Some (name, r1) \<Rightarrow>
                (case skip_ws r1 of
                   [] \<Rightarrow> None
                 | colon # r2 \<Rightarrow>
                     if colon \<noteq> CHR '':'' then None
                     else (case scan_value (json_max_depth - 1) AtValue [] (skip_ws r2) of
                         None \<Rightarrow> None
                       | Some r3 \<Rightarrow>
                           (let member = (name, take (length (skip_ws r2) - length r3) (skip_ws r2)) in
                            case skip_ws r3 of
                              [] \<Rightarrow> None
                            | c # r4 \<Rightarrow>
                                if c = CHR '','' then map_option (Cons member) (json_members r4)
                                else if c = CHR ''}'' \<and> skip_ws r4 = [] then Some [member] else None)))))"
  by pat_completeness auto
termination
proof (relation "measure length")
  fix s q r x name r1 colon r2 r3 member c r4
  assume "skip_ws s = q # r" "json_string r = Some x" "(name, r1) = x" "skip_ws r1 = colon # r2"
    "scan_value (json_max_depth - 1) AtValue [] (skip_ws r2) = Some r3" "skip_ws r3 = c # r4"
  moreover have ws: "length (skip_ws t) \<le> length t" for t by (simp add: skip_ws_def length_dropWhile_le)
  ultimately have "length r < length s" "length r1 < length r" "length r2 < length r1" "length r3 \<le> length (skip_ws r2)"
      "length r4 < length r3"
    using ws [of s] ws [of r1] ws [of r3] by (auto dest: json_string_length scan_value_length)
  with ws [of r2] show "(r4, s) \<in> measure length" by simp
qed simp

declare json_members.simps [simp del]

text \<open>The members of a document that is an object.\<close>

definition json_object :: "string \<Rightarrow> (string \<times> string) list option" where
  "json_object s =
     (case skip_ws s of
        [] \<Rightarrow> None
      | b # r \<Rightarrow>
          if b \<noteq> CHR ''{'' then None
          else (case skip_ws r of
                  [] \<Rightarrow> None
                | c # r' \<Rightarrow> if c = CHR ''}'' then (if skip_ws r' = [] then Some [] else None) else json_members r))"

text \<open>An object as \<^verbatim>\<open>json.Marshal\<close> writes it.\<close>

definition marshal_member :: "string \<times> string \<Rightarrow> string" where
  "marshal_member m = marshal_string (fst m) @ CHR '':'' # snd m"

definition marshal_object :: "(string \<times> string) list \<Rightarrow> string" where
  "marshal_object ms = CHR ''{'' # join_with CHR '','' (map marshal_member ms) @ [CHR ''}'']"

text \<open>A text that is a string literal.\<close>

definition literal_of :: "string \<Rightarrow> string \<Rightarrow> bool" where
  "literal_of lit v \<longleftrightarrow> (\<exists>b. lit = CHR 0x22 # b \<and> (\<forall>t. json_string (b @ t) = Some (v, t)))"

lemma literal_marshal: "literal_of (marshal_string s) (utf8_string (runes_of s))"
  using marshal_body_read by (auto simp: literal_of_def marshal_string_def)

lemma skip_ws_other [simp]:
  "\<not> json_ws c \<Longrightarrow> skip_ws (c # s) = c # s" "skip_ws [] = []"
  by (simp_all add: skip_ws_def)

lemma not_ws [simp]: "\<not> json_ws CHR 0x22" "\<not> json_ws CHR '':''" "\<not> json_ws CHR '',''" "\<not> json_ws CHR ''}''" "\<not> json_ws CHR ''{''"
  by (simp_all add: json_ws_def)

lemma scan_literal:
  assumes "literal_of lit v"
  shows "scan_value lim AtValue [] (lit @ t) = Some t" "\<exists>b. lit = CHR 0x22 # b"
proof -
  obtain b where b: "lit = CHR 0x22 # b" "json_string (b @ t) = Some (v, t)"
    using assms by (auto simp: literal_of_def)
  then show "scan_value lim AtValue [] (lit @ t) = Some t"
    by (simp add: scan_value.simps [of lim AtValue] scan_value.simps [of lim AfterValue] skip_scalar_def)
  show "\<exists>b. lit = CHR 0x22 # b" using b(1) by blast
qed

lemma member_read:
  assumes "literal_of (snd m) v" and that: "\<not> json_ws c"
  shows "json_members (marshal_member m @ c # t) =
    (if c = CHR '','' then map_option (Cons (utf8_string (runes_of (fst m)), snd m)) (json_members t)
     else if c = CHR ''}'' \<and> skip_ws t = [] then Some [(utf8_string (runes_of (fst m)), snd m)] else None)"
proof -
  obtain b where b: "snd m = CHR 0x22 # b" using scan_literal(2) [OF assms(1)] by blast
  show ?thesis
    using scan_literal(1) [OF assms(1), of "json_max_depth - 1" "c # t"] that
    unfolding json_members.simps [of "marshal_member m @ c # t"]
    by (simp add: marshal_member_def marshal_string_def marshal_body_read b)
qed

lemma members_read:
  "list_all (\<lambda>m. \<exists>v. literal_of (snd m) v) (m # ms) \<Longrightarrow>
     json_members (join_with CHR '','' (map marshal_member (m # ms)) @ [CHR ''}''])
       = Some (map (\<lambda>(k, raw). (utf8_string (runes_of k), raw)) (m # ms))"
proof (induction ms arbitrary: m)
  case Nil
  then obtain v where "literal_of (snd m) v" by auto
  from member_read [OF this, of "CHR ''}''" "[]"] show ?case by (simp add: split_beta)
next
  case (Cons n ns)
  then obtain v where "literal_of (snd m) v" by auto
  from member_read [OF this, of "CHR '',''"] Cons show ?case by (simp add: split_beta)
qed

lemma object_read:
  assumes "list_all (\<lambda>m. \<exists>v. literal_of (snd m) v) ms" "ms \<noteq> []"
  shows "json_object (marshal_object ms) = Some (map (\<lambda>(k, raw). (utf8_string (runes_of k), raw)) ms)"
proof -
  obtain m ms' where ms: "ms = m # ms'" using assms(2) by (cases ms) auto
  obtain x where "join_with CHR '','' (map marshal_member ms) @ [CHR ''}''] = CHR 0x22 # x"
    by (cases ms') (auto simp: ms marshal_member_def marshal_string_def)
  with members_read [of m ms'] assms(1) ms show ?thesis
    by (simp add: json_object_def marshal_object_def)
qed

end
