(* ===== verification/Go_Time.thy ===== *)
theory Go_Time
  imports Go_Strconv
begin

text \<open>
  \<^verbatim>\<open>time.Time\<close> in JSON: instants are nanoseconds since the Unix epoch, and their text is that
  of RFC 3339. \<open>parse_rfc3339\<close> is the parser package \<^verbatim>\<open>time\<close> tries first;
  \<open>time_rfc3339\<close> is what \<^verbatim>\<open>MarshalJSON\<close> writes for a time in UTC. The calendar is the
  proleptic Gregorian one, with days counted from the first of January of the year 0.
\<close>

subsection \<open>The calendar\<close>

definition leap_year :: "nat \<Rightarrow> bool" where
  "leap_year y \<longleftrightarrow> y mod 4 = 0 \<and> (y mod 100 \<noteq> 0 \<or> y mod 400 = 0)"

definition year_length :: "nat \<Rightarrow> nat" where
  "year_length y = (if leap_year y then 366 else 365)"

definition month_length :: "nat \<Rightarrow> nat \<Rightarrow> nat" where
  "month_length y m = (if m = 2 then (if leap_year y then 29 else 28) else if m \<in> {4, 6, 9, 11} then 30 else 31)"

definition days_before_year :: "nat \<Rightarrow> nat" where
  "days_before_year y = 365 * y + (y + 3) div 4 + (y + 399) div 400 - (y + 99) div 100"

definition days_before_month :: "nat \<Rightarrow> nat \<Rightarrow> nat" where
  "days_before_month y m = sum_list (map (month_length y) [1..<m])"

definition date_days :: "nat \<Rightarrow> nat \<Rightarrow> nat \<Rightarrow> nat" where
  "date_days y m d = days_before_year y + days_before_month y m + (d - 1)"

definition epoch_days :: nat where
  "epoch_days = date_days 1970 1 1"

text \<open>The year and the month a day falls in, with the days left.\<close>

function find_year :: "nat \<Rightarrow> nat \<Rightarrow> nat \<times> nat" where
  "find_year y n = (if n < year_length y then (y, n) else find_year (Suc y) (n - year_length y))"
  by pat_completeness auto
termination
  by (relation "measure snd") (auto simp: year_length_def split: if_splits)

fun find_month :: "nat \<Rightarrow> nat list \<Rightarrow> nat \<Rightarrow> nat \<times> nat" where
  "find_month y [] n = (12, n)"
| "find_month y (m # ms) n = (if n < month_length y m then (m, n) else find_month y ms (n - month_length y m))"

definition days_date :: "nat \<Rightarrow> nat \<times> nat \<times> nat" where
  "days_date n = (let (y, r) = find_year 0 n; (m, d) = find_month y [1..<13] r in (y, m, Suc d))"

declare find_year.simps [simp del]

lemma year_length_bounds: "365 \<le> year_length y" "year_length y \<le> 366"
  by (simp_all add: year_length_def)

lemma div_step: "0 < k \<Longrightarrow> (y + k) div k = (y + (k - 1)) div k + (if y mod k = 0 then 1 else 0)" for y k :: nat
  using div_Suc [of "y + (k - 1)" k] by (simp add: add.commute)

lemma days_before_year_Suc: "days_before_year (Suc y) = days_before_year y + year_length y"
proof -
  have less: "(y + 99) div 100 \<le> 365 * y + (y + 3) div 4 + (y + 399) div 400"
    by (rule order_trans [of _ y]) (cases "y = 0", simp_all add: less_eq_div_iff_mult_less_eq)
  define a b c where abc: "a = (y + 3) div 4" "b = (y + 99) div 100" "c = (y + 399) div 400"
  have up: "(Suc y + 3) div 4 = a + (if y mod 4 = 0 then 1 else 0)"
    "(Suc y + 99) div 100 = b + (if y mod 100 = 0 then 1 else 0)"
    "(Suc y + 399) div 400 = c + (if y mod 400 = 0 then 1 else 0)"
    using div_step [of 4 y] div_step [of 100 y] div_step [of 400 y] by (simp_all add: abc add.commute)
  have "y mod 400 = 0 \<Longrightarrow> y mod 100 = 0" "y mod 100 = 0 \<Longrightarrow> y mod 4 = 0"
    using dvd_trans [of 100 400 y] dvd_trans [of 4 100 y] by (simp_all add: mod_eq_0_iff_dvd)
  then show ?thesis
    using less unfolding days_before_year_def year_length_def leap_year_def up abc [symmetric]
    by (cases "y mod 4 = 0"; cases "y mod 100 = 0"; cases "y mod 400 = 0") simp_all
qed

lemma find_year_correct:
  "find_year y n = (y', r) \<Longrightarrow>
     r < year_length y' \<and> days_before_year y + n = days_before_year y' + r \<and> y \<le> y'"
proof (induction y n rule: find_year.induct)
  case (1 y n)
  show ?case
  proof (cases "n < year_length y")
    case False
    with 1 show ?thesis by (fastforce simp: find_year.simps [of y n] days_before_year_Suc)
  qed (use 1(2) in \<open>simp add: find_year.simps [of y n]\<close>)
qed

lemma find_month_correct:
  "n < sum_list (map (month_length y) ms) \<Longrightarrow> find_month y ms n = (m, r) \<Longrightarrow>
     r < month_length y m \<and> (\<exists>as bs. ms = as @ m # bs \<and> n = sum_list (map (month_length y) as) + r)"
proof (induction ms arbitrary: n)
  case (Cons k ms)
  show ?case
  proof (cases "n < month_length y k")
    case True
    with Cons.prems show ?thesis by (auto intro: exI [of _ "[]"])
  next
    case False
    with Cons.prems have "n - month_length y k < sum_list (map (month_length y) ms)"
      "find_month y ms (n - month_length y k) = (m, r)" by simp_all
    from Cons.IH [OF this] obtain as bs where
      "r < month_length y m" "ms = as @ m # bs" "n - month_length y k = sum_list (map (month_length y) as) + r"
      by blast
    with False show ?thesis by (intro conjI exI [of _ "k # as"] exI [of _ bs]) auto
  qed
qed simp

lemma months: "[1..<13] = [1, 2, 3, 4, 5, 6, 7, 8, 9, 10, 11, 12]"
  by (simp add: upt_rec)

lemma sum_months: "sum_list (map (month_length y) [1..<13]) = year_length y"
  unfolding months by (simp add: month_length_def year_length_def)

lemma days_before_year_mono: "y \<le> z \<Longrightarrow> days_before_year y \<le> days_before_year z"
  by (induction rule: dec_induct) (simp_all add: days_before_year_Suc)

lemma upt_split: "[i..<j] = as @ m # bs \<Longrightarrow> as = [i..<m] \<and> i \<le> m \<and> m < j"
proof (induction as arbitrary: i)
  case Nil
  then show ?case by (metis append_Nil in_set_conv_decomp_first atLeastLessThan_iff set_upt upt_conv_Cons
        list.inject upt_eq_Cons_conv upt_conv_Nil order_refl)
next
  case (Cons a as)
  then have a: "a = i" "[Suc i..<j] = as @ m # bs" by (auto simp: upt_eq_Cons_conv)
  from Cons.IH [OF a(2)] a(1) show ?case by (auto simp: upt_conv_Cons)
qed

lemma days_date_correct:
  assumes "days_date n = (y, m, d)"
  shows "date_days y m d = n" "m \<in> {1..12}" "d \<in> {1..month_length y m}"
    "n < days_before_year 10000 \<Longrightarrow> y < 10000"
proof -
  obtain r where r: "find_year 0 n = (y, r)" "find_month y [1..<13] r = (m, d - 1)" "0 < d"
    using assms by (auto simp: days_date_def Let_def split: prod.splits)
  have y: "r < year_length y" "n = days_before_year y + r"
    using find_year_correct [OF r(1)] by (simp_all add: days_before_year_def)
  have "r < sum_list (map (month_length y) [1..<13])" unfolding sum_months by (rule y(1))
  from find_month_correct [OF this r(2)] obtain as bs where
    m: "d - 1 < month_length y m" "[1..<13] = as @ m # bs" "r = sum_list (map (month_length y) as) + (d - 1)"
    by blast
  from upt_split [OF m(2)] have "as = [1..<m]" "1 \<le> m" "m < 13" by simp_all
  with m y(2) r(3) show "date_days y m d = n" "m \<in> {1..12}" "d \<in> {1..month_length y m}"
    by (auto simp: date_days_def days_before_month_def)
  show "y < 10000" if "n < days_before_year 10000"
    using that y(2) days_before_year_mono [of 10000 y] by linarith
qed

subsection \<open>Parsing\<close>

text \<open>\<open>len\<close> digits at \<open>at\<close>, whose number is between \<open>lo\<close> and \<open>hi\<close>.\<close>

definition digit_field :: "nat \<Rightarrow> nat \<Rightarrow> nat \<Rightarrow> nat \<Rightarrow> string \<Rightarrow> nat option" where
  "digit_field at len lo hi s =
     (let ds = take len (drop at s) in
      if list_all is_digit ds \<and> lo \<le> dec_val ds \<and> dec_val ds \<le> hi then Some (dec_val ds) else None)"

text \<open>Seconds since the epoch of a date and a time of day.\<close>

definition civil_seconds :: "nat \<Rightarrow> nat \<Rightarrow> nat \<Rightarrow> nat \<Rightarrow> nat \<Rightarrow> nat \<Rightarrow> int" where
  "civil_seconds y mo d h mi sec =
     (int (date_days y mo d) - int epoch_days) * 86400 + int (h * 3600 + mi * 60 + sec)"

text \<open>The first 19 bytes, \<^verbatim>\<open>2006-01-02T15:04:05\<close>.\<close>

definition parse_civil :: "string \<Rightarrow> int option" where
  "parse_civil s =
     (if length s < 19 then None
      else case (digit_field 0 4 0 9999 s, digit_field 5 2 1 12 s) of
        (Some y, Some mo) \<Rightarrow>
          (case (digit_field 8 2 1 (month_length y mo) s, digit_field 11 2 0 23 s,
                 digit_field 14 2 0 59 s, digit_field 17 2 0 59 s) of
             (Some d, Some h, Some mi, Some sec) \<Rightarrow>
               if s ! 4 = CHR ''-'' \<and> s ! 7 = CHR ''-'' \<and> s ! 10 = CHR ''T'' \<and> s ! 13 = CHR '':'' \<and> s ! 16 = CHR '':''
               then Some (civil_seconds y mo d h mi sec) else None
           | _ \<Rightarrow> None)
      | _ \<Rightarrow> None)"

text \<open>A fraction of a second in nanoseconds, further digits dropped, and the rest of the text.\<close>

definition parse_fraction :: "string \<Rightarrow> nat \<times> string" where
  "parse_fraction s =
     (case s of
        c # d # _ \<Rightarrow>
          if c = CHR ''.'' \<and> is_digit d
          then (let ds = takeWhile is_digit (tl s) in
                (dec_val (take 9 ds) * 10 ^ (9 - length (take 9 ds)), drop (length ds) (tl s)))
          else (0, s)
      | _ \<Rightarrow> (0, s))"

text \<open>A zone's offset in seconds.\<close>

definition parse_zone :: "string \<Rightarrow> int option" where
  "parse_zone s =
     (if s = ''Z'' then Some 0
      else if length s \<noteq> 6 then None
      else case (digit_field 1 2 0 23 s, digit_field 4 2 0 59 s) of
        (Some h, Some mi) \<Rightarrow>
          if (s ! 0 = CHR ''-'' \<or> s ! 0 = CHR ''+'') \<and> s ! 3 = CHR '':''
          then Some ((if s ! 0 = CHR ''-'' then - 1 else 1) * int ((h * 60 + mi) * 60)) else None
      | _ \<Rightarrow> None)"

definition parse_rfc3339 :: "string \<Rightarrow> go_time option" where
  "parse_rfc3339 s =
     (case parse_civil s of
        None \<Rightarrow> None
      | Some sec \<Rightarrow>
          (let (ns, r) = parse_fraction (drop 19 s) in
           map_option (\<lambda>zone. (sec - zone) * 10 ^ 9 + int ns) (parse_zone r)))"

subsection \<open>Formatting\<close>

fun pad_dec :: "nat \<Rightarrow> nat \<Rightarrow> string" where
  "pad_dec 0 n = []"
| "pad_dec (Suc w) n = pad_dec w (n div 10) @ [char_of (48 + n mod 10)]"

definition fraction_text :: "nat \<Rightarrow> string" where
  "fraction_text ns =
     (if ns = 0 then [] else CHR ''.'' # rev (dropWhile (\<lambda>c. c = CHR ''0'') (rev (pad_dec 9 ns))))"

text \<open>\<^verbatim>\<open>MarshalJSON\<close> fails for years that do not have four digits.\<close>

definition time_rfc3339 :: "go_time \<Rightarrow> string option" where
  "time_rfc3339 t =
     (let sec = t div 10 ^ 9; day = sec div 86400 + int epoch_days;
          (y, mo, d) = days_date (nat day); r = nat (sec mod 86400)
      in if day < 0 \<or> 10000 \<le> y then None
         else Some (pad_dec 4 y @ ''-'' @ pad_dec 2 mo @ ''-'' @ pad_dec 2 d @ ''T''
                @ pad_dec 2 (r div 3600) @ '':'' @ pad_dec 2 (r div 60 mod 60) @ '':'' @ pad_dec 2 (r mod 60)
                @ fraction_text (nat (t mod 10 ^ 9)) @ ''Z''))"

subsection \<open>The round trip\<close>

lemma pad_dec_props [simp]:
  "length (pad_dec w n) = w" "list_all is_digit (pad_dec w n)"
  by (induction w arbitrary: n) (simp_all add: is_digit_def)

lemma dec_val_pad: "n < 10 ^ w \<Longrightarrow> dec_val (pad_dec w n) = n"
proof (induction w arbitrary: n)
  case 0
  then show ?case by (simp add: dec_val_def)
next
  case (Suc w)
  have "bcode (char_of (48 + n mod 10)) = 48 + n mod 10" by (rule bcode_char_of) simp
  moreover have "n div 10 < 10 ^ w" using Suc.prems by (simp add: less_mult_imp_div_less)
  ultimately show ?case using Suc.IH [of "n div 10"] by (simp add: dec_val_snoc digit_val_def)
qed

lemma digit_field_pad:
  "length xs = at \<Longrightarrow> n < 10 ^ len \<Longrightarrow> lo \<le> n \<Longrightarrow> n \<le> hi \<Longrightarrow>
     digit_field at len lo hi (xs @ pad_dec len n @ ys) = Some n"
  by (simp add: digit_field_def dec_val_pad)

text \<open>The date and time of day as they stand in the text.\<close>

definition civil_text :: "nat \<Rightarrow> nat \<Rightarrow> nat \<Rightarrow> nat \<Rightarrow> nat \<Rightarrow> nat \<Rightarrow> string" where
  "civil_text y mo d h mi sec = pad_dec 4 y @ ''-'' @ pad_dec 2 mo @ ''-'' @ pad_dec 2 d @ ''T''
     @ pad_dec 2 h @ '':'' @ pad_dec 2 mi @ '':'' @ pad_dec 2 sec"

lemma month_length_bound: "month_length y m \<le> 31"
  by (simp add: month_length_def)

lemma parse_civil_text:
  assumes "y < 10000" "mo \<in> {1..12}" "d \<in> {1..month_length y mo}" "h < 24" "mi < 60" "sec < 60"
  shows "parse_civil (civil_text y mo d h mi sec @ r) = Some (civil_seconds y mo d h mi sec)"
proof -
  let ?s = "civil_text y mo d h mi sec @ r"
  have "digit_field 0 4 0 9999 ?s = Some y"
    using digit_field_pad [of "[]" 0 y 4 0 9999] assms(1) by (simp add: civil_text_def)
  moreover have "digit_field 5 2 1 12 ?s = Some mo"
    using digit_field_pad [of "pad_dec 4 y @ ''-''" 5 mo 2 1 12] assms(2) by (simp add: civil_text_def)
  moreover have "digit_field 8 2 1 (month_length y mo) ?s = Some d"
    using digit_field_pad [of "pad_dec 4 y @ ''-'' @ pad_dec 2 mo @ ''-''" 8 d 2 1 "month_length y mo"] assms(3)
      month_length_bound [of y mo] by (simp add: civil_text_def)
  moreover have "digit_field 11 2 0 23 ?s = Some h"
    using digit_field_pad [of "pad_dec 4 y @ ''-'' @ pad_dec 2 mo @ ''-'' @ pad_dec 2 d @ ''T''" 11 h 2 0 23] assms(4)
    by (simp add: civil_text_def)
  moreover have "digit_field 14 2 0 59 ?s = Some mi"
    using digit_field_pad [of "pad_dec 4 y @ ''-'' @ pad_dec 2 mo @ ''-'' @ pad_dec 2 d @ ''T'' @ pad_dec 2 h @ '':''"
        14 mi 2 0 59] assms(5) by (simp add: civil_text_def)
  moreover have "digit_field 17 2 0 59 ?s = Some sec"
    using digit_field_pad [of "pad_dec 4 y @ ''-'' @ pad_dec 2 mo @ ''-'' @ pad_dec 2 d @ ''T'' @ pad_dec 2 h @ '':''
        @ pad_dec 2 mi @ '':''" 17 sec 2 0 59] assms(6) by (simp add: civil_text_def)
  moreover have "?s ! 4 = CHR ''-''" "?s ! 7 = CHR ''-''" "?s ! 10 = CHR ''T''" "?s ! 13 = CHR '':''" "?s ! 16 = CHR '':''"
    by (simp_all add: civil_text_def nth_append)
  moreover have "19 \<le> length ?s" by (simp add: civil_text_def)
  ultimately show ?thesis by (simp add: parse_civil_def)
qed

lemma dec_val_zeros: "dec_val (xs @ replicate k CHR ''0'') = dec_val xs * 10 ^ k"
proof (induction k)
  case (Suc k)
  have "dec_val (xs @ replicate (Suc k) CHR ''0'') = dec_val ((xs @ replicate k CHR ''0'') @ [CHR ''0''])"
    by (simp add: replicate_append_same)
  with Suc show ?case by (simp add: dec_val_snoc digit_val_def del: append_assoc)
qed simp

lemma trim_zeros:
  obtains k where "s = rev (dropWhile (\<lambda>c. c = CHR ''0'') (rev s)) @ replicate k CHR ''0''"
proof -
  have "takeWhile (\<lambda>c. c = CHR ''0'') (rev s) = replicate (length (takeWhile (\<lambda>c. c = CHR ''0'') (rev s))) CHR ''0''"
    by (rule replicate_eqI) (auto dest: set_takeWhileD)
  with that show thesis
    by (metis rev_append rev_replicate rev_rev_ident takeWhile_dropWhile_id)
qed

lemma parse_fraction_text:
  assumes "ns < 10 ^ 9"
  shows "parse_fraction (fraction_text ns @ ''Z'') = (ns, ''Z'')"
proof (cases "ns = 0")
  case True
  then show ?thesis by (simp add: fraction_text_def parse_fraction_def)
next
  case False
  define ds where "ds = rev (dropWhile (\<lambda>c. c = CHR ''0'') (rev (pad_dec 9 ns)))"
  obtain k where k: "pad_dec 9 ns = ds @ replicate k CHR ''0''" using trim_zeros [of "pad_dec 9 ns"] ds_def by metis
  then have len: "length ds + k = 9" by (metis length_append length_replicate pad_dec_props(1))
  have dig: "list_all is_digit ds" using pad_dec_props(2) [of 9 ns] by (simp add: k)
  have val: "dec_val ds * 10 ^ k = ns" using dec_val_pad [OF assms] by (simp add: k dec_val_zeros)
  with False have "ds \<noteq> []" by (auto simp: dec_val_def)
  then obtain d ds' where d: "ds = d # ds'" by (cases ds) auto
  have "\<not> is_digit CHR ''Z''" by (simp add: is_digit_def)
  with dig have "takeWhile is_digit (ds @ ''Z'') = ds"
    by (simp add: list_all_iff)
  moreover have "take 9 ds = ds" "9 - length ds = k" using len by auto
  ultimately show ?thesis using False dig val
    by (simp add: fraction_text_def parse_fraction_def flip: ds_def) (simp add: d)
qed

theorem parse_time_rfc3339:
  assumes "time_rfc3339 t = Some s"
  shows "parse_rfc3339 s = Some t"
proof -
  define sec day where "sec = t div 10 ^ 9" "day = sec div 86400 + int epoch_days"
  define r where "r = nat (sec mod 86400)"
  obtain y mo d where date: "days_date (nat day) = (y, mo, d)" by (cases "days_date (nat day)") auto
  have "time_rfc3339 t = (if day < 0 \<or> 10000 \<le> y then None
      else Some (civil_text y mo d (r div 3600) (r div 60 mod 60) (r mod 60) @ fraction_text (nat (t mod 10 ^ 9)) @ ''Z''))"
    using date by (simp add: time_rfc3339_def Let_def sec_day_def r_def civil_text_def)
  with assms have ok: "0 \<le> day" "y < 10000" and s: "s = civil_text y mo d (r div 3600) (r div 60 mod 60) (r mod 60)
      @ fraction_text (nat (t mod 10 ^ 9)) @ ''Z''"
    by (simp_all split: if_splits)
  note cal = days_date_correct [OF date]
  have r: "r < 86400" by (simp add: r_def)
  have hms: "r div 3600 * 3600 + r div 60 mod 60 * 60 + r mod 60 = r"
  proof -
    define q where "q = r div 60"
    have "q * 60 + r mod 60 = r" "q div 60 * 60 + q mod 60 = q" by (simp_all add: q_def)
    moreover have "r div 3600 = q div 60" by (simp add: q_def div_mult2_eq [symmetric])
    ultimately show ?thesis unfolding q_def [symmetric] by linarith
  qed
  have "civil_seconds y mo d (r div 3600) (r div 60 mod 60) (r mod 60) = (day - int epoch_days) * 86400 + int r"
    unfolding civil_seconds_def hms using cal(1) ok(1) by simp
  then have "civil_seconds y mo d (r div 3600) (r div 60 mod 60) (r mod 60) = sec"
    by (simp add: sec_day_def r_def)
  then have "parse_civil s = Some sec"
    using parse_civil_text [OF ok(2) cal(2,3), of "r div 3600" "r div 60 mod 60" "r mod 60"] r s by simp
  moreover have "drop 19 s = fraction_text (nat (t mod 10 ^ 9)) @ ''Z''" by (simp add: s civil_text_def)
  moreover have "nat (t mod 10 ^ 9) < 10 ^ 9" by simp
  moreover have "sec * 10 ^ 9 + t mod 10 ^ 9 = t" by (simp add: sec_day_def)
  ultimately show ?thesis
    by (simp add: parse_rfc3339_def parse_fraction_text parse_zone_def)
qed

end
