(* ===== verification/Go_Float.thy ===== *)
theory Go_Float
  imports Go_Strconv Go_StructTag
begin

text \<open>
  IEEE 754 binary floating point as far as liveconfig needs it: correctly rounded
  conversion of a ratio of naturals (round half to even), \<^verbatim>\<open>strconv.ParseFloat\<close>
  with 64 bits, the conversion \<^verbatim>\<open>float32(f)\<close>, and the multiplication, division and
  truncation \<^verbatim>\<open>time.ParseDuration\<close> applies to fractions.

  \<open>FFin neg m k\<close> is the number \<open>(-1)^neg * m * 2^k\<close>.
\<close>

datatype gofloat = FNaN | FInf bool | FFin bool nat int

subsection \<open>Rounding\<close>

fun bit_len :: "nat \<Rightarrow> nat" where
  "bit_len n = (if n = 0 then 0 else Suc (bit_len (n div 2)))"

declare bit_len.simps [simp del]

text \<open>\<open>scaled n d k\<close> is \<open>n / d / 2^k\<close> as a numerator and a denominator.\<close>

definition scaled :: "nat \<Rightarrow> nat \<Rightarrow> int \<Rightarrow> nat \<times> nat" where
  "scaled n d k = (if 0 \<le> k then (n, d * 2 ^ nat k) else (n * 2 ^ nat (- k), d))"

definition round_half_even :: "nat \<Rightarrow> nat \<Rightarrow> nat" where
  "round_half_even n d =
     (let q = n div d; r = n mod d in
      if d < 2 * r \<or> (2 * r = d \<and> odd q) then q + 1 else q)"

text \<open>The exponent of the last place for precision \<open>p\<close>, at least \<open>emin\<close>.\<close>

definition ulp_exp :: "nat \<Rightarrow> int \<Rightarrow> nat \<Rightarrow> nat \<Rightarrow> int" where
  "ulp_exp p emin n d =
     (let k = max emin (int (bit_len n) - int (bit_len d) - int p);
          (a, b) = scaled n d k
      in if 2 ^ p \<le> a div b then k + 1 else k)"

definition round_float :: "nat \<Rightarrow> int \<Rightarrow> int \<Rightarrow> bool \<Rightarrow> nat \<Rightarrow> nat \<Rightarrow> gofloat" where
  "round_float p emin kmax neg n d =
     (let k = ulp_exp p emin n d;
          (a, b) = scaled n d k;
          m = round_half_even a b
      in if m = 0 then FFin neg 0 0
         else let (m', k') = (if m = 2 ^ p then (2 ^ (p - 1), k + 1) else (m, k)) in
              if kmax < k' then FInf neg else FFin neg m' k')"

definition round64 :: "bool \<Rightarrow> nat \<Rightarrow> nat \<Rightarrow> gofloat" where
  "round64 = round_float 53 (- 1074) 971"

definition round32 :: "bool \<Rightarrow> nat \<Rightarrow> nat \<Rightarrow> gofloat" where
  "round32 = round_float 24 (- 149) 104"

text \<open>The magnitude of a finite number as a ratio.\<close>

definition fin_ratio :: "nat \<Rightarrow> int \<Rightarrow> nat \<times> nat" where
  "fin_ratio m k = (if 0 \<le> k then (m * 2 ^ nat k, 1) else (m, 2 ^ nat (- k)))"

fun to_float32 :: "gofloat \<Rightarrow> gofloat" where
  "to_float32 (FFin neg m k) = (let (n, d) = fin_ratio m k in round32 neg n d)"
| "to_float32 f = f"

lemma round_half_even_near:
  assumes "0 < d"
  shows "2 * n \<le> (2 * round_half_even n d + 1) * d"
    and "2 * round_half_even n d * d \<le> 2 * n + d"
proof -
  define q r where "q = n div d" and "r = n mod d"
  have "n = q * d + r" by (simp add: q_def r_def)
  then have n: "2 * n = 2 * (q * d) + 2 * r" by linarith
  have r: "r < d" using assms by (simp add: r_def)
  have up: "(2 * (q + 1) + 1) * d = 2 * (q * d) + 3 * d" "2 * (q + 1) * d = 2 * (q * d) + 2 * d"
    and down: "(2 * q + 1) * d = 2 * (q * d) + d" "2 * q * d = 2 * (q * d)"
    by (simp_all add: algebra_simps)
  have "2 * n \<le> (2 * round_half_even n d + 1) * d \<and> 2 * round_half_even n d * d \<le> 2 * n + d"
  proof (cases "d < 2 * r \<or> (2 * r = d \<and> odd q)")
    case True
    then have e: "round_half_even n d = q + 1" by (simp add: round_half_even_def Let_def q_def r_def)
    show ?thesis unfolding e up n using r True by linarith
  next
    case False
    then have e: "round_half_even n d = q" by (auto simp: round_half_even_def Let_def q_def r_def)
    show ?thesis unfolding e down n using r False by linarith
  qed
  then show "2 * n \<le> (2 * round_half_even n d + 1) * d"
    and "2 * round_half_even n d * d \<le> 2 * n + d" by auto
qed

lemma round_half_even_exact: "0 < d \<Longrightarrow> round_half_even (q * d) d = q"
  by (simp add: round_half_even_def)

subsection \<open>ParseFloat\<close>

definition lower_is :: "char \<Rightarrow> char \<Rightarrow> bool" where
  "lower_is x c \<longleftrightarrow> to_lower_char c = x"

record digits_acc =
  mant :: nat
  frac :: nat
  saw_dot :: bool
  saw_digits :: bool

text \<open>The mantissa loop of \<^verbatim>\<open>readFloat\<close>: it returns at the first byte it does not take.\<close>

fun float_digits :: "bool \<Rightarrow> digits_acc \<Rightarrow> string \<Rightarrow> digits_acc \<times> string" where
  "float_digits hex a [] = (a, [])"
| "float_digits hex a (c # s) =
     (if c = CHR ''_'' then float_digits hex a s
      else if c = CHR ''.'' then
        (if saw_dot a then (a, c # s) else float_digits hex (a\<lparr>saw_dot := True\<rparr>) s)
      else (case hex_val c of
              None \<Rightarrow> (a, c # s)
            | Some v \<Rightarrow>
                if is_digit c \<or> hex then
                  float_digits hex
                    (a\<lparr>mant := (if hex then 16 else 10) * mant a + v,
                       frac := (if saw_dot a then frac a + 1 else frac a),
                       saw_digits := True\<rparr>) s
                else (a, c # s)))"

fun exp_digits :: "nat \<Rightarrow> string \<Rightarrow> nat \<times> string" where
  "exp_digits e [] = (e, [])"
| "exp_digits e (c # s) =
     (if c = CHR ''_'' then exp_digits e s
      else if is_digit c then
        exp_digits (if e < 10000 then e * 10 + digit_val c else e) s
      else (e, c # s))"

text \<open>The exponent part: \<open>None\<close> where it is malformed or, in hexadecimal, missing.\<close>

definition float_exp :: "bool \<Rightarrow> string \<Rightarrow> (int \<times> string) option" where
  "float_exp hex s =
     (case s of
        c # r \<Rightarrow>
          if lower_is (if hex then CHR ''p'' else CHR ''e'') c then
            (let neg = (r \<noteq> [] \<and> hd r = CHR ''-'');
                 body = (if r \<noteq> [] \<and> (hd r = CHR ''-'' \<or> hd r = CHR ''+'') then tl r else r)
             in if body = [] \<or> \<not> is_digit (hd body) then None
                else let (e, rest) = exp_digits 0 body in
                     Some (if neg then - int e else int e, rest))
          else if hex then None else Some (0, s)
      | [] \<Rightarrow> if hex then None else Some (0, s))"

text \<open>\<^verbatim>\<open>underscoreOK\<close>: underscores stand between digits, or after the base prefix.\<close>

datatype saw = SawStart | SawDigit | SawUnderscore | SawOther

fun underscores_ok :: "bool \<Rightarrow> saw \<Rightarrow> string \<Rightarrow> bool" where
  "underscores_ok hex w [] = (w \<noteq> SawUnderscore)"
| "underscores_ok hex w (c # s) =
     (if is_digit c \<or> (hex \<and> hex_val c \<noteq> None) then underscores_ok hex SawDigit s
      else if c = CHR ''_'' then (w = SawDigit \<and> underscores_ok hex SawUnderscore s)
      else (w \<noteq> SawUnderscore \<and> underscores_ok hex SawOther s))"

definition strip_sign :: "string \<Rightarrow> bool \<times> string" where
  "strip_sign s =
     (case s of
        c # r \<Rightarrow> if c = CHR ''-'' then (True, r) else if c = CHR ''+'' then (False, r) else (False, s)
      | [] \<Rightarrow> (False, s))"

definition hex_prefix :: "string \<Rightarrow> bool" where
  "hex_prefix s \<longleftrightarrow> 2 < length s \<and> hd s = CHR ''0'' \<and> lower_is CHR ''x'' (s ! 1)"

text \<open>The finite number a literal denotes: sign, and magnitude as a ratio.\<close>

definition read_float :: "string \<Rightarrow> (bool \<times> nat \<times> nat) option" where
  "read_float s0 =
     (let (neg, s) = strip_sign s0;
          hex = hex_prefix s;
          body = (if hex then drop 2 s else s);
          (a, r) = float_digits hex \<lparr>mant = 0, frac = 0, saw_dot = False, saw_digits = False\<rparr> body
      in if \<not> saw_digits a then None
         else (case float_exp hex r of
                 None \<Rightarrow> None
               | Some (e, rest) \<Rightarrow>
                   if rest \<noteq> [] then None
                   else if CHR ''_'' \<in> set s
                           \<and> \<not> underscores_ok hex (if hex then SawDigit else SawStart) body
                   then None
                   else let x = e - int (if hex then 4 * frac a else frac a);
                            b = (if hex then 2 else 10 :: nat)
                        in Some (neg, if 0 \<le> x then (mant a * b ^ nat x, 1)
                                      else (mant a, b ^ nat (- x)))))"

definition special_float :: "string \<Rightarrow> gofloat option" where
  "special_float s =
     (let (neg, r) = strip_sign s; l = to_lower r in
      if l = ''inf'' \<or> l = ''infinity'' then Some (FInf neg)
      else if to_lower s = ''nan'' then Some FNaN else None)"

definition parse_float64 :: "string \<Rightarrow> gofloat option" where
  "parse_float64 s =
     (case special_float s of
        Some f \<Rightarrow> Some f
      | None \<Rightarrow>
          (case read_float s of
             None \<Rightarrow> None
           | Some (neg, n, d) \<Rightarrow>
               (case round64 neg n d of FInf _ \<Rightarrow> None | f \<Rightarrow> Some f)))"

subsection \<open>The arithmetic of ParseDuration\<close>

text \<open>Multiplication and division of non-negative finite numbers, and truncation to \<open>uint64\<close>.\<close>

definition fmag :: "gofloat \<Rightarrow> nat \<times> nat" where
  "fmag f = (case f of FFin _ m k \<Rightarrow> fin_ratio m k | _ \<Rightarrow> (0, 1))"

definition fdiv64 :: "gofloat \<Rightarrow> gofloat \<Rightarrow> gofloat" where
  "fdiv64 x y = (let (a, b) = fmag x; (c, d) = fmag y in round64 False (a * d) (b * c))"

definition fmul64 :: "gofloat \<Rightarrow> gofloat \<Rightarrow> gofloat" where
  "fmul64 x y = (let (a, b) = fmag x; (c, d) = fmag y in round64 False (a * c) (b * d))"

definition ftrunc :: "gofloat \<Rightarrow> nat" where
  "ftrunc x = (let (a, b) = fmag x in a div b)"

definition float_of_nat :: "nat \<Rightarrow> gofloat" where
  "float_of_nat n = round64 False n 1"

end
