(* ===== verification/Go_Duration.thy ===== *)
theory Go_Duration
  imports Go_Float
begin

text \<open>
  \<^verbatim>\<open>time.ParseDuration\<close>. The running total is a \<open>uint64\<close>, kept here as a natural
  number with the wrap-around of its addition written out; the result is an
  \<open>int64\<close> number of nanoseconds.
\<close>

definition max63 :: nat where
  "max63 = 2 ^ 63"

text \<open>\<^verbatim>\<open>leadingInt\<close>: \<open>None\<close> on overflow past \<open>2^63\<close>.\<close>

fun leading_int :: "nat \<Rightarrow> string \<Rightarrow> (nat \<times> string) option" where
  "leading_int x [] = Some (x, [])"
| "leading_int x (c # s) =
     (if \<not> is_digit c then Some (x, c # s)
      else if max63 div 10 < x then None
      else let y = x * 10 + digit_val c in
           if max63 < y then None else leading_int y s)"

text \<open>
  \<^verbatim>\<open>leadingFraction\<close>: the digits as an integer and the power of ten they are scaled
  by; digits past the range are read and ignored.
\<close>

fun leading_fraction :: "nat \<Rightarrow> nat \<Rightarrow> bool \<Rightarrow> string \<Rightarrow> nat \<times> nat \<times> string" where
  "leading_fraction x scale over [] = (x, scale, [])"
| "leading_fraction x scale over (c # s) =
     (if \<not> is_digit c then (x, scale, c # s)
      else if over then leading_fraction x scale True s
      else if (max63 - 1) div 10 < x then leading_fraction x scale True s
      else let y = x * 10 + digit_val c in
           if max63 < y then leading_fraction x scale True s
           else leading_fraction y (scale * 10) False s)"

text \<open>The micro sign U+00B5 and the Greek mu U+03BC are two bytes each.\<close>

definition unit_ns :: "string \<Rightarrow> nat option" where
  "unit_ns u =
     (if u = ''ns'' then Some 1
      else if u = ''us'' \<or> u = [CHR 0xC2, CHR 0xB5, CHR ''s''] \<or> u = [CHR 0xCE, CHR 0xBC, CHR ''s'']
        then Some 1000
      else if u = ''ms'' then Some 1000000
      else if u = ''s'' then Some 1000000000
      else if u = ''m'' then Some 60000000000
      else if u = ''h'' then Some 3600000000000
      else None)"

definition unit_char :: "char \<Rightarrow> bool" where
  "unit_char c \<longleftrightarrow> c \<noteq> CHR ''.'' \<and> \<not> is_digit c"

text \<open>One number with its unit: its nanoseconds and the rest of the text.\<close>

definition duration_part :: "string \<Rightarrow> (nat \<times> string) option" where
  "duration_part s =
     (if s = [] \<or> \<not> (hd s = CHR ''.'' \<or> is_digit (hd s)) then None
      else (case leading_int 0 s of
        None \<Rightarrow> None
      | Some (v, s1) \<Rightarrow>
          let pre = (length s1 \<noteq> length s);
              dot = (s1 \<noteq> [] \<and> hd s1 = CHR ''.'');
              (f, scale, s2) = (if dot then leading_fraction 0 1 False (tl s1) else (0, 1, s1));
              post = (dot \<and> length s2 \<noteq> length (tl s1))
          in if \<not> pre \<and> \<not> post then None
             else let u = takeWhile unit_char s2; s3 = dropWhile unit_char s2 in
                  if u = [] then None
                  else (case unit_ns u of
                    None \<Rightarrow> None
                  | Some un \<Rightarrow>
                      if max63 div un < v then None
                      else let w = v * un;
                               w' = (if 0 < f then
                                       (w + ftrunc (fmul64 (float_of_nat f)
                                          (fdiv64 (float_of_nat un) (float_of_nat scale)))) mod 2 ^ 64
                                     else w)
                           in if 0 < f \<and> max63 < w' then None else Some (w', s3))))"

lemma leading_int_length: "leading_int x s = Some (v, r) \<Longrightarrow> length r \<le> length s"
  by (induction x s rule: leading_int.induct) (auto simp: Let_def split: if_splits)

lemma leading_fraction_length: "leading_fraction x k b s = (f, m, r) \<Longrightarrow> length r \<le> length s"
  by (induction x k b s rule: leading_fraction.induct) (auto simp: Let_def split: if_splits)

lemma duration_part_length: "duration_part s = Some (w, r) \<Longrightarrow> length r < length s"
proof -
  assume a: "duration_part s = Some (w, r)"
  obtain v s1 where l: "leading_int 0 s = Some (v, s1)"
    using a by (auto simp: duration_part_def split: if_splits option.splits)
  let ?dot = "s1 \<noteq> [] \<and> hd s1 = CHR ''.''"
  obtain f scale s2 where f: "(if ?dot then leading_fraction 0 1 False (tl s1) else (0, 1, s1)) = (f, scale, s2)"
    by (metis prod_cases3)
  have "length s2 \<le> length s1"
    using f leading_fraction_length [of 0 1 False "tl s1" f scale s2] by (auto split: if_splits)
  moreover have "length s1 \<le> length s" using l by (rule leading_int_length)
  moreover have "takeWhile unit_char s2 \<noteq> []" and "r = dropWhile unit_char s2"
    using a l f by (auto simp: duration_part_def Let_def split: if_splits option.splits)
  then have "length r < length s2"
    by (metis add.commute length_append length_greater_0_conv less_add_same_cancel1
        takeWhile_dropWhile_id add_less_cancel_right add_0)
  ultimately show ?thesis by simp
qed

function duration_loop :: "nat \<Rightarrow> string \<Rightarrow> nat option" where
  "duration_loop d s =
     (if s = [] then Some d
      else (case duration_part s of
              None \<Rightarrow> None
            | Some (v, r) \<Rightarrow>
                let d' = (d + v) mod 2 ^ 64 in
                if max63 < d' then None else duration_loop d' r))"
  by pat_completeness auto
termination
  by (relation "measure (\<lambda>(d, s). length s)") (auto dest: duration_part_length)

declare duration_loop.simps [simp del]

definition parse_duration :: "string \<Rightarrow> int option" where
  "parse_duration s0 =
     (let (neg, s) = strip_sign s0 in
      if s = ''0'' then Some 0
      else if s = [] then None
      else (case duration_loop 0 s of
              None \<Rightarrow> None
            | Some d \<Rightarrow>
                if neg then Some (- int d)
                else if max63 - 1 < d then None else Some (int d)))"

lemma duration_loop_bound: "duration_loop d s = Some r \<Longrightarrow> d \<le> max63 \<Longrightarrow> r \<le> max63"
proof (induction d s arbitrary: r rule: duration_loop.induct)
  case (1 d s)
  show ?case
  proof (cases "s = []")
    case True
    with 1(2,3) show ?thesis by (simp add: duration_loop.simps)
  next
    case False
    with 1(2) obtain v t where p: "duration_part s = Some (v, t)"
      and le: "(d + v) mod 2 ^ 64 \<le> max63"
      and l: "duration_loop ((d + v) mod 2 ^ 64) t = Some r"
      by (auto simp: duration_loop.simps [of d s] Let_def split: option.splits if_splits)
    from 1(1) [OF False p refl refl] le l show ?thesis by auto
  qed
qed

lemma parse_duration_range: "parse_duration s = Some i \<Longrightarrow> - (2 ^ 63) \<le> i \<and> i < 2 ^ 63"
  using duration_loop_bound [of 0 "snd (strip_sign s)"]
  by (auto simp: parse_duration_def max63_def Let_def split: prod.splits if_splits option.splits)

text \<open>Round trip for whole numbers of a unit.\<close>

lemma leading_int_digits:
  assumes "list_all is_digit ds" "10 ^ length ds * x + dec_val ds \<le> max63"
    and "rest = [] \<or> \<not> is_digit (hd rest)"
  shows "leading_int x (ds @ rest) = Some (10 ^ length ds * x + dec_val ds, rest)"
  using assms(1,2)
proof (induction ds arbitrary: x)
  case Nil
  then show ?case using assms(3) by (cases rest) (auto simp: dec_val_def)
next
  case (Cons c ds)
  have dv: "dec_val (c # ds) = digit_val c * 10 ^ length ds + dec_val ds"
  proof -
    have "foldl (\<lambda>n c. 10 * n + digit_val c) a ds = a * 10 ^ length ds + dec_val ds" for a
      by (induction ds rule: rev_induct) (auto simp: dec_val_def algebra_simps)
    from this [of "digit_val c"] show ?thesis by (simp add: dec_val_def)
  qed
  have e: "10 ^ length (c # ds) * x + dec_val (c # ds) = 10 ^ length ds * (x * 10 + digit_val c) + dec_val ds"
    by (simp add: dv algebra_simps)
  have "x * 10 + digit_val c \<le> 10 ^ length ds * (x * 10 + digit_val c)" by simp
  then have y: "x * 10 + digit_val c \<le> max63" using Cons.prems(2) unfolding e by linarith
  then have "x \<le> max63 div 10" by simp
  moreover have "leading_int (x * 10 + digit_val c) (ds @ rest)
      = Some (10 ^ length ds * (x * 10 + digit_val c) + dec_val ds, rest)"
    using Cons.prems unfolding e by (intro Cons.IH) auto
  ultimately show ?case using Cons.prems(1) y unfolding e by (simp add: Let_def)
qed

lemma duration_loop_unit:
  assumes "unit_ns u = Some k" "u \<noteq> []" "list_all unit_char u" "n * k \<le> max63"
  shows "duration_loop 0 (show_nat n @ u) = Some (n * k)"
proof -
  have k: "0 < k" using assms(1) by (auto simp: unit_ns_def split: if_splits)
  have "n \<le> n * k" using k by (cases k) simp_all
  also note assms(4)
  finally have n: "n \<le> max63" .
  have d: "show_nat n \<noteq> []" "list_all is_digit (show_nat n)" "dec_val (show_nat n) = n"
    using show_nat_digits by auto
  obtain c cs where cs: "show_nat n = c # cs" using d(1) by (cases "show_nat n") auto
  obtain a as where u: "u = a # as" using assms(2) by (cases u) auto
  have a: "\<not> is_digit a" "a \<noteq> CHR ''.''" using assms(3) u by (auto simp: unit_char_def)
  have c: "is_digit c" using d(2) cs by simp
  have "leading_int 0 (show_nat n @ u) = Some (n, u)"
    using leading_int_digits [of "show_nat n" 0 u] d n a u by simp
  moreover have "takeWhile unit_char u = u" "dropWhile unit_char u = []"
    using assms(3) by (auto simp: list_all_iff)
  moreover have "n \<le> max63 div k"
    using k assms(4) by (simp add: less_eq_div_iff_mult_less_eq)
  ultimately have p: "duration_part (show_nat n @ u) = Some (n * k, [])"
    using a c cs u assms(1) by (simp add: duration_part_def)
  have "n * k < 2 ^ 64" using assms(4) by (simp add: max63_def)
  with p assms(4) cs show ?thesis by (simp add: duration_loop.simps)
qed

text \<open>The text of a duration in nanoseconds parses back to it, the smallest one included.\<close>

lemma parse_duration_show:
  assumes "- (2 ^ 63) \<le> i" "i < 2 ^ 63"
  shows "parse_duration (show_int i @ ''ns'') = Some i"
proof -
  have ns: "unit_ns ''ns'' = Some 1" "list_all unit_char ''ns''"
    by (simp_all add: unit_ns_def unit_char_def is_digit_def)
  have l: "duration_loop 0 (show_nat n @ ''ns'') = Some n" if "n \<le> max63" for n
    using duration_loop_unit [OF ns(1) _ ns(2)] that by simp
  have n: "show_nat n \<noteq> []" "hd (show_nat n) \<noteq> CHR ''-''" "hd (show_nat n) \<noteq> CHR ''+''"
    "show_nat n @ ''ns'' \<noteq> ''0''" for n
    using show_nat_digits [of n] show_nat_hd [of n] by (auto simp: is_digit_def append_eq_Cons_conv)
  show ?thesis
  proof (cases "i < 0")
    case True
    then have "nat (- i) \<le> max63" using assms(1) by (simp add: max63_def nat_le_iff)
    from l [OF this] True n [of "nat (- i)"] show ?thesis
      by (simp add: parse_duration_def show_int_def strip_sign_def)
  next
    case False
    then have "nat i \<le> max63 - 1" using assms(2) by (simp add: max63_def nat_le_iff)
    moreover have "strip_sign (show_nat (nat i) @ ''ns'') = (False, show_nat (nat i) @ ''ns'')"
      using n [of "nat i"] by (cases "show_nat (nat i)") (simp_all add: strip_sign_def)
    ultimately show ?thesis using l [of "nat i"] False n [of "nat i"]
      by (simp add: parse_duration_def show_int_def)
  qed
qed

end
