(* ===== verification/Reflect_Model.thy ===== *)
theory Reflect_Model
  imports Go_Float
begin

text \<open>
  The part of Go's type system and of package \<^verbatim>\<open>reflect\<close> the catalog works on:
  types and struct fields, values with a heap for what pointers point to, addressable
  locations, and the operations \<open>Field\<close>, \<open>Elem\<close>, \<open>IsNil\<close>, \<open>New\<close> and \<open>Set\<close>.

  Types are finite trees, so a struct type that contains itself through a pointer is
  outside the model. \<open>int\<close> and \<open>uint\<close> are 64 bits wide.
\<close>

subsection \<open>Types\<close>

text \<open>
  \<open>TBasic n k\<close> is a predeclared or named type that prints as \<open>n\<close>; \<open>time.Duration\<close> and
  \<open>time.Time\<close> have constructors of their own because the code compares with them.
  \<open>TOther\<close> is any type of a kind the catalog does not look into (maps, arrays, channels,
  functions, interfaces, complex numbers).
\<close>

datatype bkind = KBool | KString | KInt nat | KUint nat | KFloat32 | KFloat64

datatype gtype =
    TBasic string bkind
  | TDuration
  | TTime
  | TSlice gtype
  | TPtr gtype
  | TStruct string "gfield list"
  | TOther string
and gfield = GField (sf_name: string) (sf_pkgpath: string) (sf_type: gtype) (sf_tag: string)

definition go_string :: gtype where
  "go_string = TBasic ''string'' KString"

definition is_exported :: "gfield \<Rightarrow> bool" where
  "is_exported f \<longleftrightarrow> sf_pkgpath f = []"

fun type_string :: "gtype \<Rightarrow> string" where
  "type_string (TBasic n k) = n"
| "type_string TDuration = ''time.Duration''"
| "type_string TTime = ''time.Time''"
| "type_string (TSlice t) = ''[]'' @ type_string t"
| "type_string (TPtr t) = ''*'' @ type_string t"
| "type_string (TStruct n fs) = n"
| "type_string (TOther n) = n"

definition kind_string :: "gtype \<Rightarrow> bool" where
  "kind_string t = (case t of TBasic _ KString \<Rightarrow> True | _ \<Rightarrow> False)"

definition kind_struct :: "gtype \<Rightarrow> bool" where
  "kind_struct t = (case t of TStruct _ _ \<Rightarrow> True | TTime \<Rightarrow> True | _ \<Rightarrow> False)"

text \<open>The fields a struct type exposes; those of \<open>time.Time\<close> are all unexported.\<close>

definition fields_of :: "gtype \<Rightarrow> gfield list" where
  "fields_of t = (case t of TStruct _ fs \<Rightarrow> fs | _ \<Rightarrow> [])"

text \<open>\<open>ft = ft.Elem()\<close> when \<open>ft\<close> is a pointer: one level only.\<close>

definition elem_once :: "gtype \<Rightarrow> gtype" where
  "elem_once t = (case t of TPtr u \<Rightarrow> u | _ \<Rightarrow> t)"

lemma kind_string_iff: "kind_string t \<longleftrightarrow> (\<exists>n. t = TBasic n KString)"
  by (auto simp: kind_string_def split: gtype.splits bkind.splits)

lemma fields_of_simps [simp]: "fields_of (TStruct n fs) = fs" "fields_of TTime = []"
  by (simp_all add: fields_of_def)

lemma elem_once_simps [simp]:
  "elem_once (TPtr t) = t" "elem_once (TStruct n fs) = TStruct n fs"
  "elem_once (TBasic n k) = TBasic n k" "elem_once TDuration = TDuration"
  "elem_once (TSlice t) = TSlice t" "elem_once TTime = TTime" "elem_once (TOther n) = TOther n"
  by (simp_all add: elem_once_def)

text \<open>Walking down the fields of a field's struct type makes the type smaller.\<close>

lemma size_fields_of:
  "size_list size (fields_of (elem_once (sf_type f))) < size_list size (f # fs)"
  by (cases f; cases "sf_type f"; cases "elem_once (sf_type f)")
     (auto simp: fields_of_def elem_once_def)

subsection \<open>Values and memory\<close>

text \<open>
  \<open>VStrs\<close> is a slice of strings (\<open>None\<close> for nil), \<open>VPtr\<close> a pointer (\<open>None\<close> for nil) to a
  cell of the heap, \<open>VOpaque\<close> a value the library copies without looking at it.
\<close>

datatype gval =
    VBool bool
  | VStr string
  | VInt int
  | VUint int
  | VFloat gofloat
  | VStrs "string list option"
  | VOpaque nat
  | VPtr "nat option"
  | VStruct "gval list"

text \<open>The zero value of a type, as \<^verbatim>\<open>reflect.New\<close> makes it.\<close>

fun zero_val :: "gtype \<Rightarrow> gval" and zero_fld :: "gfield \<Rightarrow> gval" where
  "zero_val (TBasic n k) =
     (case k of KBool \<Rightarrow> VBool False | KString \<Rightarrow> VStr [] | KInt w \<Rightarrow> VInt 0
      | KUint w \<Rightarrow> VUint 0 | KFloat32 \<Rightarrow> VFloat (FFin False 0 0) | KFloat64 \<Rightarrow> VFloat (FFin False 0 0))"
| "zero_val TDuration = VInt 0"
| "zero_val TTime = VOpaque 0"
| "zero_val (TSlice t) = (if kind_string t then VStrs None else VOpaque 0)"
| "zero_val (TPtr t) = VPtr None"
| "zero_val (TStruct n fs) = VStruct (map zero_fld fs)"
| "zero_val (TOther n) = VOpaque 0"
| "zero_fld (GField n p t g) = zero_val t"

text \<open>The variable \<open>result\<close> of \<open>applyOverrides\<close> and the heap.\<close>

record mem =
  root :: gval
  heap :: "gval list"

datatype place = Root | Cell nat

type_synonym loc = "place \<times> nat list"

fun get_path :: "gval \<Rightarrow> nat list \<Rightarrow> gval option" where
  "get_path v [] = Some v"
| "get_path (VStruct vs) (i # p) = (if i < length vs then get_path (vs ! i) p else None)"
| "get_path v (i # p) = None"

fun put_path :: "gval \<Rightarrow> nat list \<Rightarrow> gval \<Rightarrow> gval" where
  "put_path v [] x = x"
| "put_path (VStruct vs) (i # p) x =
     (if i < length vs then VStruct (vs[i := put_path (vs ! i) p x]) else VStruct vs)"
| "put_path v (i # p) x = v"

definition read_loc :: "mem \<Rightarrow> loc \<Rightarrow> gval option" where
  "read_loc m l =
     (case fst l of
        Root \<Rightarrow> get_path (root m) (snd l)
      | Cell a \<Rightarrow> if a < length (heap m) then get_path (heap m ! a) (snd l) else None)"

definition write_loc :: "mem \<Rightarrow> loc \<Rightarrow> gval \<Rightarrow> mem" where
  "write_loc m l x =
     (case fst l of
        Root \<Rightarrow> m\<lparr>root := put_path (root m) (snd l) x\<rparr>
      | Cell a \<Rightarrow> m\<lparr>heap := (heap m)[a := put_path (heap m ! a) (snd l) x]\<rparr>)"

lemma get_put_same: "get_path v p = Some w \<Longrightarrow> get_path (put_path v p x) p = Some x"
  by (induction v p x rule: put_path.induct) (auto split: if_splits)

lemma get_put_other:
  "\<not> (\<exists>r. q = p @ r) \<Longrightarrow> \<not> (\<exists>r. p = q @ r) \<Longrightarrow> get_path (put_path v p x) q = get_path v q"
proof (induction v p x arbitrary: q rule: put_path.induct)
  case (2 vs i p x)
  show ?case
  proof (cases q)
    case Nil
    with 2 show ?thesis by simp
  next
    case (Cons j r)
    with 2 show ?thesis by (cases "j = i") (auto split: if_splits)
  qed
qed auto

lemma get_path_append:
  "get_path v (p @ q) = (case get_path v p of None \<Rightarrow> None | Some w \<Rightarrow> get_path w q)"
  by (induction v p rule: get_path.induct) auto

subsection \<open>Reflect values\<close>

text \<open>
  An addressable \<^verbatim>\<open>reflect.Value\<close>: where it is, its type, and whether it was reached
  through an unexported field (then \<open>CanSet\<close> is false). A Go panic is a value of
  \<open>gpanic\<close>.
\<close>

datatype gpanic =
    PanicField gtype nat
  | PanicSet gtype gtype
  | PanicUnexported
  | PanicValue

record rval =
  rloc :: loc
  rtype :: gtype
  rro :: bool

definition new_cell :: "mem \<Rightarrow> gval \<Rightarrow> nat \<times> mem" where
  "new_cell m v = (length (heap m), m\<lparr>heap := heap m @ [v]\<rparr>)"

text \<open>\<open>v.Field(i)\<close>.\<close>

definition rfield :: "rval \<Rightarrow> nat \<Rightarrow> gpanic + rval" where
  "rfield v i =
     (case rtype v of
        TStruct n fs \<Rightarrow>
          if i < length fs then
            Inr \<lparr>rloc = (fst (rloc v), snd (rloc v) @ [i]), rtype = sf_type (fs ! i),
                 rro = (rro v \<or> \<not> is_exported (fs ! i))\<rparr>
          else Inl (PanicField (rtype v) i)
      | _ \<Rightarrow> Inl (PanicField (rtype v) i))"

text \<open>
  The dereference step of the navigation: a nil pointer is first set to a new zero
  value, then \<open>v = v.Elem()\<close>; other values are left alone.
\<close>

definition rderef :: "mem \<Rightarrow> rval \<Rightarrow> gpanic + (mem \<times> rval)" where
  "rderef m v =
     (case rtype v of
        TPtr t \<Rightarrow>
          (case read_loc m (rloc v) of
             Some (VPtr (Some a)) \<Rightarrow> Inr (m, \<lparr>rloc = (Cell a, []), rtype = t, rro = rro v\<rparr>)
           | Some (VPtr None) \<Rightarrow>
               if rro v then Inl PanicUnexported
               else (let (a, m') = new_cell m (zero_val t) in
                     Inr (write_loc m' (rloc v) (VPtr (Some a)),
                          \<lparr>rloc = (Cell a, []), rtype = t, rro = rro v\<rparr>))
           | _ \<Rightarrow> Inl PanicValue)
      | _ \<Rightarrow> Inr (m, v))"

text \<open>
  Assignability of a value of type \<open>vt\<close> to a variable of type \<open>ft\<close>, for the types
  \<open>parseFieldValue\<close> returns: identical types, or a \<open>[]string\<close> to a named slice type
  with the same underlying type (slice names are not kept in \<open>TSlice\<close>).
\<close>

definition assignable :: "gtype \<Rightarrow> gtype \<Rightarrow> bool" where
  "assignable vt ft \<longleftrightarrow> vt = ft"

definition rset :: "mem \<Rightarrow> rval \<Rightarrow> gval \<Rightarrow> gtype \<Rightarrow> gpanic + mem" where
  "rset m v x xt =
     (if rro v then Inl PanicUnexported
      else if assignable xt (rtype v) then Inr (write_loc m (rloc v) x)
      else Inl (PanicSet xt (rtype v)))"

end
