(* ===== verification/Catalog.thy ===== *)
theory Catalog
  imports Reflect_Model
begin

text \<open>
  Catalog construction (\<^verbatim>\<open>catalog.go\<close>): the struct walk that turns the tags of a
  config type into field descriptors, with its fail-fast errors, and a declarative
  account of the fields it manages and of the ones it rejects.
\<close>

subsection \<open>Data\<close>

datatype reload_strategy = ReloadStrategyLive | ReloadStrategyRecreate | ReloadStrategyRestart

record field_descriptor =
  fd_key :: string
  fd_description :: string
  fd_type_name :: string
  fd_strategy :: reload_strategy
  fd_indices :: "nat list"
  fd_type :: gtype

datatype catalog_error =
    NotStructNil
  | NotStructPointer gtype
  | NotStructKind gtype
  | UnknownDyn string string
  | UnsupportedLeaf string string gtype

definition valid_dyn_values :: "string list" where
  "valid_dyn_values =
     [''live'', ''recreate-on-change'', ''restart-required'', ''bootstrap'', ''secret'']"

subsection \<open>Tags, keys and types of a field\<close>

definition parse_dyn_tag :: "string \<Rightarrow> reload_strategy option" where
  "parse_dyn_tag raw =
     (if raw = ''live'' then Some ReloadStrategyLive
      else if raw = ''recreate-on-change'' then Some ReloadStrategyRecreate
      else if raw = ''restart-required'' then Some ReloadStrategyRestart
      else None)"

definition is_supported_leaf_type :: "gtype \<Rightarrow> bool" where
  "is_supported_leaf_type t =
     (if t = TDuration then True
      else (case t of
              TBasic _ k \<Rightarrow> True
            | TSlice e \<Rightarrow> kind_string e
            | _ \<Rightarrow> False))"

definition json_key_name :: "gfield \<Rightarrow> string" where
  "json_key_name sf =
     (let tag = tag_get (sf_tag sf) ''json'' in
      if tag = [] then to_lower (sf_name sf)
      else let name = cut_before CHR '','' tag in
           if name = [] then to_lower (sf_name sf) else name)"

fun go_type_name :: "gtype \<Rightarrow> string" where
  "go_type_name TDuration = ''time.Duration''"
| "go_type_name TTime = ''time.Time''"
| "go_type_name (TSlice e) = ''[]'' @ go_type_name e"
| "go_type_name t = type_string t"

text \<open>The strings \<open>walkStruct\<close> computes for a field.\<close>

definition dyn_raw :: "gfield \<Rightarrow> string" where
  "dyn_raw sf = trim_space (tag_get (sf_tag sf) ''dyn'')"

definition full_key :: "string \<Rightarrow> string \<Rightarrow> string" where
  "full_key prefix part = (if prefix \<noteq> [] then prefix @ CHR ''.'' # part else part)"

definition nested_struct :: "gtype \<Rightarrow> bool" where
  "nested_struct ft \<longleftrightarrow> kind_struct ft \<and> ft \<noteq> TTime"

definition mk_descriptor :: "string \<Rightarrow> nat list \<Rightarrow> gfield \<Rightarrow> reload_strategy \<Rightarrow> field_descriptor" where
  "mk_descriptor key idx sf strategy =
     (let ft = elem_once (sf_type sf) in
      \<lparr>fd_key = key,
       fd_description = trim_space (tag_get (sf_tag sf) ''desc''),
       fd_type_name = go_type_name ft,
       fd_strategy = strategy,
       fd_indices = idx,
       fd_type = ft\<rparr>)"

subsection \<open>The walk\<close>

text \<open>
  \<open>walk_fields indices prefix i fs out\<close> is the loop of \<open>walkStruct\<close> from field number
  \<open>i\<close> on, \<open>fs\<close> being the fields from there and \<open>out\<close> the descriptors appended so far.
\<close>

function walk_fields ::
  "nat list \<Rightarrow> string \<Rightarrow> nat \<Rightarrow> gfield list \<Rightarrow> field_descriptor list
     \<Rightarrow> catalog_error + field_descriptor list" where
  "walk_fields indices prefix i [] out = Inr out"
| "walk_fields indices prefix i (sf # fs) out =
     (if \<not> is_exported sf then walk_fields indices prefix (Suc i) fs out
      else
       (let ft = elem_once (sf_type sf);
            key_part = json_key_name sf
        in if key_part = ''-'' then walk_fields indices prefix (Suc i) fs out
           else
            (let key = full_key prefix key_part;
                 idx_path = indices @ [i];
                 raw = dyn_raw sf
             in if raw \<noteq> [] \<and> raw \<notin> set valid_dyn_values then Inl (UnknownDyn key raw)
                else if nested_struct ft then
                  (if raw = ''secret'' then walk_fields indices prefix (Suc i) fs out
                   else (case walk_fields idx_path key 0 (fields_of ft) out of
                           Inl e \<Rightarrow> Inl e
                         | Inr out' \<Rightarrow> walk_fields indices prefix (Suc i) fs out'))
                else
                  (case parse_dyn_tag raw of
                     None \<Rightarrow> walk_fields indices prefix (Suc i) fs out
                   | Some strategy \<Rightarrow>
                       if \<not> is_supported_leaf_type ft then Inl (UnsupportedLeaf key raw ft)
                       else walk_fields indices prefix (Suc i) fs
                              (out @ [mk_descriptor key idx_path sf strategy])))))"
  by pat_completeness auto
termination
  by (relation "measure (\<lambda>(_, _, _, fs, _). size_list size fs)")
     (auto intro: size_fields_of [THEN order.strict_trans2])

definition walk_struct ::
  "gtype \<Rightarrow> nat list \<Rightarrow> string \<Rightarrow> field_descriptor list \<Rightarrow> catalog_error + field_descriptor list" where
  "walk_struct t indices prefix out = walk_fields indices prefix 0 (fields_of t) out"

text \<open>\<open>buildCatalog\<close>; the argument is \<open>None\<close> when \<open>reflect.TypeOf\<close> gives nil (an interface).\<close>

definition build_catalog :: "gtype option \<Rightarrow> catalog_error + field_descriptor list" where
  "build_catalog ot =
     (case ot of
        None \<Rightarrow> Inl NotStructNil
      | Some t \<Rightarrow>
          (case t of
             TPtr u \<Rightarrow> Inl (NotStructPointer t)
           | _ \<Rightarrow> if \<not> kind_struct t then Inl (NotStructKind t)
                  else walk_struct t [] [] []))"

subsection \<open>What the walk computes\<close>

text \<open>
  The walk again, without its errors: \<open>field_descs\<close> is what one field contributes,
  \<open>descs\<close> what a list of fields contributes.
\<close>

definition visible :: "gfield \<Rightarrow> bool" where
  "visible f \<longleftrightarrow> is_exported f \<and> json_key_name f \<noteq> ''-''"

definition nested :: "gfield \<Rightarrow> bool" where
  "nested f \<longleftrightarrow> nested_struct (elem_once (sf_type f))"

definition sub_fields :: "gfield \<Rightarrow> gfield list" where
  "sub_fields f = fields_of (elem_once (sf_type f))"

definition descends :: "gfield \<Rightarrow> bool" where
  "descends f \<longleftrightarrow> nested f \<and> dyn_raw f \<noteq> ''secret''"

function descs :: "nat list \<Rightarrow> string \<Rightarrow> nat \<Rightarrow> gfield list \<Rightarrow> field_descriptor list" where
  "descs indices prefix i [] = []"
| "descs indices prefix i (f # fs) =
     (if \<not> visible f then []
      else if nested f then
        (if descends f
         then descs (indices @ [i]) (full_key prefix (json_key_name f)) 0 (sub_fields f) else [])
      else (case parse_dyn_tag (dyn_raw f) of
              None \<Rightarrow> []
            | Some st \<Rightarrow> [mk_descriptor (full_key prefix (json_key_name f)) (indices @ [i]) f st]))
     @ descs indices prefix (Suc i) fs"
  by pat_completeness auto
termination
  by (relation "measure (\<lambda>(_, _, _, fs). size_list size fs)")
     (auto simp: sub_fields_def intro: size_fields_of [THEN order.strict_trans2])

text \<open>The fields that make the walk fail.\<close>

inductive rejected :: "gfield list \<Rightarrow> bool" where
  bad_dyn: "f \<in> set fs \<Longrightarrow> visible f \<Longrightarrow> dyn_raw f \<noteq> [] \<Longrightarrow> dyn_raw f \<notin> set valid_dyn_values
     \<Longrightarrow> rejected fs"
| bad_leaf: "f \<in> set fs \<Longrightarrow> visible f \<Longrightarrow> \<not> nested f \<Longrightarrow> parse_dyn_tag (dyn_raw f) \<noteq> None
     \<Longrightarrow> \<not> is_supported_leaf_type (elem_once (sf_type f)) \<Longrightarrow> rejected fs"
| bad_sub: "f \<in> set fs \<Longrightarrow> visible f \<Longrightarrow> descends f \<Longrightarrow> rejected (sub_fields f) \<Longrightarrow> rejected fs"

inductive_simps rejected_iff: "rejected fs"

lemma rejected_Nil [simp]: "\<not> rejected []"
  by (auto elim: rejected.cases)

definition field_rejected :: "gfield \<Rightarrow> bool" where
  "field_rejected f \<longleftrightarrow> rejected [f]"

lemma rejected_Cons: "rejected (f # fs) \<longleftrightarrow> field_rejected f \<or> rejected fs"
  unfolding field_rejected_def rejected_iff [of "f # fs"] rejected_iff [of fs] rejected_iff [of "[f]"]
  by auto

lemma field_rejected_iff:
  "field_rejected f \<longleftrightarrow> visible f \<and>
     ((dyn_raw f \<noteq> [] \<and> dyn_raw f \<notin> set valid_dyn_values)
      \<or> (\<not> nested f \<and> parse_dyn_tag (dyn_raw f) \<noteq> None
           \<and> \<not> is_supported_leaf_type (elem_once (sf_type f)))
      \<or> (descends f \<and> rejected (sub_fields f)))"
  unfolding field_rejected_def rejected_iff [of "[f]"] by auto

lemmas walk_defs = visible_def nested_def sub_fields_def descends_def

text \<open>Induction along the walk: a field list follows from its tail and from the sub-fields.\<close>

lemma fields_induct [case_names Nil Cons]:
  assumes "P []" "\<And>f fs. P (sub_fields f) \<Longrightarrow> P fs \<Longrightarrow> P (f # fs)"
  shows "P fs"
proof (induction "size_list size fs" arbitrary: fs rule: less_induct)
  case less
  show ?case
  proof (cases fs)
    case Nil
    with assms(1) show ?thesis by simp
  next
    case (Cons f gs)
    then have "size_list size (sub_fields f) < size_list size fs" "size_list size gs < size_list size fs"
      using size_fields_of [of f gs] by (simp_all add: sub_fields_def)
    with Cons less assms(2) show ?thesis by blast
  qed
qed

text \<open>One round of the loop.\<close>

definition walk_field ::
  "nat list \<Rightarrow> string \<Rightarrow> nat \<Rightarrow> gfield \<Rightarrow> field_descriptor list
     \<Rightarrow> catalog_error + field_descriptor list" where
  "walk_field indices prefix i f out =
     (let key = full_key prefix (json_key_name f); raw = dyn_raw f in
      if \<not> visible f then Inr out
      else if raw \<noteq> [] \<and> raw \<notin> set valid_dyn_values then Inl (UnknownDyn key raw)
      else if nested f then
        (if descends f then walk_fields (indices @ [i]) key 0 (sub_fields f) out else Inr out)
      else (case parse_dyn_tag raw of
              None \<Rightarrow> Inr out
            | Some st \<Rightarrow>
                if \<not> is_supported_leaf_type (elem_once (sf_type f))
                then Inl (UnsupportedLeaf key raw (elem_once (sf_type f)))
                else Inr (out @ [mk_descriptor key (indices @ [i]) f st])))"

lemma walk_fields_Cons:
  "walk_fields indices prefix i (f # fs) out =
     bind_res (walk_field indices prefix i f out) (walk_fields indices prefix (Suc i) fs)"
proof (cases "visible f \<and> nested f \<and> descends f")
  case True
  then show ?thesis
    by (cases "walk_fields (indices @ [i]) (full_key prefix (json_key_name f)) 0
          (fields_of (elem_once (sf_type f))) out")
       (auto simp: walk_field_def walk_defs Let_def)
next
  case False
  then show ?thesis
    by (cases "parse_dyn_tag (dyn_raw f)") (auto simp: walk_field_def walk_defs Let_def)
qed

lemma walk_fields_result:
  "walk_fields indices prefix i fs out = Inr res \<Longrightarrow> res = out @ descs indices prefix i fs"
proof (induction fs arbitrary: indices prefix i out res rule: fields_induct)
  case Nil
  then show ?case by simp
next
  case (Cons f fs)
  from Cons.prems obtain out' where f: "walk_field indices prefix i f out = Inr out'"
    and fs: "walk_fields indices prefix (Suc i) fs out' = Inr res"
    by (auto simp: walk_fields_Cons bind_res_Inr_iff simp del: walk_fields.simps)
  from f have "out' = out @ descs indices prefix i [f]"
    by (auto simp: walk_field_def Let_def split: if_splits option.splits dest: Cons.IH(1))
  with Cons.IH(2) [OF fs] show ?case by simp
qed

lemma walk_fields_ok_iff: "is_ok (walk_fields indices prefix i fs out) \<longleftrightarrow> \<not> rejected fs"
proof (induction fs arbitrary: indices prefix i out rule: fields_induct)
  case Nil
  then show ?case by simp
next
  case (Cons f fs)
  have "is_ok (walk_field indices prefix i f out) \<longleftrightarrow> \<not> field_rejected f"
    using Cons.IH(1)
    by (auto simp: walk_field_def Let_def field_rejected_iff descends_def split: option.splits)
  then show ?case using Cons.IH(2)
    by (cases "walk_field indices prefix i f out")
       (auto simp: walk_fields_Cons rejected_Cons simp del: walk_fields.simps)
qed

end
