(* ===== verification/Catalog_Spec.thy ===== *)
theory Catalog_Spec
  imports Catalog
begin

text \<open>
  A declarative account of the catalog: a descriptor stands for a chain of fields from the
  root struct to a leaf. The lemmas relate the walk to it: which chains give a
  descriptor, that no two descriptors share a path, and that no path lies inside
  another.
\<close>

subsection \<open>Chains of fields\<close>

fun field_chain :: "gfield list \<Rightarrow> nat list \<Rightarrow> gfield list option" where
  "field_chain fs [] = Some []"
| "field_chain fs (i # p) =
     (if i < length fs
      then map_option (\<lambda>c. fs ! i # c) (field_chain (sub_fields (fs ! i)) p) else None)"

definition managed_chain :: "gfield list \<Rightarrow> bool" where
  "managed_chain c \<longleftrightarrow>
     c \<noteq> [] \<and> list_all visible c \<and> list_all descends (butlast c)
     \<and> \<not> nested (last c) \<and> parse_dyn_tag (dyn_raw (last c)) \<noteq> None"

definition chain_key :: "string \<Rightarrow> gfield list \<Rightarrow> string" where
  "chain_key prefix c = foldl (\<lambda>k f. full_key k (json_key_name f)) prefix c"

definition chain_descriptor :: "string \<Rightarrow> nat list \<Rightarrow> gfield list \<Rightarrow> field_descriptor" where
  "chain_descriptor prefix idx c =
     mk_descriptor (chain_key prefix c) idx (last c) (the (parse_dyn_tag (dyn_raw (last c))))"

lemma managed_chain_single:
  "managed_chain [f] \<longleftrightarrow> visible f \<and> \<not> nested f \<and> parse_dyn_tag (dyn_raw f) \<noteq> None"
  by (simp add: managed_chain_def)

lemma managed_chain_Cons:
  "c \<noteq> [] \<Longrightarrow> managed_chain (f # c) \<longleftrightarrow> visible f \<and> descends f \<and> managed_chain c"
  by (auto simp: managed_chain_def)

lemma field_chain_Nil: "field_chain fs p = Some c \<Longrightarrow> c = [] \<longleftrightarrow> p = []"
  by (cases p) (auto split: if_splits)

lemma length_field_chain: "field_chain fs p = Some c \<Longrightarrow> length c = length p"
  by (induction fs p arbitrary: c rule: field_chain.induct) (auto split: if_splits)

text \<open>What \<open>mk_descriptor\<close> records.\<close>

lemma fd_mk_descriptor [simp]:
  "fd_key (mk_descriptor k p f s) = k" "fd_indices (mk_descriptor k p f s) = p"
  "fd_strategy (mk_descriptor k p f s) = s" "fd_type (mk_descriptor k p f s) = elem_once (sf_type f)"
  by (simp_all add: mk_descriptor_def Let_def)

subsection \<open>The descriptors are the managed chains\<close>

definition head_descs :: "nat list \<Rightarrow> string \<Rightarrow> nat \<Rightarrow> gfield \<Rightarrow> field_descriptor list" where
  "head_descs indices prefix i f = descs indices prefix i [f]"

lemma descs_Cons:
  "descs indices prefix i (f # fs) = head_descs indices prefix i f @ descs indices prefix (Suc i) fs"
  by (simp add: head_descs_def)

text \<open>\<open>stands_for indices prefix f d i\<close>: \<open>d\<close> describes a managed chain that starts with field \<open>f\<close>, number \<open>i\<close>.\<close>

definition stands_for :: "nat list \<Rightarrow> string \<Rightarrow> nat \<Rightarrow> gfield \<Rightarrow> field_descriptor \<Rightarrow> bool" where
  "stands_for indices prefix i f d \<longleftrightarrow>
     (\<exists>p c. field_chain (sub_fields f) p = Some c \<and> managed_chain (f # c)
        \<and> d = chain_descriptor prefix (indices @ i # p) (f # c))"

lemma chain_descriptor_Cons:
  "c \<noteq> [] \<Longrightarrow> chain_descriptor prefix idx (f # c)
     = chain_descriptor (full_key prefix (json_key_name f)) idx c"
  by (simp add: chain_descriptor_def chain_key_def)

lemma stands_for_leaf:
  assumes "\<not> nested f"
  shows "stands_for indices prefix i f d \<longleftrightarrow>
     visible f \<and> (\<exists>st. parse_dyn_tag (dyn_raw f) = Some st
       \<and> d = mk_descriptor (full_key prefix (json_key_name f)) (indices @ [i]) f st)"
proof -
  have "managed_chain (f # c) \<Longrightarrow> c = []" for c
    using assms by (cases c) (auto simp: managed_chain_def descends_def)
  then have "stands_for indices prefix i f d \<longleftrightarrow>
      (\<exists>p. field_chain (sub_fields f) p = Some [] \<and> managed_chain [f]
         \<and> d = chain_descriptor prefix (indices @ i # p) [f])"
    unfolding stands_for_def by blast
  also have "\<dots> \<longleftrightarrow> managed_chain [f] \<and> d = chain_descriptor prefix (indices @ [i]) [f]"
  proof -
    have "field_chain (sub_fields f) p = Some [] \<longleftrightarrow> p = []" for p
      by (cases p) auto
    then show ?thesis by auto
  qed
  finally show ?thesis using assms
    by (auto simp: managed_chain_single chain_descriptor_def chain_key_def)
qed

lemma stands_for_nested:
  assumes "nested f"
  shows "stands_for indices prefix i f d \<longleftrightarrow>
     visible f \<and> descends f \<and>
     (\<exists>j < length (sub_fields f).
        stands_for (indices @ [i]) (full_key prefix (json_key_name f)) j (sub_fields f ! j) d)"
    (is "_ \<longleftrightarrow> ?r")
proof
  assume "stands_for indices prefix i f d"
  then obtain p c where c: "field_chain (sub_fields f) p = Some c" "managed_chain (f # c)"
    and d: "d = chain_descriptor prefix (indices @ i # p) (f # c)"
    by (auto simp: stands_for_def)
  with assms have "c \<noteq> []" by (auto simp: managed_chain_single)
  with c obtain j q where p: "p = j # q" using field_chain_Nil [OF c(1)] by (cases p) auto
  with c obtain c' where j: "j < length (sub_fields f)" "c = sub_fields f ! j # c'"
    and c': "field_chain (sub_fields (sub_fields f ! j)) q = Some c'"
    by (auto split: if_splits)
  then show ?r using c d p \<open>c \<noteq> []\<close>
    by (auto simp: stands_for_def managed_chain_Cons chain_descriptor_Cons intro!: exI [of _ j] exI [of _ q])
next
  assume ?r
  then obtain j q c' where "visible f" "descends f" "j < length (sub_fields f)"
    and "field_chain (sub_fields (sub_fields f ! j)) q = Some c'"
    and "managed_chain (sub_fields f ! j # c')"
    and "d = chain_descriptor (full_key prefix (json_key_name f)) ((indices @ [i]) @ j # q)
               (sub_fields f ! j # c')"
    by (auto simp: stands_for_def)
  then show "stands_for indices prefix i f d"
    unfolding stands_for_def
    by (intro exI [of _ "j # q"] exI [of _ "sub_fields f ! j # c'"])
       (auto simp: managed_chain_Cons chain_descriptor_Cons)
qed

lemma descs_iff:
  "d \<in> set (descs indices prefix i fs) \<longleftrightarrow>
     (\<exists>j < length fs. stands_for indices prefix (i + j) (fs ! j) d)"
proof (induction fs arbitrary: indices prefix i rule: fields_induct)
  case Nil
  then show ?case by simp
next
  case (Cons f fs)
  have "d \<in> set (head_descs indices prefix i f) \<longleftrightarrow> stands_for indices prefix i f d"
  proof (cases "nested f")
    case True
    then show ?thesis using Cons.IH(1)
      by (auto simp: head_descs_def stands_for_nested)
  next
    case False
    then show ?thesis
      by (cases "parse_dyn_tag (dyn_raw f)") (auto simp: head_descs_def stands_for_leaf)
  qed
  moreover have "(\<exists>j < length (f # fs). stands_for indices prefix (i + j) ((f # fs) ! j) d) \<longleftrightarrow>
      stands_for indices prefix i f d
      \<or> (\<exists>j < length fs. stands_for indices prefix (Suc i + j) (fs ! j) d)"
    by (auto simp: less_Suc_eq_0_disj nth_Cons')
  ultimately show ?case
    using Cons.IH(2) [of indices prefix "Suc i"]
    unfolding descs_Cons by (simp only: set_append Un_iff)
qed

lemma descs_root_iff:
  "d \<in> set (descs [] [] 0 fs) \<longleftrightarrow>
     (\<exists>c. field_chain fs (fd_indices d) = Some c \<and> managed_chain c
        \<and> d = chain_descriptor [] (fd_indices d) c)"
proof -
  have "(\<exists>j < length fs. stands_for [] [] (0 + j) (fs ! j) d) \<longleftrightarrow>
     (\<exists>j p c. field_chain fs (j # p) = Some (fs ! j # c) \<and> managed_chain (fs ! j # c)
        \<and> d = chain_descriptor [] (j # p) (fs ! j # c))"
    unfolding stands_for_def by (auto split: if_splits)
  also have "\<dots> \<longleftrightarrow> (\<exists>q c. field_chain fs q = Some c \<and> managed_chain c \<and> d = chain_descriptor [] q c)"
  proof -
    have "\<exists>j p. q = j # p \<and> c = fs ! j # tl c" if "field_chain fs q = Some c" "managed_chain c" for q c
      using that field_chain_Nil [OF that(1)]
      by (cases q) (auto simp: managed_chain_def split: if_splits)
    then show ?thesis by (metis list.sel(3))
  qed
  finally show ?thesis
    by (auto simp: descs_iff chain_descriptor_def simp del: add_0)
qed

lemma build_catalog_iff:
  "build_catalog (Some t) = Inr cat \<longleftrightarrow>
     kind_struct t \<and> \<not> rejected (fields_of t) \<and> cat = descs [] [] 0 (fields_of t)"
proof -
  have "walk_struct t [] [] [] = Inr cat \<longleftrightarrow>
      \<not> rejected (fields_of t) \<and> cat = descs [] [] 0 (fields_of t)"
    using walk_fields_result [of "[]" "[]" 0 "fields_of t" "[]"]
      walk_fields_ok_iff [of "[]" "[]" 0 "fields_of t" "[]"]
    by (cases "walk_fields [] [] 0 (fields_of t) []") (auto simp: walk_struct_def)
  then show ?thesis
    by (cases t) (auto simp: build_catalog_def kind_struct_def)
qed

lemma catalog_mem_iff:
  "build_catalog (Some t) = Inr cat \<Longrightarrow> d \<in> set cat \<longleftrightarrow>
     (\<exists>c. field_chain (fields_of t) (fd_indices d) = Some c \<and> managed_chain c
        \<and> d = chain_descriptor [] (fd_indices d) c)"
  by (auto simp: build_catalog_iff descs_root_iff)

subsection \<open>Paths are distinct and none lies inside another\<close>

lemma descs_indices_prefix:
  "d \<in> set (descs indices prefix i fs) \<Longrightarrow> \<exists>j q. fd_indices d = indices @ (i + j) # q \<and> j < length fs"
  by (auto simp: descs_iff stands_for_def chain_descriptor_def)

lemma descs_distinct: "distinct (map fd_indices (descs indices prefix i fs))"
proof (induction fs arbitrary: indices prefix i rule: fields_induct)
  case Nil
  then show ?case by simp
next
  case (Cons f fs)
  have "distinct (map fd_indices (head_descs indices prefix i f))"
    using Cons.IH(1) by (auto simp: head_descs_def split: option.splits)
  moreover have "fd_indices d \<noteq> fd_indices e"
    if "d \<in> set (head_descs indices prefix i f)" "e \<in> set (descs indices prefix (Suc i) fs)" for d e
    using descs_indices_prefix [OF that(1) [unfolded head_descs_def]] descs_indices_prefix [OF that(2)]
    by auto
  ultimately show ?case using Cons.IH(2)
    by (auto simp: descs_Cons simp del: descs.simps)
qed

lemma field_chain_prefix:
  "field_chain fs p = Some c \<Longrightarrow> field_chain fs (p @ q) = Some c' \<Longrightarrow> c = take (length p) c'"
  by (induction fs p arbitrary: c c' rule: field_chain.induct) (auto split: if_splits)

lemma managed_paths_prefix_free:
  assumes "d \<in> set (descs [] [] 0 fs)" "e \<in> set (descs [] [] 0 fs)"
    and "fd_indices e = fd_indices d @ q"
  shows "q = []"
proof (rule ccontr)
  assume q: "q \<noteq> []"
  obtain c c' where c: "field_chain fs (fd_indices d) = Some c" "managed_chain c"
    and c': "field_chain fs (fd_indices d @ q) = Some c'" "managed_chain c'"
    using assms by (auto simp: descs_root_iff)
  have t: "c = take (length c) c'" and l: "length c < length c'"
    using field_chain_prefix [OF c(1) c'(1)] length_field_chain [OF c(1)]
      length_field_chain [OF c'(1)] q by auto
  have "c \<noteq> []" using c(2) by (simp add: managed_chain_def)
  then have n: "length c - 1 < length (butlast c')" using l by (cases c) auto
  have "last c = c' ! (length c - 1)"
    using \<open>c \<noteq> []\<close> l t by (metis diff_less last_conv_nth length_greater_0_conv nth_take zero_less_one)
  also have "\<dots> = butlast c' ! (length c - 1)" using n by (simp add: nth_butlast)
  finally have "last c = butlast c' ! (length c - 1)" .
  moreover have "list_all descends (butlast c')" using c'(2) by (simp add: managed_chain_def)
  ultimately have "descends (last c)" using n by (auto simp: list_all_length)
  then show False using c(2) by (simp add: managed_chain_def descends_def)
qed

end
