(* ===== verification/Overrides.thy ===== *)
theory Overrides
  imports Catalog_Spec Go_Json Go_Duration
begin

text \<open>
  Applying store overrides to a config value (\<^verbatim>\<open>catalog.go\<close>): the parsing of a raw
  string into a field's type, the navigation to the field and the loop of
  \<open>applyOverrides\<close>, with the panics \<^verbatim>\<open>reflect\<close> raises.
\<close>

subsection \<open>Parsing raw values\<close>

text \<open>Every parse error wraps \<open>ErrInvalidValue\<close>; the constructors are the code's messages.\<close>

datatype parse_error =
    BadDuration string
  | BadBool string
  | BadInt string
  | BadUint string
  | BadFloat string
  | BadElemType gtype
  | BadSlice string
  | BadFieldType gtype

text \<open>\<open>reflect.ValueOf(n).Convert(t)\<close> keeps the low bits of an integer.\<close>

definition conv_int :: "nat \<Rightarrow> int \<Rightarrow> int" where
  "conv_int w i = signed_take_bit (w - 1) i"

definition conv_uint :: "nat \<Rightarrow> int \<Rightarrow> int" where
  "conv_uint w i = take_bit w i"

text \<open>The result: \<open>None\<close> an error, \<open>Some None\<close> a nil slice.\<close>

definition parse_string_slice :: "string \<Rightarrow> string list option option" where
  "parse_string_slice raw =
     (let trimmed = trim_space raw in
      if has_prefix trimmed ''['' then map_option Some (json_strings trimmed)
      else if trimmed = [] then Some None
      else let out = filter (\<lambda>p. p \<noteq> []) (map trim_space (split_on CHR '','' trimmed))
           in Some (if out = [] then None else Some out))"

text \<open>The parsed value together with its Go type.\<close>

definition parse_field_value :: "string \<Rightarrow> gtype \<Rightarrow> parse_error + gval \<times> gtype" where
  "parse_field_value raw t =
     (if t = TDuration then
        (case parse_duration raw of None \<Rightarrow> Inl (BadDuration raw) | Some d \<Rightarrow> Inr (VInt d, TDuration))
      else
        (case t of
           TBasic _ k \<Rightarrow>
             (case k of
                KString \<Rightarrow> Inr (VStr raw, t)
              | KBool \<Rightarrow>
                  (case parse_bool raw of None \<Rightarrow> Inl (BadBool raw) | Some b \<Rightarrow> Inr (VBool b, t))
              | KInt w \<Rightarrow>
                  (case parse_int64 raw of None \<Rightarrow> Inl (BadInt raw)
                   | Some n \<Rightarrow> Inr (VInt (conv_int w n), t))
              | KUint w \<Rightarrow>
                  (case parse_uint64 raw of None \<Rightarrow> Inl (BadUint raw)
                   | Some n \<Rightarrow> Inr (VUint (conv_uint w n), t))
              | KFloat32 \<Rightarrow>
                  (case parse_float64 raw of None \<Rightarrow> Inl (BadFloat raw)
                   | Some f \<Rightarrow> Inr (VFloat (to_float32 f), t))
              | KFloat64 \<Rightarrow>
                  (case parse_float64 raw of None \<Rightarrow> Inl (BadFloat raw)
                   | Some f \<Rightarrow> Inr (VFloat f, t)))
         | TSlice e \<Rightarrow>
             if \<not> kind_string e then Inl (BadElemType e)
             else (case parse_string_slice raw of
                     None \<Rightarrow> Inl (BadSlice raw)
                   | Some parts \<Rightarrow> Inr (VStrs parts, TSlice go_string))
         | _ \<Rightarrow> Inl (BadFieldType t)))"

subsection \<open>Navigation and the override loop\<close>

fun navigate_field :: "mem \<Rightarrow> rval \<Rightarrow> nat list \<Rightarrow> gpanic + (mem \<times> rval)" where
  "navigate_field m v [] = Inr (m, v)"
| "navigate_field m v (idx # indices) =
     bind_res (rderef m v) (\<lambda>(m', v').
       bind_res (rfield v' idx) (\<lambda>v''. navigate_field m' v'' indices))"

text \<open>
  The callback \<open>on_err\<close> may be nil (\<open>None\<close>); otherwise it acts on a state of the
  caller's choosing, e.g. a log.
\<close>

type_synonym 's on_err = "(string \<Rightarrow> string \<Rightarrow> parse_error \<Rightarrow> 's \<Rightarrow> 's) option"

definition call_on_err :: "'s on_err \<Rightarrow> string \<Rightarrow> string \<Rightarrow> parse_error \<Rightarrow> 's \<Rightarrow> 's" where
  "call_on_err cb key raw e s = (case cb of None \<Rightarrow> s | Some f \<Rightarrow> f key raw e s)"

definition root_rval :: "gtype \<Rightarrow> rval" where
  "root_rval t = \<lparr>rloc = (Root, []), rtype = t, rro = False\<rparr>"

definition apply_one ::
  "gtype \<Rightarrow> (string \<rightharpoonup> string) \<Rightarrow> 's on_err \<Rightarrow> field_descriptor \<Rightarrow> mem \<times> 's \<Rightarrow> gpanic + (mem \<times> 's)" where
  "apply_one t overrides cb desc ms =
     (let (m, s) = ms in
      case overrides (fd_key desc) of
        None \<Rightarrow> Inr (m, s)
      | Some raw \<Rightarrow>
          (case parse_field_value raw (fd_type desc) of
             Inl e \<Rightarrow> Inr (m, call_on_err cb (fd_key desc) raw e s)
           | Inr (x, xt) \<Rightarrow>
               bind_res (navigate_field m (root_rval t) (fd_indices desc)) (\<lambda>(m', field).
                 if rro field then Inr (m', s)
                 else bind_res (rset m' field x xt) (\<lambda>m''. Inr (m'', s)))))"

fun apply_loop ::
  "gtype \<Rightarrow> (string \<rightharpoonup> string) \<Rightarrow> 's on_err \<Rightarrow> field_descriptor list \<Rightarrow> mem \<times> 's \<Rightarrow> gpanic + (mem \<times> 's)" where
  "apply_loop t overrides cb [] ms = Inr ms"
| "apply_loop t overrides cb (d # ds) ms =
     bind_res (apply_one t overrides cb d ms) (apply_loop t overrides cb ds)"

text \<open>
  \<open>applyOverrides\<close>: the copy \<open>result := base\<close> is shallow, so the heap is passed along and
  comes back with whatever the loop wrote to it.
\<close>

definition apply_overrides ::
  "gtype \<Rightarrow> gval list \<Rightarrow> gval \<Rightarrow> (string \<rightharpoonup> string) \<Rightarrow> field_descriptor list \<Rightarrow> 's on_err \<Rightarrow> 's
     \<Rightarrow> gpanic + (gval list \<times> gval \<times> 's)" where
  "apply_overrides t h base overrides catalog cb s =
     bind_res (apply_loop t overrides cb catalog (\<lparr>root = base, heap = h\<rparr>, s))
       (\<lambda>(m, s'). Inr (heap m, root m, s'))"

subsection \<open>Well-typed values\<close>

text \<open>\<open>wt \<Gamma> t v\<close>: \<open>v\<close> is a value of type \<open>t\<close>, where \<open>\<Gamma>\<close> gives the type of every heap cell.\<close>

inductive wt :: "gtype list \<Rightarrow> gtype \<Rightarrow> gval \<Rightarrow> bool" for \<Gamma> :: "gtype list" where
  wt_bool: "wt \<Gamma> (TBasic n KBool) (VBool b)"
| wt_string: "wt \<Gamma> (TBasic n KString) (VStr s)"
| wt_int: "- (2 ^ (w - 1)) \<le> i \<Longrightarrow> i < 2 ^ (w - 1) \<Longrightarrow> wt \<Gamma> (TBasic n (KInt w)) (VInt i)"
| wt_uint: "0 \<le> i \<Longrightarrow> i < 2 ^ w \<Longrightarrow> wt \<Gamma> (TBasic n (KUint w)) (VUint i)"
| wt_float32: "wt \<Gamma> (TBasic n KFloat32) (VFloat f)"
| wt_float64: "wt \<Gamma> (TBasic n KFloat64) (VFloat f)"
| wt_duration: "- (2 ^ 63) \<le> i \<Longrightarrow> i < 2 ^ 63 \<Longrightarrow> wt \<Gamma> TDuration (VInt i)"
| wt_time: "wt \<Gamma> TTime (VOpaque k)"
| wt_strs: "kind_string e \<Longrightarrow> wt \<Gamma> (TSlice e) (VStrs xs)"
| wt_slice: "\<not> kind_string e \<Longrightarrow> wt \<Gamma> (TSlice e) (VOpaque k)"
| wt_other: "wt \<Gamma> (TOther n) (VOpaque k)"
| wt_nil: "wt \<Gamma> (TPtr t) (VPtr None)"
| wt_ptr: "a < length \<Gamma> \<Longrightarrow> \<Gamma> ! a = t \<Longrightarrow> wt \<Gamma> (TPtr t) (VPtr (Some a))"
| wt_struct: "list_all2 (wt \<Gamma>) (map sf_type fs) vs \<Longrightarrow> wt \<Gamma> (TStruct n fs) (VStruct vs)"

inductive_simps wt_ptr_iff: "wt \<Gamma> (TPtr t) v"
inductive_simps wt_struct_iff: "wt \<Gamma> (TStruct n fs) v"
inductive_simps wt_slice_iff: "wt \<Gamma> (TSlice e) v"
inductive_simps wt_basic_iff: "wt \<Gamma> (TBasic n k) v"
inductive_simps wt_duration_iff: "wt \<Gamma> TDuration v"

definition wt_mem :: "gtype list \<Rightarrow> gtype \<Rightarrow> mem \<Rightarrow> bool" where
  "wt_mem \<Gamma> t m \<longleftrightarrow> wt \<Gamma> t (root m) \<and> list_all2 (wt \<Gamma>) \<Gamma> (heap m)"

lemma wt_mono: "wt \<Gamma> t v \<Longrightarrow> wt (\<Gamma> @ \<Delta>) t v"
proof (induction rule: wt.induct)
  case (wt_struct fs vs n)
  then show ?case by (auto intro!: wt.wt_struct elim: list.rel_mono_strong)
qed (auto intro: wt.intros simp: nth_append)

lemma wt_zero_val: "wt \<Gamma> t (zero_val t)" and wt_zero_fld: "wt \<Gamma> (sf_type f) (zero_fld f)"
proof (induction t and f)
  case (TStruct n fs)
  then show ?case by (auto intro!: wt_struct simp: list_all2_conv_all_nth)
next
  case (TBasic n k)
  then show ?case by (cases k) (auto intro: wt.intros)
qed (auto intro: wt.intros)

end
