(* ===== verification/Override_Lemmas.thy ===== *)
theory Override_Lemmas
  imports Overrides
begin

text \<open>
  Lemmas on parsing and on the override loop: parsed values are well typed, navigation
  along a managed chain reaches the leaf field without a panic, the loop keeps memory
  well typed.
\<close>

subsection \<open>Parsing\<close>

lemma conv_int_range: "- (2 ^ (w - 1)) \<le> conv_int w i \<and> conv_int w i < 2 ^ (w - 1)"
  by (simp add: conv_int_def signed_take_bit_int_greater_eq_minus_exp signed_take_bit_int_less_exp)

lemma conv_uint_range: "0 \<le> conv_uint w i \<and> conv_uint w i < 2 ^ w"
  by (simp add: conv_uint_def take_bit_int_less_exp)

lemma conv_int_id:
  assumes "- (2 ^ (w - 1)) \<le> i" "i < 2 ^ (w - 1)"
  shows "conv_int w i = i"
  using assms by (simp add: conv_int_def signed_take_bit_int_eq_self)

lemma conv_uint_id: "0 \<le> i \<Longrightarrow> i < 2 ^ w \<Longrightarrow> conv_uint w i = i"
  by (simp add: conv_uint_def take_bit_int_eq_self)

lemma parse_field_value_wt:
  "parse_field_value raw t = Inr (x, xt) \<Longrightarrow> wt \<Gamma> xt x"
  using parse_duration_range [of raw] conv_int_range conv_uint_range
  by (auto simp: parse_field_value_def kind_string_def go_string_def intro!: wt.intros
      split: if_splits gtype.splits bkind.splits option.splits)

lemma parse_field_value_type:
  "parse_field_value raw t = Inr (x, xt) \<Longrightarrow>
     xt = (case t of TSlice e \<Rightarrow> TSlice go_string | _ \<Rightarrow> t)"
  by (auto simp: parse_field_value_def
      split: if_splits gtype.splits bkind.splits option.splits)

lemma parse_field_value_supported:
  "parse_field_value raw t = Inr r \<Longrightarrow> is_supported_leaf_type t"
  by (auto simp: parse_field_value_def is_supported_leaf_type_def
      split: if_splits gtype.splits bkind.splits option.splits)

subsection \<open>Typed locations\<close>

fun type_path :: "gtype \<Rightarrow> nat list \<Rightarrow> gtype option" where
  "type_path t [] = Some t"
| "type_path (TStruct n fs) (i # p) =
     (if i < length fs then type_path (sf_type (fs ! i)) p else None)"
| "type_path t (i # p) = None"

definition type_loc :: "gtype list \<Rightarrow> gtype \<Rightarrow> loc \<Rightarrow> gtype option" where
  "type_loc \<Gamma> t l =
     (case fst l of
        Root \<Rightarrow> type_path t (snd l)
      | Cell a \<Rightarrow> if a < length \<Gamma> then type_path (\<Gamma> ! a) (snd l) else None)"

definition rv_ok :: "gtype list \<Rightarrow> gtype \<Rightarrow> rval \<Rightarrow> bool" where
  "rv_ok \<Gamma> t v \<longleftrightarrow> type_loc \<Gamma> t (rloc v) = Some (rtype v) \<and> \<not> rro v"

lemma type_path_append:
  "type_path t (p @ q) = (case type_path t p of None \<Rightarrow> None | Some u \<Rightarrow> type_path u q)"
  by (induction t p rule: type_path.induct) auto

lemma get_path_wt:
  "wt \<Gamma> t v \<Longrightarrow> type_path t p = Some u \<Longrightarrow> \<exists>w. get_path v p = Some w \<and> wt \<Gamma> u w"
proof (induction t p arbitrary: v rule: type_path.induct)
  case (2 n fs i p)
  then show ?case
    by (auto simp: wt_struct_iff list_all2_conv_all_nth split: if_splits)
qed auto

lemma put_path_wt:
  "wt \<Gamma> t v \<Longrightarrow> type_path t p = Some u \<Longrightarrow> wt \<Gamma> u x \<Longrightarrow> wt \<Gamma> t (put_path v p x)"
proof (induction t p arbitrary: v rule: type_path.induct)
  case (2 n fs i p)
  then show ?case
    by (auto simp: wt_struct_iff list_all2_conv_all_nth nth_list_update split: if_splits)
qed auto

lemma read_loc_wt:
  "wt_mem \<Gamma> t m \<Longrightarrow> type_loc \<Gamma> t l = Some u \<Longrightarrow> \<exists>w. read_loc m l = Some w \<and> wt \<Gamma> u w"
  by (auto simp: wt_mem_def type_loc_def read_loc_def list_all2_conv_all_nth
      intro: get_path_wt split: place.splits if_splits)

lemma write_loc_wt:
  "wt_mem \<Gamma> t m \<Longrightarrow> type_loc \<Gamma> t l = Some u \<Longrightarrow> wt \<Gamma> u x \<Longrightarrow> wt_mem \<Gamma> t (write_loc m l x)"
  by (auto simp: wt_mem_def type_loc_def write_loc_def list_all2_conv_all_nth nth_list_update
      intro!: put_path_wt split: place.splits if_splits)

lemma type_loc_mono: "type_loc \<Gamma> t l = Some u \<Longrightarrow> type_loc (\<Gamma> @ \<Delta>) t l = Some u"
  by (auto simp: type_loc_def nth_append split: place.splits if_splits)

lemma new_cell_wt:
  assumes "wt_mem \<Gamma> t m" "new_cell m (zero_val u) = (a, m')"
  shows "wt_mem (\<Gamma> @ [u]) t m' \<and> a = length \<Gamma>"
proof -
  have "list_all2 (wt (\<Gamma> @ [u])) \<Gamma> (heap m)" "wt (\<Gamma> @ [u]) t (root m)"
    using assms(1) by (auto simp: wt_mem_def intro: wt_mono elim: list.rel_mono_strong)
  moreover have "length (heap m) = length \<Gamma>"
    using assms(1) by (auto simp: wt_mem_def dest: list_all2_lengthD)
  ultimately show ?thesis
    using assms(2) wt_zero_val by (auto simp: wt_mem_def new_cell_def list_all2_append)
qed

subsection \<open>Navigation\<close>

lemma rderef_wt:
  assumes m: "wt_mem \<Gamma> t m" and v: "rv_ok \<Gamma> t v"
  shows "\<exists>\<Delta> m' v'. rderef m v = Inr (m', v') \<and> wt_mem (\<Gamma> @ \<Delta>) t m' \<and> rv_ok (\<Gamma> @ \<Delta>) t v'
           \<and> rtype v' = elem_once (rtype v)"
proof (cases "rtype v")
  case (TPtr u)
  with m v obtain w where w: "read_loc m (rloc v) = Some w" "wt \<Gamma> (TPtr u) w"
    using read_loc_wt [OF m] unfolding rv_ok_def by metis
  show ?thesis
  proof (cases "w = VPtr None")
    case True
    obtain a m1 where n: "new_cell m (zero_val u) = (a, m1)" by fastforce
    note n_wt = new_cell_wt [OF m n]
    have "type_loc (\<Gamma> @ [u]) t (rloc v) = Some (TPtr u)"
      using v TPtr by (auto simp: rv_ok_def intro: type_loc_mono)
    moreover have "wt (\<Gamma> @ [u]) (TPtr u) (VPtr (Some a))"
      using n_wt by (intro wt_ptr) auto
    ultimately have "wt_mem (\<Gamma> @ [u]) t (write_loc m1 (rloc v) (VPtr (Some a)))"
      using n_wt by (blast intro: write_loc_wt)
    then show ?thesis using True TPtr w v n n_wt
      by (intro exI [of _ "[u]"]) (auto simp: rderef_def rv_ok_def type_loc_def)
  next
    case False
    with w(2) obtain a where a: "w = VPtr (Some a)" "a < length \<Gamma>" "\<Gamma> ! a = u"
      by (auto simp: wt_ptr_iff)
    with TPtr w v m show ?thesis
      by (intro exI [of _ "[]"]) (auto simp: rderef_def rv_ok_def type_loc_def)
  qed
qed (use m v in \<open>auto simp: rderef_def elem_once_def intro!: exI [of _ "[]"]\<close>)

lemma rfield_wt:
  assumes "rv_ok \<Gamma> t v" "rtype v = TStruct n fs" "i < length fs" "is_exported (fs ! i)"
  shows "\<exists>v'. rfield v i = Inr v' \<and> rv_ok \<Gamma> t v' \<and> rtype v' = sf_type (fs ! i)"
  using assms
  by (auto simp: rfield_def rv_ok_def type_loc_def type_path_append split: place.splits if_splits)

lemma nested_struct_elim:
  "nested f \<Longrightarrow> \<exists>n. elem_once (sf_type f) = TStruct n (sub_fields f)"
  by (auto simp: nested_def nested_struct_def kind_struct_def sub_fields_def fields_of_def
      split: gtype.splits)

lemma navigate_chain_wt:
  assumes "field_chain fs p = Some c" "managed_chain c" "elem_once (rtype v) = TStruct n fs"
    and "wt_mem \<Gamma> t m" "rv_ok \<Gamma> t v"
  shows "\<exists>\<Delta> m' v'. navigate_field m v p = Inr (m', v') \<and> wt_mem (\<Gamma> @ \<Delta>) t m'
           \<and> rv_ok (\<Gamma> @ \<Delta>) t v' \<and> rtype v' = sf_type (last c)"
  using assms
proof (induction p arbitrary: fs c v n m \<Gamma>)
  case Nil
  then show ?case by (simp add: managed_chain_def)
next
  case (Cons i p)
  from Cons.prems(1) obtain c' where i: "i < length fs" and c: "c = fs ! i # c'"
    and c': "field_chain (sub_fields (fs ! i)) p = Some c'"
    by (auto split: if_splits)
  obtain \<Delta>1 m1 v1 where d: "rderef m v = Inr (m1, v1)" "wt_mem (\<Gamma> @ \<Delta>1) t m1"
    "rv_ok (\<Gamma> @ \<Delta>1) t v1" "rtype v1 = TStruct n fs"
    using rderef_wt [OF Cons.prems(4,5)] Cons.prems(3) by metis
  have "is_exported (fs ! i)" using Cons.prems(2) c by (simp add: managed_chain_def visible_def)
  with d i obtain v2 where f: "rfield v1 i = Inr v2" "rv_ok (\<Gamma> @ \<Delta>1) t v2"
    "rtype v2 = sf_type (fs ! i)"
    using rfield_wt by blast
  show ?case
  proof (cases "c' = []")
    case True
    then have "p = []" using field_chain_Nil [OF c'] by simp
    with True d f c show ?thesis by (intro exI [of _ \<Delta>1]) auto
  next
    case False
    then have m': "managed_chain c'" and "nested (fs ! i)"
      using Cons.prems(2) c by (auto simp: managed_chain_Cons descends_def)
    then obtain n' where "elem_once (rtype v2) = TStruct n' (sub_fields (fs ! i))"
      using nested_struct_elim f(3) by metis
    from Cons.IH [OF c' m' this d(2) f(2)] show ?thesis
      using d f False c by auto
  qed
qed

subsection \<open>The override loop\<close>

text \<open>
  The leaf field a descriptor stands for, and the leaves \<open>Set\<close> accepts a parsed value
  for: those whose declared type is the descriptor's type itself, and not a slice of a
  named string type.
\<close>

definition leaf_field :: "gtype \<Rightarrow> field_descriptor \<Rightarrow> gfield option" where
  "leaf_field t d = map_option last (field_chain (fields_of t) (fd_indices d))"

definition direct_leaf :: "gtype \<Rightarrow> bool" where
  "direct_leaf u \<longleftrightarrow> elem_once u = u \<and> (case u of TSlice e \<Rightarrow> e = go_string | _ \<Rightarrow> True)"

definition settable_config :: "gtype \<Rightarrow> field_descriptor list \<Rightarrow> bool" where
  "settable_config t cat =
     list_all (\<lambda>d. case leaf_field t d of Some f \<Rightarrow> direct_leaf (sf_type f) | None \<Rightarrow> False) cat"

definition override_value :: "(string \<rightharpoonup> string) \<Rightarrow> field_descriptor \<Rightarrow> (gval \<times> gtype) option" where
  "override_value ov d =
     (case ov (fd_key d) of
        None \<Rightarrow> None
      | Some raw \<Rightarrow> (case parse_field_value raw (fd_type d) of Inl _ \<Rightarrow> None | Inr r \<Rightarrow> Some r))"

definition log_one :: "(string \<rightharpoonup> string) \<Rightarrow> 's on_err \<Rightarrow> field_descriptor \<Rightarrow> 's \<Rightarrow> 's" where
  "log_one ov cb d s =
     (case ov (fd_key d) of
        None \<Rightarrow> s
      | Some raw \<Rightarrow>
          (case parse_field_value raw (fd_type d) of
             Inl e \<Rightarrow> call_on_err cb (fd_key d) raw e s | Inr r \<Rightarrow> s))"

lemma apply_one_skip:
  "override_value ov d = None \<Longrightarrow> apply_one t ov cb d (m, s) = Inr (m, log_one ov cb d s)"
  by (auto simp: override_value_def apply_one_def log_one_def split: option.splits sum.splits)

lemma apply_one_set:
  assumes "override_value ov d = Some (x, xt)"
    and "navigate_field m (root_rval t) (fd_indices d) = Inr (m', v)" "\<not> rro v"
  shows "apply_one t ov cb d (m, s) =
     (if xt = rtype v then Inr (write_loc m' (rloc v) x, log_one ov cb d s)
      else Inl (PanicSet xt (rtype v)))"
proof -
  obtain raw where "ov (fd_key d) = Some raw" "parse_field_value raw (fd_type d) = Inr (x, xt)"
    using assms(1) by (auto simp: override_value_def split: option.splits sum.splits)
  then show ?thesis
    using assms(2,3) by (simp add: apply_one_def rset_def assignable_def log_one_def)
qed

lemma override_value_wt:
  "override_value ov d = Some (x, xt) \<Longrightarrow> wt \<Gamma> xt x \<and>
     xt = (case fd_type d of TSlice e \<Rightarrow> TSlice go_string | u \<Rightarrow> u)"
proof -
  assume "override_value ov d = Some (x, xt)"
  then obtain raw where r: "parse_field_value raw (fd_type d) = Inr (x, xt)"
    by (auto simp: override_value_def split: option.splits sum.splits)
  show ?thesis using parse_field_value_wt [OF r] parse_field_value_type [OF r]
    by (cases "fd_type d") auto
qed

lemma navigate_desc_wt:
  assumes cat: "build_catalog (Some t) = Inr cat" and d: "d \<in> set cat"
    and m: "wt_mem \<Gamma> t m"
  shows "\<exists>f \<Delta> m' v. leaf_field t d = Some f \<and> fd_type d = elem_once (sf_type f)
     \<and> navigate_field m (root_rval t) (fd_indices d) = Inr (m', v)
     \<and> wt_mem (\<Gamma> @ \<Delta>) t m' \<and> rv_ok (\<Gamma> @ \<Delta>) t v \<and> rtype v = sf_type f"
proof -
  let ?fs = "fields_of t"
  obtain c where c: "field_chain ?fs (fd_indices d) = Some c" "managed_chain c"
    and d': "d = chain_descriptor [] (fd_indices d) c"
    using d cat by (auto simp: build_catalog_iff descs_root_iff)
  have l: "leaf_field t d = Some (last c)" using c by (simp add: leaf_field_def)
  have ty: "fd_type d = elem_once (sf_type (last c))" by (subst d') (simp add: chain_descriptor_def)
  have "?fs \<noteq> []" using c by (cases "fd_indices d") (auto simp: managed_chain_def split: if_splits)
  then obtain n where t: "t = TStruct n ?fs" by (cases t) (auto simp: fields_of_def)
  have r: "elem_once (rtype (root_rval t)) = TStruct n ?fs"
    unfolding root_rval_def using t by (metis elem_once_simps(2) rval.select_convs(2))
  have ok: "rv_ok \<Gamma> t (root_rval t)" by (simp add: rv_ok_def root_rval_def type_loc_def)
  from navigate_chain_wt [OF c r m ok] l ty show ?thesis by blast
qed

lemma apply_one_wt:
  assumes cat: "build_catalog (Some t) = Inr cat" and d: "d \<in> set cat"
    and m: "wt_mem \<Gamma> t m"
  shows "\<exists>f. leaf_field t d = Some f \<and> fd_type d = elem_once (sf_type f) \<and>
     (case override_value ov d of
        None \<Rightarrow> apply_one t ov cb d (m, s) = Inr (m, log_one ov cb d s)
      | Some (x, xt) \<Rightarrow>
          if xt = sf_type f
          then (\<exists>\<Delta> m'. apply_one t ov cb d (m, s) = Inr (m', log_one ov cb d s) \<and> wt_mem (\<Gamma> @ \<Delta>) t m')
          else apply_one t ov cb d (m, s) = Inl (PanicSet xt (sf_type f)))"
proof -
  obtain f \<Delta> m' v where l: "leaf_field t d = Some f" "fd_type d = elem_once (sf_type f)"
    and nav: "navigate_field m (root_rval t) (fd_indices d) = Inr (m', v)"
      "wt_mem (\<Gamma> @ \<Delta>) t m'" "rv_ok (\<Gamma> @ \<Delta>) t v" "rtype v = sf_type f"
    using navigate_desc_wt [OF assms] by blast
  have "wt_mem (\<Gamma> @ \<Delta>) t (write_loc m' (rloc v) x)" if "wt (\<Gamma> @ \<Delta>) (rtype v) x" for x
    using that nav by (auto simp: rv_ok_def intro: write_loc_wt)
  moreover have "\<not> rro v" using nav by (simp add: rv_ok_def)
  ultimately show ?thesis using l nav
    by (auto simp: apply_one_skip apply_one_set dest: override_value_wt split: option.splits)
qed

lemma apply_loop_wt:
  assumes cat: "build_catalog (Some t) = Inr cat" and "set ds \<subseteq> set cat"
    and "settable_config t ds" "wt_mem \<Gamma> t m"
  shows "\<exists>\<Delta> m'. apply_loop t ov cb ds (m, s) = Inr (m', fold (log_one ov cb) ds s)
           \<and> wt_mem (\<Gamma> @ \<Delta>) t m'"
  using assms(2-)
proof (induction ds arbitrary: m s \<Gamma>)
  case Nil
  then show ?case by (intro exI [of _ "[]"]) simp
next
  case (Cons d ds)
  from apply_one_wt [OF cat _ Cons.prems(3), of d ov cb s] Cons.prems(1)
  obtain f where f: "leaf_field t d = Some f" "fd_type d = elem_once (sf_type f)"
    and one: "case override_value ov d of
        None \<Rightarrow> apply_one t ov cb d (m, s) = Inr (m, log_one ov cb d s)
      | Some (x, xt) \<Rightarrow>
          if xt = sf_type f
          then (\<exists>\<Delta> m'. apply_one t ov cb d (m, s) = Inr (m', log_one ov cb d s) \<and> wt_mem (\<Gamma> @ \<Delta>) t m')
          else apply_one t ov cb d (m, s) = Inl (PanicSet xt (sf_type f))"
    by auto
  have dl: "direct_leaf (sf_type f)" using Cons.prems(2) f by (simp add: settable_config_def)
  have "\<exists>\<Delta> m'. apply_one t ov cb d (m, s) = Inr (m', log_one ov cb d s) \<and> wt_mem (\<Gamma> @ \<Delta>) t m'"
  proof (cases "override_value ov d")
    case None
    with one Cons.prems(3) show ?thesis by (intro exI [of _ "[]"]) simp
  next
    case (Some r)
    obtain x xt where r: "r = (x, xt)" by fastforce
    have "xt = sf_type f"
      using override_value_wt [of ov d x xt] Some r dl f
      by (auto simp: direct_leaf_def split: gtype.splits)
    with one Some r show ?thesis by auto
  qed
  then obtain \<Delta> m' where a: "apply_one t ov cb d (m, s) = Inr (m', log_one ov cb d s)"
    "wt_mem (\<Gamma> @ \<Delta>) t m'" by blast
  have "set ds \<subseteq> set cat" "settable_config t ds"
    using Cons.prems by (auto simp: settable_config_def)
  from Cons.IH [OF this a(2), of "log_one ov cb d s"] a show ?case by auto
qed

end
