(* ===== verification/Override_Flat.thy ===== *)
theory Override_Flat
  imports Override_Lemmas
begin

text \<open>
  Flat configs: the managed fields are reached without pointers and are settable, that is,
  managed slices are exactly \<^verbatim>\<open>[]string\<close>. There the override loop is
  a pure function of the base value, the heap is untouched, and each managed field holds
  its override while everything else keeps its base value.
\<close>

text \<open>No field on the chain is a pointer, and \<^verbatim>\<open>Set\<close> accepts the parsed value for the leaf:
  \<open>direct_leaf\<close> also excludes a slice of a named string type.\<close>

definition flat_chain :: "gfield list \<Rightarrow> bool" where
  "flat_chain c \<longleftrightarrow>
     list_all (\<lambda>f. elem_once (sf_type f) = sf_type f) (butlast c) \<and> direct_leaf (sf_type (last c))"

definition flat_config :: "gtype \<Rightarrow> field_descriptor list \<Rightarrow> bool" where
  "flat_config t cat =
     list_all (\<lambda>d. case field_chain (fields_of t) (fd_indices d) of
                     Some c \<Rightarrow> flat_chain c | None \<Rightarrow> False) cat"

definition pure_one :: "(string \<rightharpoonup> string) \<Rightarrow> field_descriptor \<Rightarrow> gval \<Rightarrow> gval" where
  "pure_one ov d v =
     (case override_value ov d of None \<Rightarrow> v | Some (x, xt) \<Rightarrow> put_path v (fd_indices d) x)"

definition apply_pure :: "(string \<rightharpoonup> string) \<Rightarrow> field_descriptor list \<Rightarrow> gval \<Rightarrow> gval" where
  "apply_pure ov cat v = fold (pure_one ov) cat v"

lemma navigate_flat:
  assumes "field_chain fs p = Some c" "managed_chain c" "flat_chain c"
    and "rtype v = TStruct n fs" "\<not> rro v"
  shows "navigate_field m v p =
     Inr (m, \<lparr>rloc = (fst (rloc v), snd (rloc v) @ p), rtype = sf_type (last c), rro = False\<rparr>)"
  using assms
proof (induction p arbitrary: fs c v n)
  case Nil
  then show ?case by (simp add: managed_chain_def)
next
  case (Cons i p)
  from Cons.prems(1) obtain c' where i: "i < length fs" and c: "c = fs ! i # c'"
    and c': "field_chain (sub_fields (fs ! i)) p = Some c'"
    by (auto split: if_splits)
  have ex: "is_exported (fs ! i)" using Cons.prems(2) c by (simp add: managed_chain_def visible_def)
  show ?case
  proof (cases "c' = []")
    case True
    then have "p = []" using field_chain_Nil [OF c'] by simp
    with True Cons.prems i ex c show ?thesis by (simp add: rderef_def rfield_def)
  next
    case False
    then have m': "managed_chain c'" "nested (fs ! i)"
      using Cons.prems(2) c by (auto simp: managed_chain_Cons descends_def)
    have f': "flat_chain c'" "elem_once (sf_type (fs ! i)) = sf_type (fs ! i)"
      using Cons.prems(3) c False by (auto simp: flat_chain_def)
    let ?v = "\<lparr>rloc = (fst (rloc v), snd (rloc v) @ [i]), rtype = sf_type (fs ! i), rro = False\<rparr>"
    obtain n' where "rtype ?v = TStruct n' (sub_fields (fs ! i))"
      using nested_struct_elim [OF m'(2)] f'(2) by auto
    from Cons.IH [OF c' m'(1) f'(1) this] show ?thesis
      using Cons.prems i ex c False by (simp add: rderef_def rfield_def)
  qed
qed

lemma apply_one_flat:
  assumes cat: "build_catalog (Some t) = Inr cat" and d: "d \<in> set cat" and flat: "flat_config t cat"
  shows "apply_one t ov cb d (m, s) = Inr (m\<lparr>root := pure_one ov d (root m)\<rparr>, log_one ov cb d s)"
proof (cases "override_value ov d")
  case None
  then show ?thesis by (simp add: apply_one_skip pure_one_def)
next
  case (Some r)
  obtain x xt where r: "r = (x, xt)" by fastforce
  let ?fs = "fields_of t"
  obtain c where c: "field_chain ?fs (fd_indices d) = Some c" "managed_chain c"
    and d': "d = chain_descriptor [] (fd_indices d) c"
    using d cat by (auto simp: build_catalog_iff descs_root_iff)
  have fc: "flat_chain c" using flat d c(1) by (auto simp: flat_config_def list_all_iff)
  have "?fs \<noteq> []" using c by (cases "fd_indices d") (auto simp: managed_chain_def split: if_splits)
  then obtain n where t: "t = TStruct n ?fs" by (cases t) (auto simp: fields_of_def)
  have "rtype (root_rval t) = TStruct n ?fs" "\<not> rro (root_rval t)"
    unfolding root_rval_def using t by (metis rval.select_convs(2)) simp
  from navigate_flat [OF c fc this]
  have nav: "navigate_field m (root_rval t) (fd_indices d) =
      Inr (m, \<lparr>rloc = (Root, fd_indices d), rtype = sf_type (last c), rro = False\<rparr>)"
    by (simp add: root_rval_def)
  have "fd_type d = elem_once (sf_type (last c))" by (subst d') (simp add: chain_descriptor_def)
  then have "xt = sf_type (last c)"
    using override_value_wt [of ov d x xt] Some r fc
    by (auto simp: flat_chain_def direct_leaf_def split: gtype.splits)
  then show ?thesis
    using apply_one_set [OF _ nav, of ov x xt cb s] Some r
    by (simp add: write_loc_def pure_one_def)
qed

lemma apply_loop_flat:
  assumes cat: "build_catalog (Some t) = Inr cat" and "set ds \<subseteq> set cat" and flat: "flat_config t cat"
  shows "apply_loop t ov cb ds (m, s) =
     Inr (m\<lparr>root := fold (pure_one ov) ds (root m)\<rparr>, fold (log_one ov cb) ds s)"
  using assms(2)
  by (induction ds arbitrary: m s) (auto simp: apply_one_flat [OF cat _ flat])

lemma apply_overrides_flat:
  assumes "build_catalog (Some t) = Inr cat" "flat_config t cat"
  shows "apply_overrides t h base ov cat cb s =
     Inr (h, apply_pure ov cat base, fold (log_one ov cb) cat s)"
  by (simp add: apply_overrides_def apply_pure_def
      apply_loop_flat [OF assms(1) subset_refl assms(2)])

subsection \<open>What the fields hold afterwards\<close>

definition unrelated :: "nat list \<Rightarrow> nat list \<Rightarrow> bool" where
  "unrelated p q \<longleftrightarrow> \<not> (\<exists>r. q = p @ r) \<and> \<not> (\<exists>r. p = q @ r)"

lemma pure_one_other: "unrelated (fd_indices d) q \<Longrightarrow> get_path (pure_one ov d v) q = get_path v q"
  by (auto simp: pure_one_def unrelated_def get_put_other split: option.splits)

lemma fold_pure_other:
  "(\<And>d. d \<in> set ds \<Longrightarrow> unrelated (fd_indices d) q) \<Longrightarrow>
   get_path (fold (pure_one ov) ds v) q = get_path v q"
  by (induction ds arbitrary: v) (auto simp: pure_one_other)

lemma catalog_unrelated:
  assumes "build_catalog (Some t) = Inr cat" "d \<in> set cat" "e \<in> set cat"
    and "fd_indices d \<noteq> fd_indices e"
  shows "unrelated (fd_indices d) (fd_indices e)"
proof -
  have c: "d \<in> set (descs [] [] 0 (fields_of t))" "e \<in> set (descs [] [] 0 (fields_of t))"
    using assms(1-3) by (simp_all add: build_catalog_iff)
  have "fd_indices e \<noteq> fd_indices d @ r" "fd_indices d \<noteq> fd_indices e @ r" for r
    using managed_paths_prefix_free [OF c, of r] managed_paths_prefix_free [OF c(2,1), of r] assms(4)
    by (metis append_Nil2)+
  then show ?thesis by (simp add: unrelated_def)
qed

lemma apply_pure_managed:
  assumes cat: "build_catalog (Some t) = Inr cat" and d: "d \<in> set cat"
    and v: "get_path v (fd_indices d) = Some w"
  shows "get_path (apply_pure ov cat v) (fd_indices d) =
     Some (case override_value ov d of None \<Rightarrow> w | Some (x, xt) \<Rightarrow> x)"
proof -
  have dist: "distinct (map fd_indices cat)"
    using cat descs_distinct by (auto simp: build_catalog_iff)
  obtain ds es where cs: "cat = ds @ d # es" using d by (meson split_list)
  have "fd_indices d \<notin> fd_indices ` set ds" "fd_indices d \<notin> fd_indices ` set es"
    using dist unfolding cs by auto
  then have ne: "fd_indices e \<noteq> fd_indices d" if "e \<in> set ds \<or> e \<in> set es" for e
    using that by (metis imageI)
  have un: "unrelated (fd_indices e) (fd_indices d)" if "e \<in> set ds \<or> e \<in> set es" for e
  proof (rule catalog_unrelated [OF cat _ d])
    show "e \<in> set cat" using that cs by auto
    show "fd_indices e \<noteq> fd_indices d" using that by (rule ne)
  qed
  have es: "get_path (fold (pure_one ov) es x) (fd_indices d) = get_path x (fd_indices d)" for x
    by (rule fold_pure_other) (simp add: un)
  have "get_path (fold (pure_one ov) ds v) (fd_indices d) = get_path v (fd_indices d)"
    by (rule fold_pure_other) (simp add: un)
  with v have "get_path (fold (pure_one ov) ds v) (fd_indices d) = Some w" by simp
  then have "get_path (pure_one ov d (fold (pure_one ov) ds v)) (fd_indices d) =
      Some (case override_value ov d of None \<Rightarrow> w | Some (x, xt) \<Rightarrow> x)"
    by (auto simp: pure_one_def get_put_same split: option.splits)
  then show ?thesis
    by (simp add: apply_pure_def cs es)
qed

text \<open>The loop looks at the overrides only at the catalog's keys.\<close>

lemma apply_loop_cong:
  "(\<And>d. d \<in> set ds \<Longrightarrow> ov (fd_key d) = ov' (fd_key d)) \<Longrightarrow>
   apply_loop t ov cb ds ms = apply_loop t ov' cb ds ms"
proof (induction ds arbitrary: ms)
  case (Cons d ds)
  have "apply_one t ov cb d ms = apply_one t ov' cb d ms"
    using Cons.prems by (simp add: apply_one_def)
  with Cons show ?case by (cases "apply_one t ov' cb d ms") auto
qed simp

lemma apply_overrides_cong:
  "(\<And>d. d \<in> set cat \<Longrightarrow> ov (fd_key d) = ov' (fd_key d)) \<Longrightarrow>
   apply_overrides t h base ov cat cb s = apply_overrides t h base ov' cat cb s"
  by (simp add: apply_overrides_def apply_loop_cong [of cat ov ov'])

end
