(* ===== verification/Catalog_Props.thy ===== *)
theory Catalog_Props
  imports Override_Flat
begin

text \<open>
  Properties of the catalog and of the override loop, and the sample config they are
  evaluated on.
\<close>

subsection \<open>A sample config\<close>

definition sample_type :: gtype where
  "sample_type = TStruct ''main.Config''
     [GField ''Timeout'' [] TDuration
        ''json:\"timeout\" dyn:\"live\" desc:\"HTTP client timeout\"'',
      GField ''Cron'' [] go_string ''json:\"cron\" dyn:\"recreate-on-change\"'',
      GField ''Port'' [] (TBasic ''int8'' (KInt 8)) ''json:\"port\" dyn:\"restart-required\"'',
      GField ''Password'' [] go_string ''json:\"password\" dyn:\"secret\"'']"

definition sample_timeout :: field_descriptor where
  "sample_timeout = \<lparr>fd_key = ''timeout'', fd_description = ''HTTP client timeout'',
     fd_type_name = ''time.Duration'', fd_strategy = ReloadStrategyLive, fd_indices = [0],
     fd_type = TDuration\<rparr>"

definition sample_cron :: field_descriptor where
  "sample_cron = \<lparr>fd_key = ''cron'', fd_description = [], fd_type_name = ''string'',
     fd_strategy = ReloadStrategyRecreate, fd_indices = [1], fd_type = go_string\<rparr>"

definition sample_port :: field_descriptor where
  "sample_port = \<lparr>fd_key = ''port'', fd_description = [], fd_type_name = ''int8'',
     fd_strategy = ReloadStrategyRestart, fd_indices = [2], fd_type = TBasic ''int8'' (KInt 8)\<rparr>"

definition sample_catalog :: "field_descriptor list" where
  "sample_catalog = [sample_timeout, sample_cron, sample_port]"

definition sample_base :: gval where
  "sample_base = VStruct [VInt 5, VStr ''0 0 * * *'', VInt 80, VStr ''hunter2'']"

lemma sample_build: "build_catalog (Some sample_type) = Inr sample_catalog"
  by code_simp

lemma sample_flat: "flat_config sample_type sample_catalog"
  by code_simp

lemma sample_settable: "settable_config sample_type sample_catalog"
  by code_simp

lemma sample_mem: "sample_cron \<in> set sample_catalog" "sample_port \<in> set sample_catalog"
  by (simp_all add: sample_catalog_def)

subsection \<open>The catalog\<close>


text \<open>C18: The catalog lists exactly the managed chains: a descriptor is in it when its index
  path leads from the root through visible, nested, non-secret struct fields to a visible
  leaf with a managed \<^verbatim>\<open>dyn\<close> value, and its key, description, type and strategy are those
  the chain's tags give.\<close>

theorem catalog_lists_managed_chains:
  assumes "build_catalog (Some t) = Inr cat"
  shows "d \<in> set cat = (\<exists>c. field_chain (fields_of t) (fd_indices d) = Some c \<and> managed_chain c
           \<and> d = chain_descriptor [] (fd_indices d) c)"
  by (rule catalog_mem_iff [OF assms])

theorem catalog_lists_managed_chains_witness:
  "\<exists>c. field_chain (fields_of sample_type) [1] = Some c \<and> managed_chain c
     \<and> sample_cron = chain_descriptor [] [1] c"
  using catalog_lists_managed_chains [OF sample_build, of sample_cron] sample_mem(1)
  by (simp add: sample_cron_def)

text \<open>C20: No secret reaches the store: every field on the way to a managed field, and the
  field itself, is exported, not hidden by \<^verbatim>\<open>json:"-"\<close> and not tagged secret; the managed
  field is tagged with one of the three reload strategies.\<close>

theorem secrets_never_managed:
  assumes "build_catalog (Some t) = Inr cat" "d \<in> set cat"
    and "field_chain (fields_of t) (fd_indices d) = Some c"
  shows "list_all (\<lambda>f. is_exported f \<and> json_key_name f \<noteq> ''-'' \<and> dyn_raw f \<noteq> ''secret'') c
     \<and> dyn_raw (last c) \<in> {''live'', ''recreate-on-change'', ''restart-required''}"
proof -
  have m: "managed_chain c"
    using assms catalog_mem_iff [OF assms(1), of d] by simp
  then have "c \<noteq> []" "parse_dyn_tag (dyn_raw (last c)) \<noteq> None"
    "list_all visible c" "list_all descends (butlast c)" by (auto simp: managed_chain_def)
  moreover from this have "dyn_raw (last c) \<in> {''live'', ''recreate-on-change'', ''restart-required''}"
    by (auto simp: parse_dyn_tag_def split: if_splits)
  moreover have "dyn_raw f \<noteq> ''secret''" if "f \<in> set c" for f
  proof (cases "f \<in> set (butlast c)")
    case True
    with calculation(4) show ?thesis by (auto simp: list_all_iff descends_def)
  next
    case False
    then have "f = last c" using that \<open>c \<noteq> []\<close>
      by (metis append_butlast_last_id in_set_conv_decomp set_append Un_iff set_ConsD empty_iff empty_set)
    with calculation(5) show ?thesis by auto
  qed
  ultimately show ?thesis by (auto simp: list_all_iff visible_def)
qed

theorem secrets_never_managed_witness:
  "\<exists>c. field_chain (fields_of sample_type) (fd_indices sample_cron) = Some c
     \<and> dyn_raw (last c) \<in> {''live'', ''recreate-on-change'', ''restart-required''}"
proof -
  have "field_chain (fields_of sample_type) (fd_indices sample_cron) =
      Some [GField ''Cron'' [] go_string ''json:\"cron\" dyn:\"recreate-on-change\"'']"
    by (simp add: sample_type_def sample_cron_def)
  from this secrets_never_managed [OF sample_build sample_mem(1) this] show ?thesis by blast
qed

text \<open>No two descriptors stand for the same field, and no managed field lies inside
  another, so overrides of different keys write disjoint parts of the config.\<close>

theorem catalog_paths_disjoint:
  assumes "build_catalog (Some t) = Inr cat"
  shows "distinct (map fd_indices cat)
     \<and> (\<forall>d \<in> set cat. \<forall>e \<in> set cat. fd_indices d \<noteq> fd_indices e \<longrightarrow> unrelated (fd_indices d) (fd_indices e))"
  using assms descs_distinct [of "[]" "[]" 0 "fields_of t"] catalog_unrelated [OF assms]
  by (auto simp: build_catalog_iff)

theorem catalog_paths_disjoint_witness:
  "unrelated (fd_indices sample_cron) (fd_indices sample_port)"
proof -
  have "fd_indices sample_cron \<noteq> fd_indices sample_port" by (simp add: sample_cron_def sample_port_def)
  with catalog_paths_disjoint [OF sample_build] sample_mem show ?thesis by blast
qed

text \<open>The types the catalog accepts for a managed field are exactly those some text parses
  into, so a field that passes construction can be overridden.\<close>

theorem supported_iff_parseable:
  "is_supported_leaf_type t = (\<exists>raw r. parse_field_value raw t = Inr r)"
proof
  assume s: "is_supported_leaf_type t"
  have f: "parse_float64 ''NaN'' = Some FNaN" by code_simp
  have "is_ok (parse_field_value
      (case t of TBasic _ KBool \<Rightarrow> ''true'' | TBasic _ KFloat32 \<Rightarrow> ''NaN'' | TBasic _ KFloat64 \<Rightarrow> ''NaN''
       | TSlice e \<Rightarrow> [] | _ \<Rightarrow> ''0'') t)"
    using s f
    by (auto simp: is_supported_leaf_type_def parse_field_value_def is_ok_def parse_bool_def
        parse_int64_def parse_uint64_def is_digit_def dec_val_def digit_val_def parse_duration_def
        strip_sign_def parse_string_slice_def has_prefix_def Let_def
        split: if_splits gtype.splits bkind.splits option.splits)
  then show "\<exists>raw r. parse_field_value raw t = Inr r"
    by (auto simp: is_ok_def split: sum.splits)
qed (auto dest: parse_field_value_supported)

end
