(* ===== verification/Override_Props.thy ===== *)
theory Override_Props
  imports Catalog_Props
begin

text \<open>
  Properties of parsing and of the override loop: what overridden and other fields hold
  afterwards, type soundness, the fields \<^verbatim>\<open>Set\<close> panics on, integer
  narrowing and the round trips of the accepted texts.
\<close>

subsection \<open>The loop\<close>

text \<open>C11: For a config whose managed fields are reached without pointers and whose managed slices are
  exactly \<^verbatim>\<open>[]string\<close> (\<open>flat_config\<close>; a \<^verbatim>\<open>[]Host\<close> with \<^verbatim>\<open>type Host string\<close> is not), the override loop
  does not panic, leaves the heap as it was, gives each managed field the parsed override
  or, when there is none or it does not parse, its base value, keeps the base value of
  every part of the config that is not a managed field (or inside or around one), such as
  bootstrap and secret fields, whatever the store holds, and reports exactly the overrides
  that do not parse.\<close>

theorem overrides_set_fields:
  assumes "build_catalog (Some t) = Inr cat" "flat_config t cat"
    and "d \<in> set cat" "get_path base (fd_indices d) = Some w"
  shows "\<exists>v. apply_overrides t h base ov cat cb s = Inr (h, v, fold (log_one ov cb) cat s)
     \<and> get_path v (fd_indices d) = Some (case override_value ov d of None \<Rightarrow> w | Some (x, xt) \<Rightarrow> x)
     \<and> (\<forall>q. list_all (\<lambda>d. unrelated (fd_indices d) q) cat \<longrightarrow> get_path v q = get_path base q)"
proof (intro exI [of _ "apply_pure ov cat base"] conjI allI impI apply_overrides_flat [OF assms(1,2)]
      apply_pure_managed [OF assms(1,3,4)])
  fix q
  assume "list_all (\<lambda>d. unrelated (fd_indices d) q) cat"
  then show "get_path (apply_pure ov cat base) q = get_path base q"
    unfolding apply_pure_def by (intro fold_pure_other) (simp add: list_all_iff)
qed

theorem overrides_set_fields_witness:
  "\<exists>v. apply_overrides sample_type [] sample_base [''cron'' \<mapsto> ''@daily'', ''password'' \<mapsto> ''x''] sample_catalog None () =
      Inr ([], v, ()) \<and> get_path v [1] = Some (VStr ''@daily'') \<and> get_path v [3] = Some (VStr ''hunter2'')"
proof -
  let ?ov = "[''cron'' \<mapsto> ''@daily'', ''password'' \<mapsto> ''x'']"
  have p: "get_path sample_base (fd_indices sample_cron) = Some (VStr ''0 0 * * *'')"
    by (simp add: sample_base_def sample_cron_def)
  have o: "override_value ?ov sample_cron = Some (VStr ''@daily'', go_string)"
    by (simp add: override_value_def sample_cron_def parse_field_value_def go_string_def)
  have r: "list_all (\<lambda>d. unrelated (fd_indices d) [3]) sample_catalog"
    by (simp add: sample_catalog_def sample_timeout_def sample_cron_def sample_port_def unrelated_def)
  obtain v where "apply_overrides sample_type [] sample_base ?ov sample_catalog None () = Inr ([], v, ())"
    "get_path v (fd_indices sample_cron) = Some (VStr ''@daily'')" "get_path v [3] = get_path sample_base [3]"
    using overrides_set_fields [OF sample_build sample_flat sample_mem(1) p, of "[]" ?ov None "()"] o r by auto
  then show ?thesis by (simp add: sample_cron_def sample_base_def)
qed

text \<open>C15: For a config with pointers to nested structs whose leaves are settable (no managed leaf is
  itself a pointer and no managed slice is of a named string type) and a well-typed base,
  the loop never
  panics and produces a well-typed config, whatever texts the store holds; new cells may
  be allocated, and the types of existing ones are kept.\<close>

theorem overrides_well_typed:
  assumes "build_catalog (Some t) = Inr cat" "settable_config t cat"
    and "wt \<Gamma> t base" "list_all2 (wt \<Gamma>) \<Gamma> h"
  shows "\<exists>\<Delta> h' v. apply_overrides t h base ov cat cb s = Inr (h', v, fold (log_one ov cb) cat s)
     \<and> wt (\<Gamma> @ \<Delta>) t v \<and> list_all2 (wt (\<Gamma> @ \<Delta>)) (\<Gamma> @ \<Delta>) h'"
proof -
  have "wt_mem \<Gamma> t \<lparr>root = base, heap = h\<rparr>" using assms(3,4) by (simp add: wt_mem_def)
  from apply_loop_wt [OF assms(1) subset_refl assms(2) this, of ov cb s]
  show ?thesis by (auto simp: apply_overrides_def wt_mem_def)
qed

lemma sample_base_wt: "wt \<Gamma> sample_type sample_base"
  by (auto simp: sample_type_def sample_base_def go_string_def intro!: wt.intros)

theorem overrides_well_typed_witness:
  "\<exists>\<Delta> h' v. apply_overrides sample_type [] sample_base [''timeout'' \<mapsto> ''zzz''] sample_catalog None () =
      Inr (h', v, ()) \<and> wt \<Delta> sample_type v \<and> list_all2 (wt \<Delta>) \<Delta> h'"
  using overrides_well_typed [OF sample_build sample_settable sample_base_wt [of "[]"], of "[]"
      "[''timeout'' \<mapsto> ''zzz'']" None "()"]
  by simp

text \<open>The leaves \<open>Set\<close> refuses the parsed value for: a pointer to a leaf type, and a slice of a
  named string type. The parsed value is of the pointed-to type, or a \<^verbatim>\<open>[]string\<close>.\<close>

definition settable_field :: "gtype \<Rightarrow> field_descriptor \<Rightarrow> bool" where
  "settable_field t d = (case leaf_field t d of Some f \<Rightarrow> direct_leaf (sf_type f) | None \<Rightarrow> False)"

lemma gtype_no_loop: "u \<noteq> TPtr u"
proof
  assume "u = TPtr u"
  then have "size u = size (TPtr u)" by simp
  then show False by simp
qed

lemma parsed_type_iff:
  assumes "override_value ov d = Some (x, xt)" "fd_type d = elem_once u"
  shows "xt = u \<longleftrightarrow> direct_leaf u"
proof -
  have xt: "xt = (case elem_once u of TSlice e \<Rightarrow> TSlice go_string | w \<Rightarrow> w)"
    using override_value_wt [OF assms(1)] assms(2) by simp
  show ?thesis
  proof (cases u)
    case (TPtr w)
    then have "xt = w \<or> xt = TSlice go_string" using xt by (cases w) simp_all
    with TPtr gtype_no_loop [of w] show ?thesis by (auto simp: direct_leaf_def)
  qed (use xt in \<open>auto simp: direct_leaf_def\<close>)
qed

lemma apply_one_outcome:
  assumes "build_catalog (Some t) = Inr cat" "d \<in> set cat" "wt_mem \<Gamma> t m"
  shows "if \<not> settable_field t d \<and> override_value ov d \<noteq> None
     then (\<exists>x xt f. override_value ov d = Some (x, xt) \<and> leaf_field t d = Some f
             \<and> apply_one t ov cb d (m, s) = Inl (PanicSet xt (sf_type f)))
     else (\<exists>\<Delta> m' s'. apply_one t ov cb d (m, s) = Inr (m', s') \<and> wt_mem (\<Gamma> @ \<Delta>) t m')"
proof (cases "override_value ov d")
  case None
  with apply_one_wt [OF assms, of ov cb s] assms(3) have
    "apply_one t ov cb d (m, s) = Inr (m, log_one ov cb d s) \<and> wt_mem (\<Gamma> @ []) t m" by auto
  then have "\<exists>\<Delta> m' s'. apply_one t ov cb d (m, s) = Inr (m', s') \<and> wt_mem (\<Gamma> @ \<Delta>) t m'" by blast
  with None show ?thesis by simp
next
  case (Some r)
  obtain x xt where "r = (x, xt)" by fastforce
  with Some have o: "override_value ov d = Some (x, xt)" by simp
  with apply_one_wt [OF assms, of ov cb s] obtain f where f: "leaf_field t d = Some f" "fd_type d = elem_once (sf_type f)"
    and one: "if xt = sf_type f
      then (\<exists>\<Delta> m'. apply_one t ov cb d (m, s) = Inr (m', log_one ov cb d s) \<and> wt_mem (\<Gamma> @ \<Delta>) t m')
      else apply_one t ov cb d (m, s) = Inl (PanicSet xt (sf_type f))" by auto
  have "settable_field t d \<longleftrightarrow> xt = sf_type f"
    using parsed_type_iff [OF o f(2)] f(1) by (simp add: settable_field_def)
  with one o f(1) show ?thesis by (cases "xt = sf_type f") (simp_all, blast)
qed

lemma apply_loop_outcome:
  assumes cat: "build_catalog (Some t) = Inr cat"
  shows "set ds \<subseteq> set cat \<Longrightarrow> wt_mem \<Gamma> t m \<Longrightarrow>
     (case find (\<lambda>d. \<not> settable_field t d \<and> override_value ov d \<noteq> None) ds of
        None \<Rightarrow> \<exists>r. apply_loop t ov cb ds (m, s) = Inr r
      | Some d \<Rightarrow> \<exists>x xt f. override_value ov d = Some (x, xt) \<and> leaf_field t d = Some f
          \<and> apply_loop t ov cb ds (m, s) = Inl (PanicSet xt (sf_type f)))"
proof (induction ds arbitrary: m s \<Gamma>)
  case (Cons d ds)
  then have d: "d \<in> set cat" by simp
  show ?case
  proof (cases "\<not> settable_field t d \<and> override_value ov d \<noteq> None")
    case True
    with apply_one_outcome [OF cat d Cons.prems(2), of ov cb s] show ?thesis by auto
  next
    case False
    with apply_one_outcome [OF cat d Cons.prems(2), of ov cb s]
    obtain \<Delta> m' s' where a: "apply_one t ov cb d (m, s) = Inr (m', s')" "wt_mem (\<Gamma> @ \<Delta>) t m'"
      by (simp only: if_False) blast
    from Cons.IH [OF _ a(2), of s'] Cons.prems(1) a(1) False show ?thesis by (auto split: option.splits)
  qed
qed simp

text \<open>C16: When applying overrides panics, and where. Catalog construction accepts a managed
  field declared as a pointer to a supported leaf type, or as a slice of a named string type
  (\<^verbatim>\<open>[]Host\<close> with \<^verbatim>\<open>type Host string\<close>), but \<^verbatim>\<open>reflect.Value.Set\<close> refuses the parsed value for it. For
  every config that passes construction, every base value well typed for it and every
  set of overrides, the loop panics if and only if some such field has an override that
  parses, and then the panic is the one of \<^verbatim>\<open>Set\<close> at the first such field in catalog
  order, with the type of the parsed value and the declared type of that field.\<close>

theorem unsettable_override_panics:
  assumes "build_catalog (Some t) = Inr cat" "wt \<Gamma> t base" "list_all2 (wt \<Gamma>) \<Gamma> h"
  shows "case find (\<lambda>d. \<not> settable_field t d \<and> override_value ov d \<noteq> None) cat of
     None \<Rightarrow> \<exists>h' v s'. apply_overrides t h base ov cat cb s = Inr (h', v, s')
   | Some d \<Rightarrow> \<exists>x xt f. override_value ov d = Some (x, xt) \<and> leaf_field t d = Some f
       \<and> apply_overrides t h base ov cat cb s = Inl (PanicSet xt (sf_type f))"
proof -
  have "wt_mem \<Gamma> t \<lparr>root = base, heap = h\<rparr>" using assms(2,3) by (simp add: wt_mem_def)
  from apply_loop_outcome [OF assms(1) subset_refl this, of ov cb s] show ?thesis
    by (auto simp: apply_overrides_def split: option.splits)
qed

text \<open>A config with both kinds of field, \<^verbatim>\<open>Name *string\<close> and \<^verbatim>\<open>Hosts []Host\<close>.\<close>

definition unset_type :: gtype where
  "unset_type = TStruct ''main.Config''
     [GField ''Name'' [] (TPtr go_string) ''json:\"name\" dyn:\"live\"'',
      GField ''Hosts'' [] (TSlice (TBasic ''main.Host'' KString)) ''json:\"hosts\" dyn:\"live\"'']"

definition unset_name :: field_descriptor where
  "unset_name = \<lparr>fd_key = ''name'', fd_description = [], fd_type_name = ''string'',
     fd_strategy = ReloadStrategyLive, fd_indices = [0], fd_type = go_string\<rparr>"

definition unset_hosts :: field_descriptor where
  "unset_hosts = \<lparr>fd_key = ''hosts'', fd_description = [], fd_type_name = ''[]main.Host'',
     fd_strategy = ReloadStrategyLive, fd_indices = [1], fd_type = TSlice (TBasic ''main.Host'' KString)\<rparr>"

lemma unset_build: "build_catalog (Some unset_type) = Inr [unset_name, unset_hosts]"
  by code_simp

theorem unsettable_override_panics_witness:
  "apply_overrides unset_type [] (VStruct [VPtr None, VStrs None]) [''name'' \<mapsto> ''x'']
      [unset_name, unset_hosts] None () = Inl (PanicSet go_string (TPtr go_string))
   \<and> apply_overrides unset_type [] (VStruct [VPtr None, VStrs None]) [''hosts'' \<mapsto> ''a'']
      [unset_name, unset_hosts] None () = Inl (PanicSet (TSlice go_string) (TSlice (TBasic ''main.Host'' KString)))"
proof -
  have w: "wt [] unset_type (VStruct [VPtr None, VStrs None])"
    by (auto simp: unset_type_def kind_string_def intro!: wt.intros)
  have leaves: "leaf_field unset_type unset_name = Some (GField ''Name'' [] (TPtr go_string) ''json:\"name\" dyn:\"live\"'')"
    "leaf_field unset_type unset_hosts =
       Some (GField ''Hosts'' [] (TSlice (TBasic ''main.Host'' KString)) ''json:\"hosts\" dyn:\"live\"'')"
    by (simp_all add: leaf_field_def unset_type_def unset_name_def unset_hosts_def)
  have "\<not> settable_field unset_type unset_name" "\<not> settable_field unset_type unset_hosts"
    by (simp_all add: settable_field_def leaves direct_leaf_def go_string_def)
  moreover have "override_value [''name'' \<mapsto> ''x''] unset_name = Some (VStr ''x'', go_string)"
    by (simp add: override_value_def unset_name_def parse_field_value_def go_string_def)
  moreover have "override_value [''hosts'' \<mapsto> ''a''] unset_name = None"
    by (simp add: override_value_def unset_name_def)
  moreover have "override_value [''hosts'' \<mapsto> ''a''] unset_hosts = Some (VStrs (Some [''a'']), TSlice go_string)"
    by code_simp
  ultimately show ?thesis
    using unsettable_override_panics [OF unset_build w, of "[]" "[''name'' \<mapsto> ''x'']" None "()"]
      unsettable_override_panics [OF unset_build w, of "[]" "[''hosts'' \<mapsto> ''a'']" None "()"]
    by (simp add: leaves)
qed

subsection \<open>Reload strategies\<close>

text \<open>The reload strategies play no part in applying overrides: whatever strategies the
  descriptors carry, the loop gives the same result, so a restart-required field changes
  in the running snapshot like a live one.\<close>

theorem strategy_ignored:
  "apply_overrides t h base ov (map (\<lambda>d. d\<lparr>fd_strategy := f d\<rparr>) cat) cb s =
   apply_overrides t h base ov cat cb s"
proof -
  have "apply_one t ov cb (d\<lparr>fd_strategy := st\<rparr>) ms = apply_one t ov cb d ms" for d st ms
    by (cases ms) (simp add: apply_one_def split: option.split sum.split)
  then have "apply_loop t ov cb (map (\<lambda>d. d\<lparr>fd_strategy := f d\<rparr>) cat) ms = apply_loop t ov cb cat ms" for ms
  proof (induction cat arbitrary: ms)
    case (Cons d ds)
    then show ?case by (cases "apply_one t ov cb d ms") simp_all
  qed simp
  then show ?thesis by (simp add: apply_overrides_def)
qed

subsection \<open>Parsing\<close>



text \<open>A whole number of any unit round-trips as a duration: the decimal number followed by
  the unit parses to that many nanoseconds, as long as they fit in 63 bits.\<close>

theorem duration_round_trip:
  assumes "unit_ns u = Some k" "u \<noteq> []" "list_all unit_char u" "int (n * k) < 2 ^ 63"
  shows "parse_field_value (show_nat n @ u) TDuration = Inr (VInt (int (n * k)), TDuration)"
proof -
  have nk: "n * k < 2 ^ 63" using assms(4) of_nat_less_iff [of "n * k" "2 ^ 63", where 'a = int] by simp
  then have l: "duration_loop 0 (show_nat n @ u) = Some (n * k)"
    using assms(1-3) by (intro duration_loop_unit) (simp_all add: max63_def)
  obtain c cs where cs: "show_nat n = c # cs" "is_digit c"
    using show_nat_digits [of n] by (cases "show_nat n") auto
  then have "strip_sign (show_nat n @ u) = (False, show_nat n @ u)"
    by (auto simp: strip_sign_def is_digit_def)
  moreover have "show_nat n @ u \<noteq> ''0''" "show_nat n @ u \<noteq> []" using cs assms(2) by auto
  moreover have "\<not> max63 - 1 < n * k" using nk by (simp add: max63_def)
  ultimately have "parse_duration (show_nat n @ u) = Some (int (n * k))"
    using l by (simp add: parse_duration_def del: of_nat_mult)
  then show ?thesis by (simp add: parse_field_value_def)
qed

theorem duration_round_trip_witness:
  "parse_field_value (show_nat 90 @ ''m'') TDuration = Inr (VInt 5400000000000, TDuration)"
proof -
  have "unit_ns ''m'' = Some 60000000000" by (simp add: unit_ns_def)
  moreover have "list_all unit_char ''m''" by (simp add: unit_char_def is_digit_def)
  ultimately show ?thesis using duration_round_trip [of "''m''" 60000000000 90] by simp
qed

text \<open>Comma lists round-trip: non-empty trimmed elements without commas, joined by commas,
  parse back to the same list (for a text that is itself trimmed and does not start like a
  JSON array).\<close>

theorem comma_list_round_trip:
  assumes "ps \<noteq> []" "list_all (\<lambda>p. p \<noteq> [] \<and> CHR '','' \<notin> set p \<and> trim_space p = p) ps"
    and "trim_space (join_with CHR '','' ps) = join_with CHR '','' ps"
    and "\<not> has_prefix (join_with CHR '','' ps) ''[''"
  shows "parse_field_value (join_with CHR '','' ps) (TSlice go_string) =
     Inr (VStrs (Some ps), TSlice go_string)"
proof -
  have sp: "split_on CHR '','' (join_with CHR '','' ps) = ps"
    using assms(1,2) by (intro split_on_join) (auto simp: list_all_iff)
  have "filter (\<lambda>p. p \<noteq> []) (map trim_space ps) = ps"
    using assms(2) by (induction ps) auto
  moreover have "join_with CHR '','' ps \<noteq> []"
  proof
    assume "join_with CHR '','' ps = []"
    with sp have "ps = [[]]" by simp
    with assms(2) show False by simp
  qed
  ultimately have "parse_string_slice (join_with CHR '','' ps) = Some (Some ps)"
    using assms(1,3,4) sp by (simp add: parse_string_slice_def)
  then show ?thesis by (simp add: parse_field_value_def go_string_def kind_string_def)
qed

theorem comma_list_round_trip_witness:
  "parse_field_value ''a,bc'' (TSlice go_string) = Inr (VStrs (Some [''a'', ''bc'']), TSlice go_string)"
proof -
  have j: "join_with CHR '','' [''a'', ''bc''] = ''a,bc''" by simp
  have t: "trim_space ''a'' = ''a''" "trim_space ''bc'' = ''bc''" "trim_space ''a,bc'' = ''a,bc''"
    by code_simp+
  have "\<not> has_prefix ''a,bc'' ''[''" by code_simp
  with comma_list_round_trip [of "[''a'', ''bc'']"] j t show ?thesis by simp
qed

text \<open>JSON arrays round-trip: the JSON encoding of any list of Unicode strings parses to the
  list of their UTF-8 forms, whatever characters they contain.\<close>

theorem json_list_round_trip:
  assumes "list_all (list_all valid_rune) xs"
  shows "parse_field_value (json_encode xs) (TSlice go_string) =
     Inr (VStrs (Some (map utf8_string xs)), TSlice go_string)"
proof -
  have "trim_space (json_encode xs) = json_encode xs"
    by (rule trim_space_id) (simp_all add: json_encode_def space_len_ascii ascii_space_def)
  moreover have "has_prefix (json_encode xs) ''[''" by (simp add: json_encode_def has_prefix_def)
  ultimately have "parse_string_slice (json_encode xs) = Some (Some (map utf8_string xs))"
    using json_strings_encode [OF assms] by (simp add: parse_string_slice_def)
  then show ?thesis by (simp add: parse_field_value_def go_string_def kind_string_def)
qed

theorem json_list_round_trip_witness:
  "parse_field_value (json_encode [[97, 44, 34], [233]]) (TSlice go_string) =
     Inr (VStrs (Some [utf8_string [97, 44, 34], utf8_string [233]]), TSlice go_string)"
proof -
  have "list_all (list_all valid_rune) [[97, 44, 34], [233]]" by (simp add: valid_rune_def)
  then show ?thesis using json_list_round_trip [of "[[97, 44, 34], [233]]"] by simp
qed

end
