(* ===== verification/Override_Shared.thy ===== *)
theory Override_Shared
  imports Override_Props
begin

text \<open>
  The shallow copy of the base: an override of a field behind non-nil pointers is written
  into the cell the base itself points to, and stays there. The lemmas say that writing a
  leaf changes no pointer that leads to it, so navigation in the written memory goes to
  the same place.
\<close>

subsection \<open>Writing a leaf\<close>

lemma put_put: "put_path (put_path v p x) p y = put_path v p y"
  by (induction v p x rule: put_path.induct) auto

lemma write_write: "write_loc (write_loc m l x) l y = write_loc m l y"
proof (cases "fst l")
  case (Cell a)
  then show ?thesis by (cases "a < length (heap m)") (simp_all add: write_loc_def put_put list_update_beyond)
qed (simp add: write_loc_def put_put)

lemma read_write_same: "read_loc m l = Some w \<Longrightarrow> read_loc (write_loc m l x) l = Some x"
  by (cases "fst l") (auto simp: read_loc_def write_loc_def get_put_same split: if_splits)

lemma length_heap_write [simp]: "length (heap (write_loc m l x)) = length (heap m)"
  by (simp add: write_loc_def split: place.splits)

text \<open>A location of a type that is neither a struct nor a pointer is apart from every location
  of a pointer.\<close>

definition leaf_type :: "gtype \<Rightarrow> bool" where
  "leaf_type u = (case u of TStruct _ _ \<Rightarrow> False | TPtr _ \<Rightarrow> False | _ \<Rightarrow> True)"

lemma type_path_leaf: "leaf_type u \<Longrightarrow> type_path u r = Some u' \<Longrightarrow> r = [] \<and> u' = u"
  by (cases r; cases u) (auto simp: leaf_type_def)

lemma type_path_ptr: "type_path (TPtr u) r = Some u' \<Longrightarrow> r = [] \<and> u' = TPtr u"
  by (cases r) auto

lemma read_write_apart:
  assumes "type_loc \<Gamma> t l = Some u" "leaf_type u" "type_loc \<Gamma> t l' = Some (TPtr u')"
  shows "read_loc (write_loc m l x) l' = read_loc m l'"
proof -
  have apart: "get_path (put_path v p x) q = get_path v q"
    if "type_path T p = Some u" "type_path T q = Some (TPtr u')" for T p q v
  proof (rule get_put_other)
    show "\<not> (\<exists>r. q = p @ r)"
      using that assms(2) by (auto simp: type_path_append leaf_type_def dest!: type_path_leaf [OF assms(2)])
    show "\<not> (\<exists>r. p = q @ r)"
      using that type_path_ptr assms(2) by (auto simp: type_path_append leaf_type_def dest!: type_path_ptr)
  qed
  show ?thesis
  proof (cases "fst l = fst l'")
    case True
    with assms(1,3) apart show ?thesis
      by (auto simp: type_loc_def read_loc_def write_loc_def split: place.splits if_splits)
  next
    case False
    then show ?thesis by (auto simp: read_loc_def write_loc_def split: place.splits)
  qed
qed

subsection \<open>Navigation through non-nil pointers\<close>

lemma rderef_grows:
  "rderef m v = Inr (m', v') \<Longrightarrow> length (heap m) \<le> length (heap m') \<and> (length (heap m') = length (heap m) \<longrightarrow> m' = m)"
  by (auto simp: rderef_def new_cell_def Let_def split: gtype.splits option.splits gval.splits if_splits)

lemma navigate_grows: "navigate_field m v p = Inr (m', v') \<Longrightarrow> length (heap m) \<le> length (heap m')"
proof (induction p arbitrary: m v)
  case (Cons i p)
  then obtain m1 v1 v2 where "rderef m v = Inr (m1, v1)" "navigate_field m1 v2 p = Inr (m', v')"
    by (auto simp: bind_res_Inr_iff)
  with rderef_grows [of m v m1 v1] Cons.IH [of m1 v2] show ?case by simp
qed simp

lemma rderef_write:
  assumes "rderef m v = Inr (m, v1)" "wt_mem \<Gamma> t m" "type_loc \<Gamma> t (rloc v) = Some (rtype v)"
    and "type_loc \<Gamma> t l = Some u" "leaf_type u"
  shows "rderef (write_loc m l x) v = Inr (write_loc m l x, v1) \<and> type_loc \<Gamma> t (rloc v1) = Some (rtype v1)"
proof (cases "rtype v")
  case (TPtr w)
  with assms(3) have vt: "type_loc \<Gamma> t (rloc v) = Some (TPtr w)" by simp
  from read_loc_wt [OF assms(2) this] obtain y where y: "read_loc m (rloc v) = Some y" "wt \<Gamma> (TPtr w) y" by blast
  have same: "read_loc (write_loc m l x) (rloc v) = Some y"
    using read_write_apart [OF assms(4,5) vt] y(1) by simp
  show ?thesis
  proof (cases "y = VPtr None")
    case True
    with assms(1) TPtr y(1) have "length (heap m) = Suc (length (heap m))"
      by (auto simp: rderef_def new_cell_def Let_def split: if_splits dest!: arg_cong [of _ _ "\<lambda>m. length (heap m)"])
    then show ?thesis by simp
  next
    case False
    with y(2) obtain a where a: "y = VPtr (Some a)" "a < length \<Gamma>" "\<Gamma> ! a = w" by (auto simp: wt_ptr_iff)
    with assms(1) TPtr y(1) same show ?thesis by (auto simp: rderef_def type_loc_def)
  qed
qed (use assms in \<open>auto simp: rderef_def\<close>)

lemma rfield_type_loc:
  "rfield v i = Inr v' \<Longrightarrow> type_loc \<Gamma> t (rloc v) = Some (rtype v) \<Longrightarrow> type_loc \<Gamma> t (rloc v') = Some (rtype v')"
  by (auto simp: rfield_def type_loc_def type_path_append split: gtype.splits place.splits if_splits)

lemma navigate_write:
  assumes "wt_mem \<Gamma> t m" "type_loc \<Gamma> t l = Some u" "leaf_type u"
  shows "navigate_field m v p = Inr (m, v') \<Longrightarrow> type_loc \<Gamma> t (rloc v) = Some (rtype v)
    \<Longrightarrow> navigate_field (write_loc m l x) v p = Inr (write_loc m l x, v')"
proof (induction p arbitrary: v)
  case (Cons i p)
  then obtain m1 v1 v2 where n: "rderef m v = Inr (m1, v1)" "rfield v1 i = Inr v2" "navigate_field m1 v2 p = Inr (m, v')"
    by (auto simp: bind_res_Inr_iff)
  have "m1 = m" using rderef_grows [OF n(1)] navigate_grows [OF n(3)] by simp
  with n have n': "rderef m v = Inr (m, v1)" "navigate_field m v2 p = Inr (m, v')" by simp_all
  note d = rderef_write [OF n'(1) assms(1) Cons.prems(2) assms(2,3), of x]
  with Cons.IH [OF n'(2)] rfield_type_loc [OF n(2)] n(2) show ?case by simp
qed simp

subsection \<open>The property\<close>

text \<open>What a config (its variable and the heap) shows for a managed field, read through the
  pointers on the way, and the condition that all of these are non-nil and there is one.\<close>

definition field_value :: "gtype \<Rightarrow> gval list \<Rightarrow> gval \<Rightarrow> field_descriptor \<Rightarrow> gval option" where
  "field_value t h v d =
     (case navigate_field \<lparr>root = v, heap = h\<rparr> (root_rval t) (fd_indices d) of
        Inl _ \<Rightarrow> None
      | Inr (m, f) \<Rightarrow> read_loc m (rloc f))"

definition behind_pointer :: "gtype \<Rightarrow> gval list \<Rightarrow> gval \<Rightarrow> field_descriptor \<Rightarrow> bool" where
  "behind_pointer t h v d =
     (case navigate_field \<lparr>root = v, heap = h\<rparr> (root_rval t) (fd_indices d) of
        Inl _ \<Rightarrow> False
      | Inr (m, f) \<Rightarrow> m = \<lparr>root = v, heap = h\<rparr> \<and> fst (rloc f) \<noteq> Root)"

lemma apply_loop_only:
  assumes "\<And>d'. d' \<in> set ds \<Longrightarrow> d' = d \<or> ov (fd_key d') = None"
    and "apply_one t ov cb d (m, s) = Inr (m1, s)" "apply_one t ov cb d (m1, s) = Inr (m1, s)"
  shows "apply_loop t ov cb ds (m1, s) = Inr (m1, s)
    \<and> apply_loop t ov cb ds (m, s) = Inr (if d \<in> set ds then m1 else m, s)"
  using assms(1)
proof (induction ds)
  case (Cons e ds)
  then have IH: "apply_loop t ov cb ds (m1, s) = Inr (m1, s)"
    "apply_loop t ov cb ds (m, s) = Inr (if d \<in> set ds then m1 else m, s)" by simp_all
  show ?case
  proof (cases "e = d")
    case True
    with IH assms(2,3) show ?thesis by simp
  next
    case False
    with Cons.prems [of e] have "apply_one t ov cb e (m', s) = Inr (m', s)" for m'
      by (auto simp: apply_one_def)
    with IH False show ?thesis by simp
  qed
qed simp

lemma apply_loop_empty: "apply_loop t Map.empty cb ds (m, s) = Inr (m, s)"
  by (induction ds) (simp_all add: apply_one_def)

lemma field_write:
  assumes "build_catalog (Some t) = Inr cat" "d \<in> set cat" "settable_field t d" "wt_mem \<Gamma> t m"
    and "navigate_field m (root_rval t) (fd_indices d) = Inr (m, f)" "override_value ov d = Some (x, xt)"
  shows "navigate_field (write_loc m (rloc f) y) (root_rval t) (fd_indices d) = Inr (write_loc m (rloc f) y, f)
    \<and> read_loc (write_loc m (rloc f) y) (rloc f) = Some y \<and> \<not> rro f \<and> xt = rtype f"
proof -
  obtain g \<Delta> where g: "leaf_field t d = Some g" "fd_type d = elem_once (sf_type g)"
    "wt_mem (\<Gamma> @ \<Delta>) t m" "rv_ok (\<Gamma> @ \<Delta>) t f" "rtype f = sf_type g"
    using navigate_desc_wt [OF assms(1,2,4)] assms(5) by auto
  have dir: "direct_leaf (sf_type g)" using assms(3) g(1) by (simp add: settable_field_def)
  have "xt = sf_type g" using parsed_type_iff [OF assms(6) g(2)] dir by simp
  have "is_supported_leaf_type (fd_type d)"
    using assms(6) by (auto simp: override_value_def dest: parse_field_value_supported split: option.splits sum.splits)
  then have leaf: "leaf_type (rtype f)"
    using dir g(2,5) by (auto simp: direct_leaf_def leaf_type_def is_supported_leaf_type_def split: gtype.splits)
  have loc: "type_loc (\<Gamma> @ \<Delta>) t (rloc f) = Some (rtype f)" "\<not> rro f" using g(4) by (auto simp: rv_ok_def)
  have "type_loc (\<Gamma> @ \<Delta>) t (rloc (root_rval t)) = Some (rtype (root_rval t))"
    by (simp add: root_rval_def type_loc_def)
  from navigate_write [OF g(3) loc(1) leaf assms(5) this] read_loc_wt [OF g(3) loc(1)] loc(2) \<open>xt = sf_type g\<close> g(5)
  show ?thesis by (auto simp: read_write_same)
qed

text \<open>C17: The copy of the base is shallow, so an override of a field behind a pointer is
  permanent. For every config that passes construction, every base value well typed
  for it, every managed field that \<^verbatim>\<open>Set\<close> accepts and that is reached through at least one
  pointer, none of them nil, and every text that parses for it: applying this one override
  changes the pointed-to cell of the base itself, the base then shows the override, and a
  later run without any override gives back a config that still shows it, so deleting the
  override from the store does not bring the base value back. (When the keys of the
  managed fields are distinct; two fields with the field's key would both be set.)\<close>

theorem nested_pointer_base_mutated:
  assumes "build_catalog (Some t) = Inr cat" "d \<in> set cat" "\<forall>d' \<in> set cat. fd_key d' = fd_key d \<longrightarrow> d' = d"
    and "wt \<Gamma> t base" "list_all2 (wt \<Gamma>) \<Gamma> h"
    and "settable_field t d" "behind_pointer t h base d"
    and "parse_field_value raw (fd_type d) = Inr (x, xt)"
  shows "\<exists>h1. apply_overrides t h base [fd_key d \<mapsto> raw] cat cb s = Inr (h1, base, s)
     \<and> field_value t h1 base d = Some x
     \<and> apply_overrides t h1 base Map.empty cat cb s = Inr (h1, base, s)"
proof -
  let ?m = "\<lparr>root = base, heap = h\<rparr>"
  let ?ov = "[fd_key d \<mapsto> raw]"
  have wtm: "wt_mem \<Gamma> t ?m" using assms(4,5) by (simp add: wt_mem_def)
  obtain f where nav: "navigate_field ?m (root_rval t) (fd_indices d) = Inr (?m, f)" and cell: "fst (rloc f) \<noteq> Root"
    using assms(7) by (auto simp: behind_pointer_def split: sum.splits)
  let ?m1 = "write_loc ?m (rloc f) x"
  have ov: "override_value ?ov d = Some (x, xt)" using assms(8) by (simp add: override_value_def)
  note w = field_write [OF assms(1,2,6) wtm nav ov, of x]
  have log: "log_one ?ov cb d s = s" using assms(8) by (simp add: log_one_def)
  have one: "apply_one t ?ov cb d (?m, s) = Inr (?m1, s)"
    using apply_one_set [OF ov nav, of cb s] w log by simp
  have "apply_one t ?ov cb d (?m1, s) = Inr (?m1, s)"
    using apply_one_set [OF ov conjunct1 [OF w], of cb s] w log by (simp add: write_write)
  from apply_loop_only [where ds = cat, OF _ one this] assms(2,3)
  have "apply_loop t ?ov cb cat (?m, s) = Inr (?m1, s)" by auto
  moreover have r: "root ?m1 = base" using cell by (simp add: write_loc_def split: place.splits)
  then have m1: "\<lparr>root = base, heap = heap ?m1\<rparr> = ?m1" by simp
  ultimately show ?thesis using w
    by (intro exI [of _ "heap ?m1"])
       (auto simp: apply_overrides_def field_value_def apply_loop_empty m1 r)
qed

text \<open>The base's \<^verbatim>\<open>Jira\<close> field points to a struct whose URL is \<open>''old''\<close>.\<close>

definition nested_ptr_type :: gtype where
  "nested_ptr_type = TStruct ''main.Config'' [GField ''Jira'' []
     (TPtr (TStruct ''main.Jira'' [GField ''URL'' [] go_string ''json:\"url\" dyn:\"live\"''])) ''json:\"jira\"'']"

definition nested_ptr_desc :: field_descriptor where
  "nested_ptr_desc = \<lparr>fd_key = ''jira.url'', fd_description = [], fd_type_name = ''string'',
     fd_strategy = ReloadStrategyLive, fd_indices = [0, 0], fd_type = go_string\<rparr>"

lemma nested_ptr_build: "build_catalog (Some nested_ptr_type) = Inr [nested_ptr_desc]"
  by code_simp

lemma nested_ptr_wt:
  "wt [TStruct ''main.Jira'' [GField ''URL'' [] go_string ''json:\"url\" dyn:\"live\"'']] nested_ptr_type (VStruct [VPtr (Some 0)])"
  by (auto simp: nested_ptr_type_def go_string_def intro!: wt.intros)

theorem nested_pointer_base_mutated_witness:
  "field_value nested_ptr_type [VStruct [VStr ''old'']] (VStruct [VPtr (Some 0)]) nested_ptr_desc = Some (VStr ''old'')
   \<and> (\<exists>h1. apply_overrides nested_ptr_type [VStruct [VStr ''old'']] (VStruct [VPtr (Some 0)])
             [''jira.url'' \<mapsto> ''new''] [nested_ptr_desc] None () = Inr (h1, VStruct [VPtr (Some 0)], ())
        \<and> field_value nested_ptr_type h1 (VStruct [VPtr (Some 0)]) nested_ptr_desc = Some (VStr ''new'')
        \<and> apply_overrides nested_ptr_type h1 (VStruct [VPtr (Some 0)]) Map.empty [nested_ptr_desc] None ()
            = Inr (h1, VStruct [VPtr (Some 0)], ()))"
proof -
  let ?h = "[VStruct [VStr ''old'']]" and ?base = "VStruct [VPtr (Some 0)]"
  have cell: "list_all2 (wt [TStruct ''main.Jira'' [GField ''URL'' [] go_string ''json:\"url\" dyn:\"live\"'']])
      [TStruct ''main.Jira'' [GField ''URL'' [] go_string ''json:\"url\" dyn:\"live\"'']] ?h"
    by (auto simp: go_string_def intro!: wt.intros)
  have k: "nested_ptr_desc \<in> set [nested_ptr_desc]"
    "\<forall>d' \<in> set [nested_ptr_desc]. fd_key d' = fd_key nested_ptr_desc \<longrightarrow> d' = nested_ptr_desc" by simp_all
  have old: "settable_field nested_ptr_type nested_ptr_desc" "behind_pointer nested_ptr_type ?h ?base nested_ptr_desc"
    "field_value nested_ptr_type ?h ?base nested_ptr_desc = Some (VStr ''old'')"
    by code_simp+
  have "parse_field_value ''new'' (fd_type nested_ptr_desc) = Inr (VStr ''new'', go_string)"
    by (simp add: parse_field_value_def nested_ptr_desc_def go_string_def)
  from nested_pointer_base_mutated [OF nested_ptr_build k nested_ptr_wt cell old(1,2) this, of None "()"] old(3)
  show ?thesis by (simp add: nested_ptr_desc_def)
qed

end
