(* ===== verification/Channels.thy ===== *)
theory Channels
  imports LC_Prelude
begin

text \<open>
  Buffered Go channels: contents oldest first, capacity and the closed flag. Sending on
  a closed channel and closing twice panic. \<open>try_send\<close> is the \<^verbatim>\<open>select\<close> with a
  \<^verbatim>\<open>default\<close> case, which drops the value when the buffer is full; a receiver that is
  already waiting is a receive that follows the send at once.

  The locale \<open>lossy_channel\<close> is the interface the two fan-out loops of the program rely on
  (\<open>MemStore.broadcast\<close> and \<open>Provider.notifySubscribers\<close>).
\<close>

record 'a gochan =
  buf :: "'a list"
  cap :: nat
  closed :: bool

datatype chan_panic = SendOnClosed | CloseOfClosed

definition make_chan :: "nat \<Rightarrow> 'a gochan" where
  "make_chan n = \<lparr>buf = [], cap = n, closed = False\<rparr>"

definition has_room :: "'a gochan \<Rightarrow> bool" where
  "has_room c \<longleftrightarrow> length (buf c) < cap c"

definition chan_open :: "'a gochan \<Rightarrow> bool" where
  "chan_open c \<longleftrightarrow> \<not> closed c"

definition try_send :: "'a \<Rightarrow> 'a gochan \<Rightarrow> chan_panic + 'a gochan" where
  "try_send v c =
     (if closed c then Inl SendOnClosed
      else if has_room c then Inr (c\<lparr>buf := buf c @ [v]\<rparr>) else Inr c)"

definition close_chan :: "'a gochan \<Rightarrow> chan_panic + 'a gochan" where
  "close_chan c = (if closed c then Inl CloseOfClosed else Inr (c\<lparr>closed := True\<rparr>))"

text \<open>A receive: a value, or \<open>None\<close> for the zero value of a closed, drained channel.\<close>

datatype 'a received = Got 'a | Drained | Blocks

definition recv :: "'a gochan \<Rightarrow> 'a received \<times> 'a gochan" where
  "recv c =
     (case buf c of
        v # vs \<Rightarrow> (Got v, c\<lparr>buf := vs\<rparr>)
      | [] \<Rightarrow> (if closed c then Drained else Blocks, c))"

subsection \<open>Fan-out over a set of channels\<close>

text \<open>Channels are shared by reference: a channel table maps their identities to them.\<close>

type_synonym 'c chan_table = "nat \<Rightarrow> 'c"

fun fan_out :: "('e \<Rightarrow> 'c \<Rightarrow> 'p + 'c) \<Rightarrow> 'e \<Rightarrow> nat list \<Rightarrow> 'c chan_table \<Rightarrow> 'p + 'c chan_table" where
  "fan_out offer e [] tab = Inr tab"
| "fan_out offer e (i # is) tab =
     bind_res (offer e (tab i)) (\<lambda>c. fan_out offer e is (tab(i := c)))"

locale lossy_channel =
  fixes offer :: "'e \<Rightarrow> 'c \<Rightarrow> 'p + 'c"
    and contents :: "'c \<Rightarrow> 'e list"
    and room :: "'c \<Rightarrow> bool"
    and live :: "'c \<Rightarrow> bool"
  assumes offer_room: "live c \<Longrightarrow> room c \<Longrightarrow>
      \<exists>c'. offer e c = Inr c' \<and> live c' \<and> contents c' = contents c @ [e]"
    and offer_full: "live c \<Longrightarrow> \<not> room c \<Longrightarrow> offer e c = Inr c"
begin

lemma offer_live:
  assumes "live c"
  shows "\<exists>c'. offer e c = Inr c' \<and> live c'
    \<and> contents c' = (if room c then contents c @ [e] else contents c)"
proof (cases "room c")
  case True
  with offer_room [OF assms True, of e] show ?thesis by auto
next
  case False
  with offer_full [OF assms False] assms show ?thesis by simp
qed

text \<open>
  Delivery to distinct live channels never panics; every addressed channel gets the
  event or was full, and no other channel changes.
\<close>

lemma fan_out_live:
  assumes "distinct is" "\<And>i. i \<in> set is \<Longrightarrow> live (tab i)"
  shows "\<exists>tab'. fan_out offer e is tab = Inr tab'
     \<and> (\<forall>i. i \<in> set is \<longrightarrow> live (tab' i)
          \<and> contents (tab' i) = (if room (tab i) then contents (tab i) @ [e] else contents (tab i)))
     \<and> (\<forall>i. i \<notin> set is \<longrightarrow> tab' i = tab i)"
  using assms
proof (induction "is" arbitrary: tab)
  case Nil
  then show ?case by simp
next
  case (Cons j js)
  obtain c where c: "offer e (tab j) = Inr c" "live c"
    "contents c = (if room (tab j) then contents (tab j) @ [e] else contents (tab j))"
    using offer_live Cons.prems(2) [of j] by auto
  have l: "live ((tab(j := c)) i)" if "i \<in> set js" for i using Cons.prems(2) [of i] that c(2) by auto
  have "distinct js" using Cons.prems(1) by simp
  from Cons.IH [of "tab(j := c)", OF this l] obtain tab' where t: "fan_out offer e js (tab(j := c)) = Inr tab'"
    "\<forall>i. i \<in> set js \<longrightarrow> live (tab' i) \<and> contents (tab' i) =
      (if room ((tab(j := c)) i) then contents ((tab(j := c)) i) @ [e] else contents ((tab(j := c)) i))"
    "\<forall>i. i \<notin> set js \<longrightarrow> tab' i = (tab(j := c)) i"
    by blast
  moreover have "i \<in> set js \<Longrightarrow> (tab(j := c)) i = tab i" for i using Cons.prems(1) by auto
  ultimately show ?case using c Cons.prems(1)
    by (intro exI [of _ tab']) auto
qed

end

interpretation go_chan: lossy_channel try_send buf has_room chan_open
  by unfold_locales (auto simp: try_send_def has_room_def chan_open_def)

subsection \<open>Laws of the concrete channel\<close>

lemma try_send_open:
  "\<not> closed c \<Longrightarrow> try_send v c = Inr (if has_room c then c\<lparr>buf := buf c @ [v]\<rparr> else c)"
  by (simp add: try_send_def)

definition chan_ok :: "'a gochan \<Rightarrow> bool" where
  "chan_ok c \<longleftrightarrow> length (buf c) \<le> cap c"

lemma chan_ok_make [simp]: "chan_ok (make_chan n)"
  by (simp add: chan_ok_def make_chan_def)

lemma chan_ok_closed [simp]: "chan_ok (c\<lparr>closed := b\<rparr>) = chan_ok c"
  by (simp add: chan_ok_def)

lemma chan_ok_try_send: "chan_ok c \<Longrightarrow> try_send v c = Inr c' \<Longrightarrow> chan_ok c' \<and> cap c' = cap c"
  by (auto simp: chan_ok_def try_send_def has_room_def split: if_splits)

lemma chan_ok_close: "close_chan c = Inr c' \<Longrightarrow> chan_ok c' = chan_ok c \<and> cap c' = cap c"
  by (auto simp: chan_ok_def close_chan_def split: if_splits)

lemma chan_ok_recv: "chan_ok c \<Longrightarrow> chan_ok (snd (recv c)) \<and> cap (snd (recv c)) = cap c"
  by (auto simp: chan_ok_def recv_def split: list.splits)

lemma recv_closed [simp]: "closed (snd (recv c)) = closed c"
  by (simp add: recv_def split: list.split)

lemma fan_out_caps:
  "(\<forall>i. chan_ok (tab i)) \<Longrightarrow> fan_out try_send e is tab = Inr tab' \<Longrightarrow>
   \<forall>i. chan_ok (tab' i) \<and> cap (tab' i) = cap (tab i)"
proof (induction "is" arbitrary: tab)
  case (Cons j js)
  then obtain c where c: "try_send e (tab j) = Inr c" "fan_out try_send e js (tab(j := c)) = Inr tab'"
    by (auto simp: bind_res_Inr_iff)
  from chan_ok_try_send [OF _ c(1)] Cons.prems(1)
  have "chan_ok c" "cap c = cap (tab j)" by auto
  with Cons.IH [OF _ c(2)] Cons.prems(1) show ?case by (auto split: if_splits)
qed simp

end
