(* ===== verification/Store_Api.thy ===== *)
theory Store_Api
  imports LC_Prelude
begin

text \<open>
  The store interface (\<^verbatim>\<open>store.go\<close>): its data, the normalisation of history options,
  and the contract of an implementation as locales. \<open>kv_store\<close> is the key-value part
  (\<open>Get\<close>, \<open>List\<close>, \<open>Set\<close>, \<open>Delete\<close>), \<open>audited_store\<close> adds the audit trail
  (\<open>History\<close>). The clients' facts (what a run of operations leaves in the store, how
  the trail relates to the values, how pages compose) are proved once here.
\<close>

subsection \<open>Data\<close>

record change_event =
  ce_namespace :: string
  ce_key :: string
  ce_old :: string
  ce_new :: string
  ce_by :: string
  ce_at :: go_time

record set_entry =
  se_namespace :: string
  se_key :: string
  se_value :: string
  se_by :: string

record audit_entry =
  ae_id :: int
  ae_namespace :: string
  ae_key :: string
  ae_old :: string
  ae_new :: string
  ae_by :: string
  ae_at :: go_time

record history_options =
  ho_limit :: int
  ho_offset :: int

definition default_history_limit :: int where
  "default_history_limit = 50"

definition normalised :: "history_options \<Rightarrow> history_options" where
  "normalised o1 =
     (let o2 = (if ho_limit o1 \<le> 0 then o1\<lparr>ho_limit := default_history_limit\<rparr> else o1) in
      if ho_offset o2 < 0 then o2\<lparr>ho_offset := 0\<rparr> else o2)"

lemma normalised_positive: "0 < ho_limit (normalised o1) \<and> 0 \<le> ho_offset (normalised o1)"
  by (simp add: normalised_def Let_def default_history_limit_def)

lemma normalised_idem: "normalised (normalised o1) = normalised o1"
  by (simp add: normalised_def Let_def default_history_limit_def)

lemma normalised_id: "0 < ho_limit o1 \<Longrightarrow> 0 \<le> ho_offset o1 \<Longrightarrow> normalised o1 = o1"
  by (simp add: normalised_def Let_def)

text \<open>A page of a list, newest first: what \<open>History\<close> returns of the matching records.\<close>

definition page :: "history_options \<Rightarrow> 'a list \<Rightarrow> 'a list" where
  "page opts xs =
     (let n = normalised opts in take (nat (ho_limit n)) (drop (nat (ho_offset n)) xs))"

fun pages :: "nat \<Rightarrow> nat \<Rightarrow> 'a list \<Rightarrow> 'a list" where
  "pages n 0 xs = []"
| "pages n (Suc k) xs =
     pages n k xs @ page \<lparr>ho_limit = int n, ho_offset = int (k * n)\<rparr> xs"

lemma page_length: "int (length (page opts xs)) \<le> ho_limit (normalised opts)"
proof -
  have "length (page opts xs) \<le> nat (ho_limit (normalised opts))"
    by (simp add: page_def Let_def)
  with normalised_positive [of opts] show ?thesis by linarith
qed

lemma page_plain: "0 < n \<Longrightarrow> page \<lparr>ho_limit = int n, ho_offset = int m\<rparr> xs = take n (drop m xs)"
  by (simp add: page_def normalised_id)

lemma pages_take: "0 < n \<Longrightarrow> pages n k xs = take (k * n) xs"
proof (induction k)
  case (Suc k)
  then have "pages n (Suc k) xs = take (k * n) xs @ take n (drop (k * n) xs)"
    by (simp add: page_plain del: of_nat_mult)
  also have "\<dots> = take (k * n + n) xs" by (simp add: take_add)
  finally show ?case by (simp add: add.commute)
qed simp

subsection \<open>The key-value contract\<close>

datatype store_op =
    OpSet set_entry go_time
  | OpDelete string string string go_time

type_synonym kv = "string \<Rightarrow> string \<Rightarrow> string option"

text \<open>The abstract specification: what an operation means for the stored values.\<close>

fun kv_step :: "store_op \<Rightarrow> kv \<Rightarrow> kv" where
  "kv_step (OpSet e now) m = m(se_namespace e := (m (se_namespace e))(se_key e \<mapsto> se_value e))"
| "kv_step (OpDelete ns k by_who now) m = m(ns := (m ns)(k := None))"

definition kv_run :: "store_op list \<Rightarrow> kv \<Rightarrow> kv" where
  "kv_run ops m = fold kv_step ops m"

definition op_target :: "store_op \<Rightarrow> string \<times> string" where
  "op_target op1 = (case op1 of OpSet e now \<Rightarrow> (se_namespace e, se_key e)
                    | OpDelete ns k by_who now \<Rightarrow> (ns, k))"

definition op_result :: "store_op \<Rightarrow> string option" where
  "op_result op1 = (case op1 of OpSet e now \<Rightarrow> Some (se_value e) | OpDelete ns k by_who now \<Rightarrow> None)"

lemma kv_step_eq:
  "kv_step op1 m = (\<lambda>ns k. if op_target op1 = (ns, k) then op_result op1 else m ns k)"
  by (cases op1) (auto simp: op_target_def op_result_def fun_eq_iff)

lemma kv_run_untouched:
  "(\<And>op1. op1 \<in> set ops \<Longrightarrow> op_target op1 \<noteq> (ns, k)) \<Longrightarrow> kv_run ops m ns k = m ns k"
  unfolding kv_run_def
  by (induction ops arbitrary: m) (auto simp: kv_step_eq simp del: kv_step.simps)

lemma kv_run_last:
  "(\<And>op2. op2 \<in> set rest \<Longrightarrow> op_target op2 \<noteq> op_target op1) \<Longrightarrow>
   op_target op1 = (ns, k) \<Longrightarrow> kv_run (ops @ op1 # rest) m ns k = op_result op1"
  using kv_run_untouched [of rest ns k] by (simp add: kv_run_def kv_step_eq)

locale kv_store =
  fixes inv :: "'s \<Rightarrow> bool"
    and get :: "string \<Rightarrow> string \<Rightarrow> 's \<Rightarrow> string \<times> bool"
    and lst :: "string \<Rightarrow> 's \<Rightarrow> string \<Rightarrow> string option"
    and step :: "store_op \<Rightarrow> 's \<Rightarrow> 's"
  assumes get_lst: "inv s \<Longrightarrow> get ns k s = (case lst ns s k of None \<Rightarrow> ([], False) | Some v \<Rightarrow> (v, True))"
    and lst_step: "inv s \<Longrightarrow> lst ns (step op1 s) = kv_step op1 (\<lambda>ns. lst ns s) ns"
    and inv_step: "inv s \<Longrightarrow> inv (step op1 s)"
begin

definition kv_of :: "'s \<Rightarrow> kv" where
  "kv_of s = (\<lambda>ns. lst ns s)"

definition run :: "store_op list \<Rightarrow> 's \<Rightarrow> 's" where
  "run ops s = fold step ops s"

lemma inv_run: "inv s \<Longrightarrow> inv (run ops s)"
  unfolding run_def by (induction ops arbitrary: s) (auto simp: inv_step)

lemma kv_of_step: "inv s \<Longrightarrow> kv_of (step op1 s) = kv_step op1 (kv_of s)"
  by (simp add: kv_of_def lst_step)

text \<open>The implementation refines the abstract store.\<close>

lemma kv_of_run: "inv s \<Longrightarrow> kv_of (run ops s) = kv_run ops (kv_of s)"
  unfolding run_def kv_run_def
  by (induction ops arbitrary: s) (auto simp: kv_of_step inv_step)

lemma get_run:
  "inv s \<Longrightarrow> get ns k (run ops s) =
     (case kv_run ops (kv_of s) ns k of None \<Rightarrow> ([], False) | Some v \<Rightarrow> (v, True))"
  by (simp add: get_lst inv_run kv_of_run [symmetric]) (simp add: kv_of_def)

lemma get_after_set:
  "inv s \<Longrightarrow> get (se_namespace e) (se_key e) (step (OpSet e now) s) = (se_value e, True)"
  by (simp add: get_lst inv_step lst_step)

lemma get_after_delete:
  "inv s \<Longrightarrow> get ns k (step (OpDelete ns k by_who now) s) = ([], False)"
  by (simp add: get_lst inv_step lst_step)

lemma get_other:
  "inv s \<Longrightarrow> op_target op1 \<noteq> (ns, k) \<Longrightarrow> get ns k (step op1 s) = get ns k s"
  by (simp add: get_lst inv_step lst_step kv_step_eq del: kv_step.simps)

end

subsection \<open>The audit contract\<close>

text \<open>The value a key has for its audit trail: empty when it has none.\<close>

definition str_or_empty :: "string option \<Rightarrow> string" where
  "str_or_empty ov = (case ov of None \<Rightarrow> [] | Some v \<Rightarrow> v)"

lemma str_or_empty_simps [simp]: "str_or_empty None = []" "str_or_empty (Some v) = v"
  by (simp_all add: str_or_empty_def)

text \<open>
  A trail (oldest first) is linked when every record starts from the value the one before
  it left, the first from the empty string.
\<close>

fun linked :: "string \<Rightarrow> audit_entry list \<Rightarrow> bool" where
  "linked v [] = True"
| "linked v (a # as) = (ae_old a = v \<and> linked (ae_new a) as)"

fun trail_value :: "string \<Rightarrow> audit_entry list \<Rightarrow> string" where
  "trail_value v [] = v"
| "trail_value v (a # as) = trail_value (ae_new a) as"

lemma linked_snoc: "linked v (as @ [a]) \<longleftrightarrow> linked v as \<and> ae_old a = trail_value v as"
  by (induction v as rule: linked.induct) auto

lemma trail_value_snoc: "trail_value v (as @ [a]) = ae_new a"
  by (induction v as rule: trail_value.induct) auto

text \<open>The record an operation leaves: none for the deletion of a missing key.\<close>

definition op_record :: "kv \<Rightarrow> store_op \<Rightarrow> audit_entry \<Rightarrow> bool" where
  "op_record m op1 a \<longleftrightarrow>
     (ae_namespace a, ae_key a) = op_target op1
     \<and> ae_old a = str_or_empty (m (ae_namespace a) (ae_key a))
     \<and> ae_new a = str_or_empty (op_result op1)
     \<and> (case op1 of OpSet e now \<Rightarrow> ae_by a = se_by e \<and> ae_at a = now
        | OpDelete ns k by_who now \<Rightarrow> ae_by a = by_who \<and> ae_at a = now)"

definition op_effective :: "kv \<Rightarrow> store_op \<Rightarrow> bool" where
  "op_effective m op1 \<longleftrightarrow>
     (case op1 of OpSet e now \<Rightarrow> True | OpDelete ns k by_who now \<Rightarrow> m ns k \<noteq> None)"

locale audited_store = kv_store inv get lst step
  for inv :: "'s \<Rightarrow> bool"
    and get :: "string \<Rightarrow> string \<Rightarrow> 's \<Rightarrow> string \<times> bool"
    and lst :: "string \<Rightarrow> 's \<Rightarrow> string \<Rightarrow> string option"
    and step :: "store_op \<Rightarrow> 's \<Rightarrow> 's" +
  fixes trail :: "'s \<Rightarrow> audit_entry list"
    and history :: "string \<Rightarrow> string \<Rightarrow> history_options \<Rightarrow> 's \<Rightarrow> audit_entry list"
  assumes trail_step: "inv s \<Longrightarrow> op_effective (kv_of s) op1 \<Longrightarrow>
      \<exists>a. trail (step op1 s) = trail s @ [a] \<and> op_record (kv_of s) op1 a"
    and trail_noop: "inv s \<Longrightarrow> \<not> op_effective (kv_of s) op1 \<Longrightarrow> trail (step op1 s) = trail s"
    and history_page: "inv s \<Longrightarrow> history ns k opts s =
      page opts (rev (filter (\<lambda>a. ae_namespace a = ns \<and> ae_key a = k) (trail s)))"
begin

definition key_trail :: "string \<Rightarrow> string \<Rightarrow> 's \<Rightarrow> audit_entry list" where
  "key_trail ns k s = filter (\<lambda>a. ae_namespace a = ns \<and> ae_key a = k) (trail s)"

definition trail_ok :: "'s \<Rightarrow> bool" where
  "trail_ok s \<longleftrightarrow>
     (\<forall>ns k. linked [] (key_trail ns k s)
        \<and> trail_value [] (key_trail ns k s) = str_or_empty (lst ns s k))"

text \<open>The trail of every key is linked and ends in the key's current value.\<close>

lemma trail_ok_step:
  assumes "inv s" "trail_ok s"
  shows "trail_ok (step op1 s)"
proof (cases "op_effective (kv_of s) op1")
  case True
  then obtain a where a: "trail (step op1 s) = trail s @ [a]" "op_record (kv_of s) op1 a"
    using trail_step [OF assms(1)] by blast
  then have kt: "key_trail ns k (step op1 s) =
      (if op_target op1 = (ns, k) then key_trail ns k s @ [a] else key_trail ns k s)" for ns k
    by (auto simp: key_trail_def op_record_def)
  show ?thesis
    using assms a(2)
    by (auto simp: trail_ok_def kt linked_snoc trail_value_snoc lst_step kv_step_eq op_record_def
        kv_of_def simp del: kv_step.simps)
next
  case False
  then have "op_result op1 = None" "kv_of s (fst (op_target op1)) (snd (op_target op1)) = None"
    by (auto simp: op_effective_def op_result_def op_target_def split: store_op.splits)
  then have "lst ns (step op1 s) k = lst ns s k" for ns k
    using assms(1) by (auto simp: lst_step kv_step_eq kv_of_def simp del: kv_step.simps)
  with assms trail_noop [OF assms(1) False] show ?thesis
    by (simp add: trail_ok_def key_trail_def)
qed

lemma trail_ok_run: "inv s \<Longrightarrow> trail_ok s \<Longrightarrow> trail_ok (run ops s)"
  unfolding run_def by (induction ops arbitrary: s) (auto simp: inv_step trail_ok_step)

text \<open>Reading a key's history page by page gives its whole trail, newest first.\<close>

lemma history_pages:
  assumes "inv s" "0 < n"
  shows "concat (map (\<lambda>i. history ns k \<lparr>ho_limit = int n, ho_offset = int (i * n)\<rparr> s) [0..<m])
    = take (m * n) (rev (key_trail ns k s))"
proof -
  have "concat (map (\<lambda>i. history ns k \<lparr>ho_limit = int n, ho_offset = int (i * n)\<rparr> s) [0..<m])
      = pages n m (rev (key_trail ns k s))"
    by (induction m) (auto simp: history_page [OF assms(1)] key_trail_def)
  with pages_take [OF assms(2)] show ?thesis by simp
qed

lemma history_bound: "inv s \<Longrightarrow> int (length (history ns k opts s)) \<le> ho_limit (normalised opts)"
  by (simp add: history_page page_length)

end

end
