(* ===== verification/Mem_Store.thy ===== *)
theory Mem_Store
  imports Store_Api Channels "HOL-Library.Word"
begin

text \<open>
  The in-memory store (\<^verbatim>\<open>memstore/store.go\<close>). A store is a record of the fields the
  code guards with its two mutexes; one operation here is one critical section, so a write
  (\<open>ms_set_write\<close>, \<open>ms_delete_write\<close> under \<^verbatim>\<open>mu\<close>) and the broadcast of its event
  (\<open>ms_broadcast\<close> under \<^verbatim>\<open>watchMu\<close>) are separate, and other goroutines may run between
  them. \<open>ms_set\<close> and \<open>ms_delete\<close> compose them as the methods do. Channels live in a table
  by identity.

  The lemmas show that the store implements the contracts of \<open>Store_Api\<close>, that no
  operation sends on or closes a closed channel, and what a broadcast delivers.
\<close>

subsection \<open>Data\<close>

record store_entry =
  st_value :: string
  st_changed_by :: string
  st_updated_at :: go_time

record audit_record =
  ar_id :: int
  ar_namespace :: string
  ar_key :: string
  ar_old :: string
  ar_new :: string
  ar_by :: string
  ar_at :: go_time

record watcher =
  w_namespace :: string
  w_ch :: nat

record mem_store =
  ms_data :: "string \<rightharpoonup> (string \<rightharpoonup> store_entry)"
  ms_audit :: "audit_record list"
  ms_seq :: "64 word"
  ms_watchers :: "watcher list"
  ms_chans :: "change_event gochan chan_table"
  ms_next :: nat

definition ms_new :: mem_store where
  "ms_new = \<lparr>ms_data = (\<lambda>ns. None), ms_audit = [], ms_seq = 0, ms_watchers = [],
     ms_chans = (\<lambda>i. make_chan 64), ms_next = 0\<rparr>"

subsection \<open>Operations\<close>

definition ms_get :: "string \<Rightarrow> string \<Rightarrow> mem_store \<Rightarrow> string \<times> bool" where
  "ms_get namespace key s =
     (case ms_data s namespace of
        None \<Rightarrow> ([], False)
      | Some ns \<Rightarrow> (case ns key of None \<Rightarrow> ([], False) | Some e \<Rightarrow> (st_value e, True)))"

definition ms_list :: "string \<Rightarrow> mem_store \<Rightarrow> string \<rightharpoonup> string" where
  "ms_list namespace s =
     (case ms_data s namespace of
        None \<Rightarrow> (\<lambda>k. None)
      | Some ns \<Rightarrow> (\<lambda>k. map_option st_value (ns k)))"

text \<open>\<open>append_audit\<close> takes the next number of the atomic \<^verbatim>\<open>int64\<close> sequence.\<close>

definition append_audit ::
  "string \<Rightarrow> string \<Rightarrow> string \<Rightarrow> string \<Rightarrow> string \<Rightarrow> go_time \<Rightarrow> mem_store \<Rightarrow> mem_store" where
  "append_audit namespace key old_value new_value by_who now s =
     (let i = ms_seq s + 1 in
      s\<lparr>ms_seq := i,
        ms_audit := ms_audit s @ [\<lparr>ar_id = sint i, ar_namespace = namespace, ar_key = key,
          ar_old = old_value, ar_new = new_value, ar_by = by_who, ar_at = now\<rparr>]\<rparr>)"

definition ms_set_write :: "set_entry \<Rightarrow> go_time \<Rightarrow> mem_store \<Rightarrow> mem_store \<times> change_event" where
  "ms_set_write e now s =
     (let ns = (case ms_data s (se_namespace e) of None \<Rightarrow> (\<lambda>k. None) | Some ns \<Rightarrow> ns);
          old_value = (case ns (se_key e) of None \<Rightarrow> [] | Some existing \<Rightarrow> st_value existing);
          ns' = ns(se_key e \<mapsto> \<lparr>st_value = se_value e, st_changed_by = se_by e, st_updated_at = now\<rparr>);
          s' = s\<lparr>ms_data := (ms_data s)(se_namespace e \<mapsto> ns')\<rparr>
      in (append_audit (se_namespace e) (se_key e) old_value (se_value e) (se_by e) now s',
          \<lparr>ce_namespace = se_namespace e, ce_key = se_key e, ce_old = old_value,
           ce_new = se_value e, ce_by = se_by e, ce_at = now\<rparr>))"

text \<open>\<open>None\<close> for the early returns of a missing namespace or key.\<close>

definition ms_delete_write ::
  "string \<Rightarrow> string \<Rightarrow> string \<Rightarrow> go_time \<Rightarrow> mem_store \<Rightarrow> mem_store \<times> change_event option" where
  "ms_delete_write namespace key by_who now s =
     (case ms_data s namespace of
        None \<Rightarrow> (s, None)
      | Some ns \<Rightarrow>
          (case ns key of
             None \<Rightarrow> (s, None)
           | Some existing \<Rightarrow>
               (let old_value = st_value existing;
                    s' = s\<lparr>ms_data := (ms_data s)(namespace \<mapsto> ns(key := None))\<rparr>
                in (append_audit namespace key old_value [] by_who now s',
                    Some \<lparr>ce_namespace = namespace, ce_key = key, ce_old = old_value,
                      ce_new = [], ce_by = by_who, ce_at = now\<rparr>))))"

text \<open>The loop of \<open>broadcast\<close> over the watchers, with its \<^verbatim>\<open>continue\<close>.\<close>

fun broadcast_loop ::
  "change_event \<Rightarrow> watcher list \<Rightarrow> change_event gochan chan_table
     \<Rightarrow> chan_panic + change_event gochan chan_table" where
  "broadcast_loop event [] tab = Inr tab"
| "broadcast_loop event (w # ws) tab =
     (if w_namespace w \<noteq> ce_namespace event then broadcast_loop event ws tab
      else bind_res (try_send event (tab (w_ch w)))
             (\<lambda>c. broadcast_loop event ws (tab(w_ch w := c))))"

definition ms_broadcast :: "change_event \<Rightarrow> mem_store \<Rightarrow> chan_panic + mem_store" where
  "ms_broadcast event s =
     bind_res (broadcast_loop event (ms_watchers s) (ms_chans s))
       (\<lambda>tab. Inr (s\<lparr>ms_chans := tab\<rparr>))"

definition ms_set :: "set_entry \<Rightarrow> go_time \<Rightarrow> mem_store \<Rightarrow> chan_panic + mem_store" where
  "ms_set e now s = (let (s', event) = ms_set_write e now s in ms_broadcast event s')"

definition ms_delete ::
  "string \<Rightarrow> string \<Rightarrow> string \<Rightarrow> go_time \<Rightarrow> mem_store \<Rightarrow> chan_panic + mem_store" where
  "ms_delete namespace key by_who now s =
     (let (s', oevent) = ms_delete_write namespace key by_who now s in
      case oevent of None \<Rightarrow> Inr s' | Some event \<Rightarrow> ms_broadcast event s')"

text \<open>\<open>Watch\<close> allocates a fresh channel; the goroutine it starts runs \<open>ms_unwatch\<close> once its
  context is cancelled.\<close>

definition ms_watch :: "string \<Rightarrow> mem_store \<Rightarrow> mem_store \<times> nat" where
  "ms_watch namespace s =
     (let ch = ms_next s in
      (s\<lparr>ms_chans := (ms_chans s)(ch := make_chan 64), ms_next := Suc ch,
         ms_watchers := ms_watchers s @ [\<lparr>w_namespace = namespace, w_ch = ch\<rparr>]\<rparr>, ch))"

fun remove_watcher :: "nat \<Rightarrow> watcher list \<Rightarrow> watcher list option" where
  "remove_watcher ch [] = None"
| "remove_watcher ch (existing # ws) =
     (if w_ch existing = ch then Some ws else map_option ((#) existing) (remove_watcher ch ws))"

definition ms_unwatch :: "nat \<Rightarrow> mem_store \<Rightarrow> chan_panic + mem_store" where
  "ms_unwatch ch s =
     (case remove_watcher ch (ms_watchers s) of
        None \<Rightarrow> Inr s
      | Some ws \<Rightarrow>
          bind_res (close_chan (ms_chans s ch))
            (\<lambda>c. Inr (s\<lparr>ms_watchers := ws, ms_chans := (ms_chans s)(ch := c)\<rparr>)))"

text \<open>The consumer's receive.\<close>

definition ms_recv :: "nat \<Rightarrow> mem_store \<Rightarrow> change_event received \<times> mem_store" where
  "ms_recv ch s =
     (let (r, c) = recv (ms_chans s ch) in (r, s\<lparr>ms_chans := (ms_chans s)(ch := c)\<rparr>))"

text \<open>The loop of \<open>History\<close> runs from the last record down.\<close>

definition audit_of :: "audit_record \<Rightarrow> audit_entry" where
  "audit_of r = \<lparr>ae_id = ar_id r, ae_namespace = ar_namespace r, ae_key = ar_key r,
     ae_old = ar_old r, ae_new = ar_new r, ae_by = ar_by r, ae_at = ar_at r\<rparr>"

fun history_matches :: "string \<Rightarrow> string \<Rightarrow> audit_record list \<Rightarrow> nat \<Rightarrow> audit_entry list" where
  "history_matches namespace key au 0 = []"
| "history_matches namespace key au (Suc i) =
     (let r = au ! i in
      if ar_namespace r = namespace \<and> ar_key r = key
      then audit_of r # history_matches namespace key au i
      else history_matches namespace key au i)"

definition ms_history :: "string \<Rightarrow> string \<Rightarrow> history_options \<Rightarrow> mem_store \<Rightarrow> audit_entry list" where
  "ms_history namespace key opts s =
     (let matches = history_matches namespace key (ms_audit s) (length (ms_audit s));
          o1 = normalised opts
      in if ho_offset o1 \<ge> int (length matches) then []
         else let rest = drop (nat (ho_offset o1)) matches in
              if int (length rest) > ho_limit o1 then take (nat (ho_limit o1)) rest else rest)"

definition ms_close :: "mem_store \<Rightarrow> mem_store" where
  "ms_close s = s"

subsection \<open>Invariant\<close>

definition ms_ok :: "mem_store \<Rightarrow> bool" where
  "ms_ok s \<longleftrightarrow>
     distinct (map w_ch (ms_watchers s))
     \<and> (\<forall>w \<in> set (ms_watchers s). w_ch w < ms_next s \<and> \<not> closed (ms_chans s (w_ch w)))
     \<and> (\<forall>i. chan_ok (ms_chans s i) \<and> cap (ms_chans s i) = 64)
     \<and> ms_seq s = of_nat (length (ms_audit s))
     \<and> map ar_id (ms_audit s) = map (\<lambda>i. sint (of_nat (Suc i) :: 64 word)) [0..<length (ms_audit s)]"

lemma ms_ok_new: "ms_ok ms_new"
  by (simp add: ms_ok_def ms_new_def) (simp add: make_chan_def)

lemma append_audit_simps [simp]:
  "ms_data (append_audit ns k ov nv b now s) = ms_data s"
  "ms_watchers (append_audit ns k ov nv b now s) = ms_watchers s"
  "ms_chans (append_audit ns k ov nv b now s) = ms_chans s"
  "ms_next (append_audit ns k ov nv b now s) = ms_next s"
  by (simp_all add: append_audit_def Let_def)

lemma ms_ok_append_audit: "ms_ok s \<Longrightarrow> ms_ok (append_audit ns k ov nv b now s)"
  by (simp add: ms_ok_def append_audit_def Let_def add.commute)

lemma ms_ok_data: "ms_ok s \<Longrightarrow> ms_ok (s\<lparr>ms_data := d\<rparr>)"
  by (simp add: ms_ok_def)

lemma ms_ok_set_write: "ms_ok s \<Longrightarrow> ms_ok (fst (ms_set_write e now s))"
  by (simp add: ms_set_write_def Let_def ms_ok_append_audit ms_ok_data)

lemma ms_ok_delete_write: "ms_ok s \<Longrightarrow> ms_ok (fst (ms_delete_write ns k b now s))"
  by (simp add: ms_delete_write_def Let_def ms_ok_append_audit ms_ok_data split: option.split)

lemma ms_ok_watch: "ms_ok s \<Longrightarrow> ms_ok (fst (ms_watch ns s))"
  by (auto simp: ms_ok_def ms_watch_def Let_def less_Suc_eq) (auto simp: make_chan_def)

lemma ms_ok_recv: "ms_ok s \<Longrightarrow> ms_ok (snd (ms_recv ch s))"
  using chan_ok_recv [of "ms_chans s ch"]
  by (auto simp: ms_ok_def ms_recv_def split_beta)

text \<open>The broadcast loop is the lossy fan-out over the watchers of the namespace.\<close>

definition watchers_of :: "string \<Rightarrow> mem_store \<Rightarrow> nat list" where
  "watchers_of ns s = map w_ch (filter (\<lambda>w. w_namespace w = ns) (ms_watchers s))"

lemma broadcast_loop_fan_out:
  "broadcast_loop event ws tab =
     fan_out try_send event (map w_ch (filter (\<lambda>w. w_namespace w = ce_namespace event) ws)) tab"
  by (induction ws arbitrary: tab) auto

lemma watchers_of_subset: "set (watchers_of ns s) \<subseteq> w_ch ` set (ms_watchers s)"
  by (auto simp: watchers_of_def)

lemma ms_broadcast_ok:
  assumes "ms_ok s"
  shows "\<exists>tab. ms_broadcast event s = Inr (s\<lparr>ms_chans := tab\<rparr>) \<and> ms_ok (s\<lparr>ms_chans := tab\<rparr>)
     \<and> (\<forall>i. i \<in> set (watchers_of (ce_namespace event) s) \<longrightarrow>
            buf (tab i) = (if has_room (ms_chans s i) then buf (ms_chans s i) @ [event]
                           else buf (ms_chans s i)))
     \<and> (\<forall>i. i \<notin> set (watchers_of (ce_namespace event) s) \<longrightarrow> tab i = ms_chans s i)"
proof -
  let ?is = "watchers_of (ce_namespace event) s"
  have d: "distinct ?is" using assms
    by (simp add: ms_ok_def watchers_of_def distinct_map inj_on_def)
  have o: "chan_open (ms_chans s i)" if "i \<in> set ?is" for i
    using that watchers_of_subset assms by (auto simp: ms_ok_def chan_open_def watchers_of_def)
  from go_chan.fan_out_live [of ?is "ms_chans s" event, OF d o] obtain tab where
    t: "fan_out try_send event ?is (ms_chans s) = Inr tab"
      "\<forall>i. i \<in> set ?is \<longrightarrow> chan_open (tab i)
         \<and> buf (tab i) = (if has_room (ms_chans s i) then buf (ms_chans s i) @ [event]
                           else buf (ms_chans s i))"
      "\<forall>i. i \<notin> set ?is \<longrightarrow> tab i = ms_chans s i"
    by blast
  have b: "ms_broadcast event s = Inr (s\<lparr>ms_chans := tab\<rparr>)"
    using t(1) by (simp add: ms_broadcast_def broadcast_loop_fan_out watchers_of_def)
  have c: "\<forall>i. chan_ok (tab i) \<and> cap (tab i) = cap (ms_chans s i)"
    by (rule fan_out_caps [OF _ t(1)]) (use assms in \<open>simp add: ms_ok_def\<close>)
  have "\<not> closed (tab (w_ch w))" if "w \<in> set (ms_watchers s)" for w
  proof (cases "w_ch w \<in> set ?is")
    case True
    then show ?thesis using t(2) by (simp add: chan_open_def)
  next
    case False
    then show ?thesis using t(3) that assms by (simp add: ms_ok_def)
  qed
  then have "ms_ok (s\<lparr>ms_chans := tab\<rparr>)" using assms c by (simp add: ms_ok_def)
  with b t show ?thesis by blast
qed

lemma ms_broadcast_data:
  "ms_ok s \<Longrightarrow> \<exists>s'. ms_broadcast event s = Inr s' \<and> ms_ok s' \<and> ms_data s' = ms_data s
     \<and> ms_audit s' = ms_audit s \<and> ms_watchers s' = ms_watchers s \<and> ms_seq s' = ms_seq s"
  using ms_broadcast_ok [of s event] by auto

lemma remove_watcher_Some:
  "remove_watcher ch ws = Some ws' \<Longrightarrow>
     \<exists>us w vs. ws = us @ w # vs \<and> ws' = us @ vs \<and> w_ch w = ch \<and> ch \<notin> w_ch ` set us"
proof (induction ws arbitrary: ws')
  case (Cons a ws)
  show ?case
  proof (cases "w_ch a = ch")
    case True
    with Cons.prems show ?thesis by (intro exI [of _ "[]"]) auto
  next
    case False
    with Cons obtain us w vs where "ws = us @ w # vs" "ws' = a # us @ vs" "w_ch w = ch"
      "ch \<notin> w_ch ` set us" by fastforce
    with False show ?thesis by (intro exI [of _ "a # us"]) auto
  qed
qed simp

lemma remove_watcher_None: "remove_watcher ch ws = None \<longleftrightarrow> ch \<notin> w_ch ` set ws"
  by (induction ws) auto

lemma ms_unwatch_ok:
  assumes "ms_ok s"
  shows "\<exists>s'. ms_unwatch ch s = Inr s' \<and> ms_ok s' \<and> ms_data s' = ms_data s
     \<and> ms_audit s' = ms_audit s \<and> ch \<notin> w_ch ` set (ms_watchers s')"
proof (cases "remove_watcher ch (ms_watchers s)")
  case None
  then have "ch \<notin> w_ch ` set (ms_watchers s)" by (simp add: remove_watcher_None)
  with None assms show ?thesis by (simp add: ms_unwatch_def)
next
  case (Some ws)
  then obtain us w vs where w: "ms_watchers s = us @ w # vs" "ws = us @ vs" "w_ch w = ch"
    using remove_watcher_Some by blast
  have "\<not> closed (ms_chans s ch)" using assms w by (auto simp: ms_ok_def)
  moreover have ch: "ch \<notin> w_ch ` set ws" using assms w by (auto simp: ms_ok_def)
  then have "\<And>v. v \<in> set ws \<Longrightarrow> w_ch v \<noteq> ch" by blast
  note ne = this
  moreover have "ms_ok (s\<lparr>ms_watchers := ws, ms_chans := (ms_chans s)(ch := c)\<rparr>)"
    if "close_chan (ms_chans s ch) = Inr c" for c
    using assms w(1,2) chan_ok_close [OF that] ne by (auto simp: ms_ok_def)
  ultimately show ?thesis using Some by (auto simp: ms_unwatch_def close_chan_def)
qed

subsection \<open>The store contract\<close>

text \<open>
  One whole operation, as a total function: the panic branch keeps the state and is shown
  unreachable by \<open>ms_exec_ok\<close>.
\<close>

definition ms_op :: "store_op \<Rightarrow> mem_store \<Rightarrow> chan_panic + mem_store" where
  "ms_op op1 s =
     (case op1 of OpSet e now \<Rightarrow> ms_set e now s | OpDelete ns k by_who now \<Rightarrow> ms_delete ns k by_who now s)"

definition ms_exec :: "store_op \<Rightarrow> mem_store \<Rightarrow> mem_store" where
  "ms_exec op1 s = (case ms_op op1 s of Inl p \<Rightarrow> s | Inr s' \<Rightarrow> s')"

definition ms_write :: "store_op \<Rightarrow> mem_store \<Rightarrow> mem_store \<times> change_event option" where
  "ms_write op1 s =
     (case op1 of
        OpSet e now \<Rightarrow> (let (s', event) = ms_set_write e now s in (s', Some event))
      | OpDelete ns k by_who now \<Rightarrow> ms_delete_write ns k by_who now s)"

lemma ms_op_write:
  "ms_op op1 s = (let (s', oevent) = ms_write op1 s in
     case oevent of None \<Rightarrow> Inr s' | Some event \<Rightarrow> ms_broadcast event s')"
  by (auto simp: ms_op_def ms_write_def ms_set_def ms_delete_def split_beta Let_def
      split: store_op.splits)

lemma ms_ok_write: "ms_ok s \<Longrightarrow> ms_ok (fst (ms_write op1 s))"
  using ms_ok_set_write ms_ok_delete_write
  by (auto simp: ms_write_def split_beta Let_def split: store_op.splits)

lemma ms_list_write:
  "ms_list ns (fst (ms_write op1 s)) = kv_step op1 (\<lambda>ns. ms_list ns s) ns"
  by (auto simp: ms_write_def ms_set_write_def ms_delete_write_def ms_list_def Let_def fun_eq_iff
      split: store_op.splits option.splits)

lemma ms_write_audit:
  "ms_write op1 s = (s', ev) \<Longrightarrow>
     (if op_effective (\<lambda>ns. ms_list ns s) op1
      then \<exists>a. map audit_of (ms_audit s') = map audit_of (ms_audit s) @ [a]
             \<and> op_record (\<lambda>ns. ms_list ns s) op1 a
      else s' = s \<and> ev = None)"
  by (cases op1)
     (auto simp: ms_write_def ms_set_write_def ms_delete_write_def ms_list_def Let_def
        append_audit_def audit_of_def op_effective_def op_record_def op_target_def op_result_def
        split: option.splits)

lemma ms_write_event:
  "ms_write op1 s = (s', ev) \<Longrightarrow> op_effective (\<lambda>ns. ms_list ns s) op1 \<Longrightarrow>
     \<exists>event. ev = Some event \<and> (ce_namespace event, ce_key event) = op_target op1
       \<and> ce_old event = str_or_empty (ms_list (ce_namespace event) s (ce_key event))
       \<and> ce_new event = str_or_empty (op_result op1)"
  by (cases op1)
     (auto simp: ms_write_def ms_set_write_def ms_delete_write_def ms_list_def Let_def
        op_effective_def op_target_def op_result_def split: option.splits)

lemma ms_op_ok:
  assumes "ms_ok s"
  shows "\<exists>s'. ms_op op1 s = Inr s' \<and> ms_exec op1 s = s' \<and> ms_ok s'
     \<and> ms_data s' = ms_data (fst (ms_write op1 s)) \<and> ms_audit s' = ms_audit (fst (ms_write op1 s))"
proof -
  obtain t ev where w: "ms_write op1 s = (t, ev)" by fastforce
  then have ok: "ms_ok t" using ms_ok_write [OF assms, of op1] by simp
  show ?thesis
  proof (cases ev)
    case None
    then show ?thesis using w ok by (simp add: ms_op_write ms_exec_def)
  next
    case (Some e)
    then show ?thesis using w ms_broadcast_data [OF ok, of e] by (auto simp: ms_op_write ms_exec_def)
  qed
qed

lemma ms_list_data: "ms_data s' = ms_data s \<Longrightarrow> ms_list ns s' = ms_list ns s"
  by (simp add: ms_list_def)

lemma ms_list_exec: "ms_ok s \<Longrightarrow> ms_list ns (ms_exec op1 s) = kv_step op1 (\<lambda>ns. ms_list ns s) ns"
  using ms_op_ok [of s op1] ms_list_write [of ns op1 s] ms_list_data by metis

interpretation mem_kv: kv_store ms_ok ms_get ms_list ms_exec
proof unfold_locales
  fix s ns k op1
  show "ms_get ns k s = (case ms_list ns s k of None \<Rightarrow> ([], False) | Some v \<Rightarrow> (v, True))"
    by (simp add: ms_get_def ms_list_def split: option.split)
  assume "ms_ok s"
  then show "ms_list ns (ms_exec op1 s) = kv_step op1 (\<lambda>ns. ms_list ns s) ns" "ms_ok (ms_exec op1 s)"
    using ms_list_exec ms_op_ok [of s op1] by auto
qed

subsection \<open>History\<close>

lemma history_matches_rev:
  "i \<le> length au \<Longrightarrow> history_matches ns k au i =
     rev (filter (\<lambda>a. ae_namespace a = ns \<and> ae_key a = k) (map audit_of (take i au)))"
proof (induction i)
  case (Suc i)
  then have "take (Suc i) au = take i au @ [au ! i]" by (simp add: take_Suc_conv_app_nth)
  with Suc show ?case by (simp add: audit_of_def Let_def)
qed simp

lemma ms_history_page:
  "ms_history ns k opts s =
     page opts (rev (filter (\<lambda>a. ae_namespace a = ns \<and> ae_key a = k) (map audit_of (ms_audit s))))"
  using normalised_positive [of opts]
  by (auto simp: ms_history_def page_def Let_def history_matches_rev nat_le_iff not_less)

definition ms_trail :: "mem_store \<Rightarrow> audit_entry list" where
  "ms_trail s = map audit_of (ms_audit s)"

interpretation mem_audit: audited_store ms_ok ms_get ms_list ms_exec ms_trail ms_history
proof unfold_locales
  fix s op1 ns k opts
  assume ok: "ms_ok s"
  have kv: "mem_kv.kv_of s = (\<lambda>ns. ms_list ns s)" by (simp add: mem_kv.kv_of_def)
  obtain t ev where w: "ms_write op1 s = (t, ev)" by fastforce
  have t: "ms_trail (ms_exec op1 s) = ms_trail t"
    using ms_op_ok [OF ok, of op1] w by (auto simp: ms_trail_def)
  show "op_effective (mem_kv.kv_of s) op1 \<Longrightarrow>
      \<exists>a. ms_trail (ms_exec op1 s) = ms_trail s @ [a] \<and> op_record (mem_kv.kv_of s) op1 a"
    using ms_write_audit [OF w] unfolding t kv by (simp add: ms_trail_def)
  show "\<not> op_effective (mem_kv.kv_of s) op1 \<Longrightarrow> ms_trail (ms_exec op1 s) = ms_trail s"
    using ms_write_audit [OF w] by (simp add: t kv)
  show "ms_history ns k opts s =
      page opts (rev (filter (\<lambda>a. ae_namespace a = ns \<and> ae_key a = k) (ms_trail s)))"
    by (simp add: ms_history_page ms_trail_def)
qed

end
