(* ===== verification/Options.thy ===== *)
theory Options
  imports LC_Prelude
begin

text \<open>
  The construction options of a provider (\<^verbatim>\<open>options.go\<close>) and the normalisation \<open>New\<close>
  does before it uses them. Durations are nanoseconds. A logger is known by a number,
  \<open>default_logger\<close> being the one of \<^verbatim>\<open>slog.Default()\<close>, and \<open>None\<close> is the nil pointer.
\<close>

type_synonym logger = "nat option"

definition default_logger :: logger where
  "default_logger = Some 0"

definition default_namespace :: string where
  "default_namespace = ''default''"

definition default_refresh_interval :: int where
  "default_refresh_interval = 5 * 60 * 1000000000"

definition default_subscriber_buf :: int where
  "default_subscriber_buf = 16"

record provider_options =
  po_namespace :: string
  po_logger :: logger
  po_refresh_interval :: int
  po_subscriber_buffer :: int

definition default_provider_options :: provider_options where
  "default_provider_options =
     \<lparr>po_namespace = default_namespace, po_logger = default_logger,
      po_refresh_interval = default_refresh_interval, po_subscriber_buffer = default_subscriber_buf\<rparr>"

type_synonym provider_option = "provider_options \<Rightarrow> provider_options"

definition with_namespace :: "string \<Rightarrow> provider_option" where
  "with_namespace ns o1 = o1\<lparr>po_namespace := ns\<rparr>"

definition with_logger :: "logger \<Rightarrow> provider_option" where
  "with_logger lg o1 =
     (let lg' = (if lg = None then default_logger else lg) in o1\<lparr>po_logger := lg'\<rparr>)"

definition with_refresh_interval :: "int \<Rightarrow> provider_option" where
  "with_refresh_interval d o1 =
     (let d' = (if d \<le> 0 then default_refresh_interval else d) in o1\<lparr>po_refresh_interval := d'\<rparr>)"

definition with_subscriber_buffer :: "int \<Rightarrow> provider_option" where
  "with_subscriber_buffer n o1 =
     (let n' = (if n \<le> 0 then default_subscriber_buf else n) in o1\<lparr>po_subscriber_buffer := n'\<rparr>)"

text \<open>The defensive normalisation at the top of \<open>New\<close>, in its order.\<close>

definition normalise_options :: "provider_options \<Rightarrow> provider_options" where
  "normalise_options o0 =
     (let o1 = (if po_logger o0 = None then o0\<lparr>po_logger := default_logger\<rparr> else o0);
          o2 = (if po_refresh_interval o1 \<le> 0
                then o1\<lparr>po_refresh_interval := default_refresh_interval\<rparr> else o1);
          o3 = (if po_subscriber_buffer o2 \<le> 0
                then o2\<lparr>po_subscriber_buffer := default_subscriber_buf\<rparr> else o2)
      in if po_namespace o3 = [] then o3\<lparr>po_namespace := default_namespace\<rparr> else o3)"

definition provider_config :: "provider_option list \<Rightarrow> provider_options" where
  "provider_config opts = normalise_options (fold (\<lambda>f c. f c) opts default_provider_options)"

definition options_ok :: "provider_options \<Rightarrow> bool" where
  "options_ok o1 \<longleftrightarrow> po_namespace o1 \<noteq> [] \<and> po_logger o1 \<noteq> None
     \<and> 0 < po_refresh_interval o1 \<and> 0 < po_subscriber_buffer o1"

lemmas option_defaults = default_provider_options_def default_namespace_def default_logger_def
  default_refresh_interval_def default_subscriber_buf_def

lemma normalise_options_ok: "options_ok (normalise_options o1)"
  by (simp add: normalise_options_def Let_def options_ok_def option_defaults)

lemma normalise_options_id: "options_ok o1 \<Longrightarrow> normalise_options o1 = o1"
  by (auto simp add: normalise_options_def Let_def options_ok_def)

lemma with_options_ok:
  "options_ok default_provider_options"
  "options_ok o1 \<Longrightarrow> options_ok (with_logger lg o1)"
  "options_ok o1 \<Longrightarrow> options_ok (with_refresh_interval d o1)"
  "options_ok o1 \<Longrightarrow> options_ok (with_subscriber_buffer n o1)"
  by (simp_all add: options_ok_def with_logger_def with_refresh_interval_def
      with_subscriber_buffer_def Let_def option_defaults)

end
