(* ===== verification/Polling.thy ===== *)
theory Polling
  imports Store_Api Channels Options
begin

text \<open>
  The polling watcher (\<^verbatim>\<open>pollingwatcher.go\<close>): the two diff loops of a tick and the states
  of \<open>pollLoop\<close> as a step relation. Go ranges over a map in an unspecified order, so a
  tick takes the two orders as lists of keys; a blocking send is a step that is enabled
  when the channel has room. The lemmas show that the events of a tick lead from the
  previous listing to the current one, one event for each key that changed, and that a
  consumer that applies every event it receives follows the listings.
\<close>

subsection \<open>Diffing two listings\<close>

definition poll_event :: "string \<Rightarrow> string \<Rightarrow> string \<Rightarrow> string \<Rightarrow> go_time \<Rightarrow> change_event" where
  "poll_event namespace k old_value new_value now =
     \<lparr>ce_namespace = namespace, ce_key = k, ce_old = old_value, ce_new = new_value,
      ce_by = ''poll'', ce_at = now\<rparr>"

fun added_loop ::
  "string \<Rightarrow> go_time \<Rightarrow> (string \<rightharpoonup> string) \<Rightarrow> (string \<rightharpoonup> string) \<Rightarrow> string list \<Rightarrow> change_event list" where
  "added_loop namespace now prev cur [] = []"
| "added_loop namespace now prev cur (k # ks) =
     (let new_value = str_or_empty (cur k); old_value = str_or_empty (prev k) in
      if prev k = None \<or> old_value \<noteq> new_value
      then poll_event namespace k old_value new_value now # added_loop namespace now prev cur ks
      else added_loop namespace now prev cur ks)"

fun deleted_loop ::
  "string \<Rightarrow> go_time \<Rightarrow> (string \<rightharpoonup> string) \<Rightarrow> (string \<rightharpoonup> string) \<Rightarrow> string list \<Rightarrow> change_event list" where
  "deleted_loop namespace now prev cur [] = []"
| "deleted_loop namespace now prev cur (k # ks) =
     (if cur k = None
      then poll_event namespace k (str_or_empty (prev k)) [] now # deleted_loop namespace now prev cur ks
      else deleted_loop namespace now prev cur ks)"

text \<open>\<open>ks\<close> and \<open>ls\<close> are the orders in which the loops range over \<open>cur\<close> and \<open>prev\<close>.\<close>

definition range_order :: "string list \<Rightarrow> (string \<rightharpoonup> string) \<Rightarrow> bool" where
  "range_order ks m \<longleftrightarrow> distinct ks \<and> set ks = dom m"

definition poll_events ::
  "string \<Rightarrow> go_time \<Rightarrow> (string \<rightharpoonup> string) \<Rightarrow> (string \<rightharpoonup> string) \<Rightarrow> string list \<Rightarrow> string list
     \<Rightarrow> change_event list" where
  "poll_events namespace now prev cur ks ls =
     added_loop namespace now prev cur ks @ deleted_loop namespace now prev cur ls"

lemma added_loop_filter:
  "added_loop ns now prev cur ks =
     map (\<lambda>k. poll_event ns k (str_or_empty (prev k)) (str_or_empty (cur k)) now)
       (filter (\<lambda>k. prev k = None \<or> str_or_empty (prev k) \<noteq> str_or_empty (cur k)) ks)"
  by (induction ks) (auto simp: Let_def)

lemma deleted_loop_filter:
  "deleted_loop ns now prev cur ls =
     map (\<lambda>k. poll_event ns k (str_or_empty (prev k)) [] now) (filter (\<lambda>k. cur k = None) ls)"
  by (induction ls) auto

text \<open>Every event is about a key that changed, with its old and new value.\<close>

lemma poll_events_shape:
  fixes ns :: string and now :: go_time
  assumes "range_order ks cur" "range_order ls prev"
  defines "es \<equiv> poll_events ns now prev cur ks ls"
  shows "distinct (map ce_key es)" "ce_key ` set es = {k. prev k \<noteq> cur k}"
    "e \<in> set es \<Longrightarrow> e = poll_event ns (ce_key e) (str_or_empty (prev (ce_key e)))
       (str_or_empty (cur (ce_key e))) now"
proof -
  have k: "map ce_key es =
      filter (\<lambda>k. prev k = None \<or> str_or_empty (prev k) \<noteq> str_or_empty (cur k)) ks
        @ filter (\<lambda>k. cur k = None) ls"
    by (simp add: es_def poll_events_def added_loop_filter deleted_loop_filter comp_def poll_event_def)
  show "distinct (map ce_key es)"
    using assms(1,2) unfolding k by (auto simp: range_order_def)
  have "set (map ce_key es) = {k. prev k \<noteq> cur k}"
    using assms(1,2) unfolding k by (auto simp: range_order_def str_or_empty_def split: option.splits)
  then show "ce_key ` set es = {k. prev k \<noteq> cur k}" by simp
  show "e \<in> set es \<Longrightarrow> e = poll_event ns (ce_key e) (str_or_empty (prev (ce_key e)))
       (str_or_empty (cur (ce_key e))) now"
    by (auto simp: es_def poll_events_def added_loop_filter deleted_loop_filter poll_event_def)
qed

text \<open>
  A consumer's view gives the empty string to a key without a value, as events do: an
  override with the empty string and a deleted one look alike in \<open>NewValue\<close>.
\<close>

definition view :: "(string \<rightharpoonup> string) \<Rightarrow> string \<Rightarrow> string" where
  "view m = (\<lambda>k. str_or_empty (m k))"

definition follow :: "change_event list \<Rightarrow> (string \<Rightarrow> string) \<Rightarrow> string \<Rightarrow> string" where
  "follow es w = fold (\<lambda>e v. v(ce_key e := ce_new e)) es w"

lemma follow_append: "follow (as @ bs) w = follow bs (follow as w)"
  by (simp add: follow_def)

lemma follow_Nil [simp]: "follow [] w = w"
  by (simp add: follow_def)

lemma follow_at:
  "distinct (map ce_key es) \<Longrightarrow> (\<And>e. e \<in> set es \<Longrightarrow> ce_new e = g (ce_key e)) \<Longrightarrow>
   follow es w = (\<lambda>k. if k \<in> ce_key ` set es then g k else w k)"
proof (induction es arbitrary: w)
  case (Cons e es)
  have "follow (e # es) w = follow es (w(ce_key e := ce_new e))" by (simp add: follow_def)
  with Cons show ?case by (auto simp: fun_eq_iff)
qed simp

lemma follow_poll_events:
  assumes "range_order ks cur" "range_order ls prev"
  shows "follow (poll_events ns now prev cur ks ls) (view prev) = view cur"
proof -
  let ?es = "poll_events ns now prev cur ks ls"
  have n: "ce_new e = view cur (ce_key e)" if "e \<in> set ?es" for e
    using poll_events_shape(3) [OF assms that] by (simp add: view_def poll_event_def) (metis change_event.select_convs(4))
  from follow_at [of ?es "view cur", OF poll_events_shape(1) [OF assms] n] show ?thesis
    by (auto simp: poll_events_shape(2) [OF assms] view_def fun_eq_iff)
qed

subsection \<open>The poll loop\<close>

datatype poll_phase =
    Waiting
  | Sending "change_event list" "string \<rightharpoonup> string"
  | Stopped

record poller =
  pl_prev :: "string \<rightharpoonup> string"
  pl_seeded :: bool
  pl_phase :: poll_phase
  pl_chan :: "change_event gochan"
  pl_done :: bool

text \<open>The lister is the environment's; a nil logger is replaced by the default.\<close>

record polling_watcher =
  poll_interval :: int
  poll_logger :: logger

definition new_polling_watcher :: "int \<Rightarrow> logger \<Rightarrow> polling_watcher" where
  "new_polling_watcher interval lg =
     (let lg' = (if lg = None then default_logger else lg) in
      \<lparr>poll_interval = interval, poll_logger = lg'\<rparr>)"

lemma new_polling_watcher_interval [simp]: "poll_interval (new_polling_watcher interval lg) = interval"
  by (simp add: new_polling_watcher_def Let_def)

text \<open>\<open>Watch\<close>; \<^verbatim>\<open>NewTicker\<close> panics (\<open>None\<close>) unless the interval is positive.\<close>

definition poll_watch :: "polling_watcher \<Rightarrow> poller option" where
  "poll_watch pw =
     (if poll_interval pw \<le> 0 then None
      else Some \<lparr>pl_prev = (\<lambda>k. None), pl_seeded = False, pl_phase = Waiting,
                 pl_chan = make_chan 64, pl_done = False\<rparr>)"

text \<open>What happens: a listing (\<open>None\<close> when it failed), a delivery, the rest.\<close>

datatype poll_label = Listed "(string \<rightharpoonup> string) option" | Received change_event | Internal

text \<open>A tick's decision, once \<open>List\<close> has returned.\<close>

definition poll_tick ::
  "string \<Rightarrow> go_time \<Rightarrow> (string \<rightharpoonup> string) option \<Rightarrow> string list \<Rightarrow> string list \<Rightarrow> poller \<Rightarrow> poller" where
  "poll_tick namespace now listing ks ls p =
     (case listing of
        None \<Rightarrow> p
      | Some cur \<Rightarrow>
          if \<not> pl_seeded p then p\<lparr>pl_prev := cur, pl_seeded := True\<rparr>
          else p\<lparr>pl_phase := Sending (poll_events namespace now (pl_prev p) cur ks ls) cur\<rparr>)"

definition poll_stop :: "poller \<Rightarrow> poller" where
  "poll_stop p = p\<lparr>pl_phase := Stopped, pl_chan := (pl_chan p)\<lparr>closed := True\<rparr>\<rparr>"

inductive poll_step :: "string \<Rightarrow> poller \<Rightarrow> poll_label \<Rightarrow> poller \<Rightarrow> bool" for namespace where
  ps_tick: "pl_phase p = Waiting \<Longrightarrow>
      (\<And>cur. listing = Some cur \<Longrightarrow> range_order ks cur \<and> range_order ls (pl_prev p)) \<Longrightarrow>
      poll_step namespace p (Listed listing) (poll_tick namespace now listing ks ls p)"
| ps_send: "pl_phase p = Sending (e # es) cur \<Longrightarrow> has_room (pl_chan p) \<Longrightarrow>
      poll_step namespace p Internal
        (p\<lparr>pl_phase := Sending es cur, pl_chan := (pl_chan p)\<lparr>buf := buf (pl_chan p) @ [e]\<rparr>\<rparr>)"
| ps_sent: "pl_phase p = Sending [] cur \<Longrightarrow>
      poll_step namespace p Internal (p\<lparr>pl_phase := Waiting, pl_prev := cur\<rparr>)"
| ps_cancel: "poll_step namespace p Internal (p\<lparr>pl_done := True\<rparr>)"
| ps_stop_waiting: "pl_phase p = Waiting \<Longrightarrow> pl_done p \<Longrightarrow>
      poll_step namespace p Internal (poll_stop p)"
| ps_stop_sending: "pl_phase p = Sending (e # es) cur \<Longrightarrow> pl_done p \<Longrightarrow>
      poll_step namespace p Internal (poll_stop p)"
| ps_recv: "buf (pl_chan p) = e # es \<Longrightarrow>
      poll_step namespace p (Received e) (p\<lparr>pl_chan := (pl_chan p)\<lparr>buf := es\<rparr>\<rparr>)"

inductive_cases poll_step_elim: "poll_step namespace p l p'"

text \<open>A run of the watcher from its start, with what happened, oldest first.\<close>

inductive poll_run :: "string \<Rightarrow> int \<Rightarrow> poll_label list \<Rightarrow> poller \<Rightarrow> bool" for namespace interval where
  pr_start: "poll_watch (new_polling_watcher interval lg) = Some p \<Longrightarrow> poll_run namespace interval [] p"
| pr_step: "poll_run namespace interval ls p \<Longrightarrow> poll_step namespace p l p' \<Longrightarrow>
      poll_run namespace interval (ls @ [l]) p'"

definition received_of :: "poll_label list \<Rightarrow> change_event list" where
  "received_of ls = concat (map (\<lambda>l. case l of Received e \<Rightarrow> [e] | _ \<Rightarrow> []) ls)"

definition listings_of :: "poll_label list \<Rightarrow> (string \<rightharpoonup> string) list" where
  "listings_of ls = concat (map (\<lambda>l. case l of Listed (Some m) \<Rightarrow> [m] | _ \<Rightarrow> []) ls)"

definition pending_events :: "poller \<Rightarrow> change_event list" where
  "pending_events p = (case pl_phase p of Sending es cur \<Rightarrow> es | _ \<Rightarrow> [])"

definition target_listing :: "poller \<Rightarrow> string \<rightharpoonup> string" where
  "target_listing p = (case pl_phase p of Sending es cur \<Rightarrow> cur | _ \<Rightarrow> pl_prev p)"

definition poll_inv :: "poll_label list \<Rightarrow> poller \<Rightarrow> bool" where
  "poll_inv ls p \<longleftrightarrow>
     (if pl_seeded p
      then listings_of ls \<noteq> []
        \<and> (pl_phase p \<noteq> Stopped \<longrightarrow> target_listing p = last (listings_of ls)
           \<and> follow (received_of ls @ buf (pl_chan p) @ pending_events p) (view (hd (listings_of ls)))
               = view (target_listing p))
      else listings_of ls = [] \<and> received_of ls = [] \<and> buf (pl_chan p) = []
        \<and> pl_phase p \<in> {Waiting, Stopped})
     \<and> (closed (pl_chan p) \<longleftrightarrow> pl_phase p = Stopped)
     \<and> chan_ok (pl_chan p) \<and> cap (pl_chan p) = 64"

lemma labels_snoc [simp]:
  "received_of (ls @ [Received e]) = received_of ls @ [e]"
  "received_of (ls @ [Internal]) = received_of ls"
  "received_of (ls @ [Listed m]) = received_of ls"
  "listings_of (ls @ [Received e]) = listings_of ls"
  "listings_of (ls @ [Internal]) = listings_of ls"
  "listings_of (ls @ [Listed None]) = listings_of ls"
  "listings_of (ls @ [Listed (Some c)]) = listings_of ls @ [c]"
  "received_of [] = []" "listings_of [] = []"
  by (simp_all add: received_of_def listings_of_def)

lemma poll_inv_tick:
  assumes "poll_inv ls p" "pl_phase p = Waiting"
    and "\<And>cur. listing = Some cur \<Longrightarrow> range_order ks cur \<and> range_order ms (pl_prev p)"
  shows "poll_inv (ls @ [Listed listing]) (poll_tick namespace now listing ks ms p)"
proof (cases listing)
  case None
  with assms(1) show ?thesis by (auto simp: poll_tick_def poll_inv_def split: if_splits)
next
  case (Some cur)
  show ?thesis
  proof (cases "pl_seeded p")
    case False
    with Some assms show ?thesis
      by (simp add: poll_tick_def poll_inv_def target_listing_def pending_events_def)
  next
    case True
    have "follow (poll_events namespace now (pl_prev p) cur ks ms) (view (pl_prev p)) = view cur"
      using follow_poll_events assms(3) [OF Some] by blast
    with Some True assms(1,2) show ?thesis
      by (simp add: follow_append poll_tick_def poll_inv_def target_listing_def pending_events_def)
  qed
qed

lemma poll_inv_step: "poll_inv ls p \<Longrightarrow> poll_step namespace p l p' \<Longrightarrow> poll_inv (ls @ [l]) p'"
proof (erule poll_step_elim, goal_cases)
  case (1 listing ks ms now)
  then show ?case using poll_inv_tick by blast
qed (auto simp: poll_inv_def target_listing_def pending_events_def poll_stop_def chan_ok_def
      has_room_def split: if_splits poll_phase.splits)

lemma poll_inv_run: "poll_run namespace interval ls p \<Longrightarrow> poll_inv ls p"
proof (induction rule: poll_run.induct)
  case (pr_start lg p)
  then show ?case
    by (auto simp: poll_watch_def poll_inv_def split: if_splits) (simp_all add: make_chan_def)
qed (rule poll_inv_step)

end
