(* ===== verification/Provider.thy ===== *)
theory Provider
  imports Override_Flat Options Store_Api Channels "HOL-Library.Word"
begin

text \<open>
  The provider (\<^verbatim>\<open>provider.go\<close>): its state, construction, refresh, the handler of change
  events and the fan-out to subscribers, subscription and shutdown. What the store
  answers to \<open>List\<close> is an argument (\<open>Inl\<close> an error text), so the definitions fit every
  store; the clock is an argument too.
\<close>

subsection \<open>State\<close>

type_synonym warning = "string \<times> string \<times> parse_error"

text \<open>
  \<open>p_heap\<close> holds the cells the base's pointers lead to; snapshots share them with the
  base. \<open>p_current\<close> is nil until the first refresh. \<open>p_cancelled\<close> says the event
  context is done; \<open>p_once\<close> is the state of the \<^verbatim>\<open>sync.Once\<close> of \<open>Close\<close>.
\<close>

record provider =
  p_type :: gtype
  p_base :: gval
  p_heap :: "gval list"
  p_current :: "gval option"
  p_catalog :: "field_descriptor list"
  p_desc_by_key :: "string \<rightharpoonup> field_descriptor"
  p_ns :: string
  p_interval :: int
  p_buf_size :: int
  p_trigger :: "unit gochan"
  p_subs :: "nat list"
  p_chans :: "change_event gochan chan_table"
  p_next :: nat
  p_refresh_count :: "64 word"
  p_last_refresh :: int
  p_last_err :: "string option"
  p_warnings :: "warning list"
  p_cancelled :: bool
  p_once :: bool
  p_close_err :: "string option"

datatype provider_panic =
    ReflectPanic gpanic
  | ChannelPanic chan_panic
  | NilSnapshot

definition lift_panic :: "('e \<Rightarrow> provider_panic) \<Rightarrow> 'e + 'a \<Rightarrow> provider_panic + 'a" where
  "lift_panic f r = (case r of Inl e \<Rightarrow> Inl (f e) | Inr x \<Rightarrow> Inr x)"

lemma lift_panic_simps [simp]:
  "lift_panic f (Inl e) = Inl (f e)" "lift_panic f (Inr x) = Inr x"
  by (simp_all add: lift_panic_def)

subsection \<open>Refresh\<close>

definition log_warning :: "warning list on_err" where
  "log_warning = Some (\<lambda>key raw e ws. ws @ [(key, raw, e)])"

text \<open>The error \<open>refresh\<close> returns is the store's, wrapped; here it is the text inside.\<close>

definition refresh ::
  "int \<Rightarrow> string + (string \<rightharpoonup> string) \<Rightarrow> provider \<Rightarrow> provider_panic + (provider \<times> string option)" where
  "refresh now listing p =
     (case listing of
        Inl err \<Rightarrow> Inr (p\<lparr>p_last_err := Some err\<rparr>, Some err)
      | Inr overrides \<Rightarrow>
          bind_res (lift_panic ReflectPanic
              (apply_overrides (p_type p) (p_heap p) (p_base p) overrides (p_catalog p) log_warning
                 (p_warnings p)))
            (\<lambda>(h, snapshot, ws).
               Inr (p\<lparr>p_heap := h, p_warnings := ws,
                      p_current := Some snapshot,
                      p_refresh_count := p_refresh_count p + 1,
                      p_last_refresh := now,
                      p_last_err := Some []\<rparr>, None)))"

subsection \<open>Notification\<close>

text \<open>The loop over \<open>subs\<close> offers the event to each channel and drops it where full.\<close>

definition notify_subscribers :: "change_event \<Rightarrow> provider \<Rightarrow> provider_panic + provider" where
  "notify_subscribers event p =
     bind_res (lift_panic ChannelPanic (fan_out try_send event (p_subs p) (p_chans p)))
       (\<lambda>tab. Inr (p\<lparr>p_chans := tab\<rparr>))"

definition is_recreate :: "provider \<Rightarrow> string \<Rightarrow> bool" where
  "is_recreate p key =
     (case p_desc_by_key p key of
        Some d \<Rightarrow> fd_strategy d = ReloadStrategyRecreate | None \<Rightarrow> False)"

definition handle_change_event ::
  "int \<Rightarrow> string + (string \<rightharpoonup> string) \<Rightarrow> change_event \<Rightarrow> provider \<Rightarrow> provider_panic + provider" where
  "handle_change_event now listing event p =
     bind_res (refresh now listing p) (\<lambda>(p', err).
       case err of
         Some e \<Rightarrow> Inr p'
       | None \<Rightarrow> if is_recreate p' (ce_key event) then notify_subscribers event p' else Inr p')"

subsection \<open>Requests, subscriptions, reads\<close>

definition request_refresh :: "provider \<Rightarrow> provider_panic + provider" where
  "request_refresh p =
     bind_res (lift_panic ChannelPanic (try_send () (p_trigger p)))
       (\<lambda>c. Inr (p\<lparr>p_trigger := c\<rparr>))"

text \<open>The exported name.\<close>

definition provider_refresh :: "provider \<Rightarrow> provider_panic + provider" where
  "provider_refresh p = request_refresh p"

definition subscribe :: "provider \<Rightarrow> provider \<times> nat" where
  "subscribe p =
     (let ch = p_next p in
      (p\<lparr>p_chans := (p_chans p)(ch := make_chan (nat (p_buf_size p))), p_next := Suc ch,
         p_subs := p_subs p @ [ch]\<rparr>, ch))"

text \<open>The goroutine of a subscription, once its context is cancelled.\<close>

definition unsubscribe :: "nat \<Rightarrow> provider \<Rightarrow> provider_panic + provider" where
  "unsubscribe ch p =
     (if ch \<in> set (p_subs p)
      then bind_res (lift_panic ChannelPanic (close_chan (p_chans p ch)))
             (\<lambda>c. Inr (p\<lparr>p_subs := remove1 ch (p_subs p), p_chans := (p_chans p)(ch := c)\<rparr>))
      else Inr p)"

definition sub_recv :: "nat \<Rightarrow> provider \<Rightarrow> change_event received \<times> provider" where
  "sub_recv ch p =
     (let (r, c) = recv (p_chans p ch) in (r, p\<lparr>p_chans := (p_chans p)(ch := c)\<rparr>))"

definition provider_get :: "provider \<Rightarrow> provider_panic + gval" where
  "provider_get p = (case p_current p of None \<Rightarrow> Inl NilSnapshot | Some v \<Rightarrow> Inr v)"

definition catalog_of :: "provider \<Rightarrow> field_descriptor list" where
  "catalog_of p = p_catalog p"

record stats =
  s_last_refresh :: "int option"
  s_refresh_count :: "64 word"
  s_last_error :: string

text \<open>\<open>s_last_refresh\<close> is \<open>None\<close> for the zero time.\<close>

definition provider_stats :: "provider \<Rightarrow> stats" where
  "provider_stats p =
     (let last_err = (case p_last_err p of None \<Rightarrow> [] | Some e \<Rightarrow> e);
          last = (if p_last_refresh p \<noteq> 0 then Some (p_last_refresh p) else None)
      in \<lparr>s_last_refresh = last, s_refresh_count = p_refresh_count p, s_last_error = last_err\<rparr>)"

subsection \<open>Shutdown\<close>

text \<open>
  \<open>Close\<close> cancels the event context, waits for the loop, then runs the rest: closing the
  subscriber channels and the store, whose error is \<open>store_err\<close>. The \<^verbatim>\<open>sync.Once\<close> lets one
  caller through.
\<close>

fun close_all :: "nat list \<Rightarrow> change_event gochan chan_table \<Rightarrow> chan_panic + change_event gochan chan_table" where
  "close_all [] tab = Inr tab"
| "close_all (ch # chs) tab = bind_res (close_chan (tab ch)) (\<lambda>c. close_all chs (tab(ch := c)))"

definition close_begin :: "provider \<Rightarrow> provider" where
  "close_begin p = p\<lparr>p_once := True, p_cancelled := True\<rparr>"

definition close_finish :: "string option \<Rightarrow> provider \<Rightarrow> provider_panic + provider" where
  "close_finish store_err p =
     bind_res (lift_panic ChannelPanic (close_all (p_subs p) (p_chans p)))
       (\<lambda>tab. Inr (p\<lparr>p_chans := tab, p_subs := [], p_close_err := store_err\<rparr>))"

definition provider_close :: "string option \<Rightarrow> provider \<Rightarrow> provider_panic + (provider \<times> string option)" where
  "provider_close store_err p =
     (if p_once p then Inr (p, p_close_err p)
      else bind_res (close_finish store_err (close_begin p)) (\<lambda>p'. Inr (p', p_close_err p')))"

subsection \<open>Construction\<close>

datatype provider_error =
    BuildCatalogFailed catalog_error
  | InitialRefreshFailed string
  | WatchFailed string

definition desc_by_key :: "field_descriptor list \<Rightarrow> string \<rightharpoonup> field_descriptor" where
  "desc_by_key cat = map_of_rev (map (\<lambda>d. (fd_key d, d)) cat)"

definition init_provider ::
  "gtype \<Rightarrow> gval list \<Rightarrow> gval \<Rightarrow> field_descriptor list \<Rightarrow> provider_options \<Rightarrow> provider" where
  "init_provider t h base cat cfg =
     \<lparr>p_type = t, p_base = base, p_heap = h, p_current = None, p_catalog = cat,
      p_desc_by_key = desc_by_key cat, p_ns = po_namespace cfg,
      p_interval = po_refresh_interval cfg, p_buf_size = po_subscriber_buffer cfg,
      p_trigger = make_chan 1, p_subs = [], p_chans = (\<lambda>i. make_chan 0), p_next = 0,
      p_refresh_count = 0, p_last_refresh = 0, p_last_err = None, p_warnings = [],
      p_cancelled = False, p_once = False, p_close_err = None\<rparr>"

text \<open>
  \<open>New\<close>: \<open>listing\<close> is what the store's \<open>List\<close> answers, \<open>watch_err\<close> the error of its
  \<open>Watch\<close> if it has one. The event loop starts in the provider that is returned.
\<close>

definition new_provider ::
  "gtype option \<Rightarrow> gval list \<Rightarrow> gval \<Rightarrow> provider_option list \<Rightarrow> int
     \<Rightarrow> string + (string \<rightharpoonup> string) \<Rightarrow> string option
     \<Rightarrow> provider_panic + (provider_error + provider)" where
  "new_provider ot h base opts now listing watch_err =
     (let cfg = provider_config opts in
      case build_catalog ot of
        Inl e \<Rightarrow> Inr (Inl (BuildCatalogFailed e))
      | Inr cat \<Rightarrow>
          bind_res (refresh now listing (init_provider (the ot) h base cat cfg)) (\<lambda>(p, err).
            case err of
              Some e \<Rightarrow> Inr (Inl (InitialRefreshFailed e))
            | None \<Rightarrow>
                (case watch_err of
                   Some e \<Rightarrow> Inr (Inl (WatchFailed e))
                 | None \<Rightarrow> Inr (Inr p))))"

end
