(* ===== verification/Provider_Lemmas.thy ===== *)
theory Provider_Lemmas
  imports Provider
begin

text \<open>
  The provider's invariant and what each operation does: refresh as a function of the
  overrides, the error path, the coalescing of requests, delivery to subscribers,
  subscription and shutdown.
\<close>

subsection \<open>Invariants\<close>

definition prov_ok :: "provider \<Rightarrow> bool" where
  "prov_ok p \<longleftrightarrow>
     distinct (p_subs p)
     \<and> (\<forall>ch \<in> set (p_subs p). ch < p_next p \<and> \<not> closed (p_chans p ch))
     \<and> (\<forall>i. chan_ok (p_chans p i)) \<and> (\<forall>i < p_next p. cap (p_chans p i) = nat (p_buf_size p))
     \<and> chan_ok (p_trigger p) \<and> cap (p_trigger p) = 1 \<and> \<not> closed (p_trigger p)"

text \<open>A provider whose managed fields are reached without pointers, managed slices being exactly
  \<^verbatim>\<open>[]string\<close>.\<close>

definition prov_flat :: "provider \<Rightarrow> bool" where
  "prov_flat p \<longleftrightarrow> build_catalog (Some (p_type p)) = Inr (p_catalog p)
     \<and> flat_config (p_type p) (p_catalog p)"

text \<open>A provider whose base, heap and snapshot are well typed, pointers allowed.\<close>

definition prov_typed :: "provider \<Rightarrow> bool" where
  "prov_typed p \<longleftrightarrow>
     build_catalog (Some (p_type p)) = Inr (p_catalog p)
     \<and> settable_config (p_type p) (p_catalog p)
     \<and> (\<exists>\<Gamma>. wt_mem \<Gamma> (p_type p) \<lparr>root = p_base p, heap = p_heap p\<rparr>
            \<and> (case p_current p of None \<Rightarrow> True | Some v \<Rightarrow> wt \<Gamma> (p_type p) v))"

definition snapshot_of :: "provider \<Rightarrow> (string \<rightharpoonup> string) \<Rightarrow> gval" where
  "snapshot_of p ov = apply_pure ov (p_catalog p) (p_base p)"

subsection \<open>Refresh\<close>

lemma refresh_error: "refresh now (Inl e) p = Inr (p\<lparr>p_last_err := Some e\<rparr>, Some e)"
  by (simp add: refresh_def)

lemma refresh_flat:
  "prov_flat p \<Longrightarrow> refresh now (Inr ov) p =
     Inr (p\<lparr>p_warnings := fold (log_one ov log_warning) (p_catalog p) (p_warnings p),
            p_current := Some (snapshot_of p ov), p_refresh_count := p_refresh_count p + 1,
            p_last_refresh := now, p_last_err := Some []\<rparr>, None)"
  by (simp add: refresh_def prov_flat_def apply_overrides_flat snapshot_of_def)

lemma refresh_typed:
  assumes "prov_typed p"
  shows "\<exists>h ws v. refresh now (Inr ov) p =
      Inr (p\<lparr>p_heap := h, p_warnings := ws, p_current := Some v,
             p_refresh_count := p_refresh_count p + 1, p_last_refresh := now,
             p_last_err := Some []\<rparr>, None)
    \<and> prov_typed (p\<lparr>p_heap := h, p_warnings := ws, p_current := Some v,
             p_refresh_count := p_refresh_count p + 1, p_last_refresh := now,
             p_last_err := Some []\<rparr>)"
proof -
  obtain \<Gamma> where g: "wt_mem \<Gamma> (p_type p) \<lparr>root = p_base p, heap = p_heap p\<rparr>"
    using assms by (auto simp: prov_typed_def)
  have c: "build_catalog (Some (p_type p)) = Inr (p_catalog p)"
    "settable_config (p_type p) (p_catalog p)" using assms by (auto simp: prov_typed_def)
  from apply_loop_wt [OF c(1) subset_refl c(2) g, of ov log_warning "p_warnings p"]
  obtain \<Delta> m where m: "apply_loop (p_type p) ov log_warning (p_catalog p)
      (\<lparr>root = p_base p, heap = p_heap p\<rparr>, p_warnings p) =
        Inr (m, fold (log_one ov log_warning) (p_catalog p) (p_warnings p))"
    "wt_mem (\<Gamma> @ \<Delta>) (p_type p) m" by blast
  have "wt (\<Gamma> @ \<Delta>) (p_type p) (p_base p)" using g by (simp add: wt_mem_def wt_mono)
  with m(2) have "wt_mem (\<Gamma> @ \<Delta>) (p_type p) \<lparr>root = p_base p, heap = heap m\<rparr>"
    "wt (\<Gamma> @ \<Delta>) (p_type p) (root m)" by (simp_all add: wt_mem_def)
  then show ?thesis using c m(1)
    by (auto simp: refresh_def apply_overrides_def prov_typed_def)
qed

text \<open>Configs on which a refresh cannot panic, with or without pointers: no managed leaf is itself
  a pointer and no managed slice is of a named string type (and with pointers on the way
  the base is well typed).\<close>

definition safe_config :: "gtype \<Rightarrow> field_descriptor list \<Rightarrow> gval \<Rightarrow> gval list \<Rightarrow> bool" where
  "safe_config t cat base h \<longleftrightarrow> flat_config t cat
     \<or> settable_config t cat \<and> (\<exists>\<Gamma>. wt_mem \<Gamma> t \<lparr>root = base, heap = h\<rparr>)"

definition prov_safe :: "provider \<Rightarrow> bool" where
  "prov_safe p \<longleftrightarrow> prov_flat p \<or> prov_typed p"

lemma refresh_safe:
  assumes "prov_safe p"
  shows "\<exists>p'. refresh now (Inr ov) p = Inr (p', None) \<and> prov_safe p' \<and> p_current p' \<noteq> None"
proof (cases "prov_flat p")
  case True
  then show ?thesis by (auto simp: refresh_flat prov_safe_def prov_flat_def)
next
  case False
  with assms refresh_typed [of p now ov] show ?thesis by (auto simp: prov_safe_def)
qed

lemma refresh_same:
  "refresh now listing p = Inr (p', err) \<Longrightarrow>
     p_type p' = p_type p \<and> p_base p' = p_base p \<and> p_catalog p' = p_catalog p
     \<and> p_desc_by_key p' = p_desc_by_key p \<and> p_ns p' = p_ns p \<and> p_subs p' = p_subs p
     \<and> p_chans p' = p_chans p \<and> p_next p' = p_next p \<and> p_trigger p' = p_trigger p
     \<and> p_buf_size p' = p_buf_size p \<and> p_cancelled p' = p_cancelled p \<and> p_once p' = p_once p
     \<and> (err = None \<longleftrightarrow> is_ok listing)"
  by (auto simp: refresh_def bind_res_Inr_iff lift_panic_def is_ok_def split: sum.splits)

lemma prov_ok_refresh: "prov_ok p \<Longrightarrow> refresh now listing p = Inr (p', err) \<Longrightarrow> prov_ok p'"
  using refresh_same [of now listing p p' err] by (simp add: prov_ok_def)

lemma prov_flat_refresh: "prov_flat p \<Longrightarrow> refresh now listing p = Inr (p', err) \<Longrightarrow> prov_flat p'"
  using refresh_same [of now listing p p' err] by (simp add: prov_flat_def)

subsection \<open>Requests\<close>

lemma request_refresh_ok:
  assumes "prov_ok p"
  shows "request_refresh p = Inr (p\<lparr>p_trigger := (p_trigger p)\<lparr>buf := [()]\<rparr>\<rparr>)"
proof -
  have "length (buf (p_trigger p)) \<le> 1" using assms by (simp add: prov_ok_def chan_ok_def)
  then have "buf (p_trigger p) = [] \<or> buf (p_trigger p) = [()]"
    by (cases "buf (p_trigger p)") auto
  with assms show ?thesis
    by (auto simp: request_refresh_def try_send_open prov_ok_def has_room_def)
qed

lemma prov_ok_request: "prov_ok p \<Longrightarrow> prov_ok (p\<lparr>p_trigger := (p_trigger p)\<lparr>buf := [()]\<rparr>\<rparr>)"
  by (simp add: prov_ok_def chan_ok_def)

subsection \<open>Subscribers\<close>

lemma notify_ok:
  assumes "prov_ok p"
  shows "\<exists>tab. notify_subscribers event p = Inr (p\<lparr>p_chans := tab\<rparr>) \<and> prov_ok (p\<lparr>p_chans := tab\<rparr>)
     \<and> (\<forall>ch \<in> set (p_subs p). buf (tab ch) =
          (if has_room (p_chans p ch) then buf (p_chans p ch) @ [event] else buf (p_chans p ch)))
     \<and> (\<forall>ch. ch \<notin> set (p_subs p) \<longrightarrow> tab ch = p_chans p ch)"
proof -
  have d: "distinct (p_subs p)" using assms by (simp add: prov_ok_def)
  have o: "chan_open (p_chans p i)" if "i \<in> set (p_subs p)" for i
    using that assms by (auto simp: prov_ok_def chan_open_def)
  from go_chan.fan_out_live [of "p_subs p" "p_chans p" event, OF d o] obtain tab where
    t: "fan_out try_send event (p_subs p) (p_chans p) = Inr tab"
      "\<forall>i. i \<in> set (p_subs p) \<longrightarrow> chan_open (tab i)
         \<and> buf (tab i) = (if has_room (p_chans p i) then buf (p_chans p i) @ [event]
                           else buf (p_chans p i))"
      "\<forall>i. i \<notin> set (p_subs p) \<longrightarrow> tab i = p_chans p i"
    by blast
  have "\<forall>i. chan_ok (tab i) \<and> cap (tab i) = cap (p_chans p i)"
    by (rule fan_out_caps [OF _ t(1)]) (use assms in \<open>simp add: prov_ok_def\<close>)
  then have "prov_ok (p\<lparr>p_chans := tab\<rparr>)"
    using assms t(2) by (simp add: prov_ok_def chan_open_def)
  with t show ?thesis by (auto simp: notify_subscribers_def)
qed

lemma prov_ok_subscribe: "prov_ok p \<Longrightarrow> prov_ok (fst (subscribe p))"
  by (auto simp: prov_ok_def subscribe_def Let_def less_Suc_eq) (auto simp: make_chan_def)

lemma prov_ok_sub_recv: "prov_ok p \<Longrightarrow> prov_ok (snd (sub_recv ch p))"
  using chan_ok_recv [of "p_chans p ch"] by (auto simp: prov_ok_def sub_recv_def split_beta)

lemma unsubscribe_ok:
  assumes "prov_ok p"
  shows "\<exists>p'. unsubscribe ch p = Inr p' \<and> prov_ok p' \<and> ch \<notin> set (p_subs p')
     \<and> (ch \<in> set (p_subs p) \<longrightarrow> closed (p_chans p' ch))
     \<and> p' = p\<lparr>p_subs := p_subs p', p_chans := p_chans p'\<rparr>"
proof (cases "ch \<in> set (p_subs p)")
  case False
  then show ?thesis using assms by (simp add: unsubscribe_def)
next
  case True
  then have "\<not> closed (p_chans p ch)" using assms by (simp add: prov_ok_def)
  then obtain c where c: "close_chan (p_chans p ch) = Inr c" "closed c"
    by (simp add: close_chan_def)
  have d: "distinct (p_subs p)" using assms by (simp add: prov_ok_def)
  have "prov_ok (p\<lparr>p_subs := remove1 ch (p_subs p), p_chans := (p_chans p)(ch := c)\<rparr>)"
    using assms chan_ok_close [OF c(1)] d by (simp add: prov_ok_def)
  with True c d show ?thesis by (simp add: unsubscribe_def)
qed

subsection \<open>The event handler\<close>

lemma handler_run:
  assumes "prov_ok p" "prov_flat p"
  shows "\<exists>p'. handle_change_event now (Inr ov) event p = Inr p'
     \<and> provider_get p' = Inr (snapshot_of p ov) \<and> prov_ok p'
     \<and> (\<forall>ch. buf (p_chans p' ch) =
          (if is_recreate p (ce_key event) \<and> ch \<in> set (p_subs p) \<and> has_room (p_chans p ch)
           then buf (p_chans p ch) @ [event] else buf (p_chans p ch)))"
proof -
  obtain q where q: "refresh now (Inr ov) p = Inr (q, None)" "p_current q = Some (snapshot_of p ov)"
    using refresh_flat [OF assms(2), of now ov] by simp
  note same = refresh_same [OF q(1)]
  have q_ok: "prov_ok q" by (rule prov_ok_refresh [OF assms(1) q(1)])
  have r: "is_recreate q = is_recreate p" using same by (simp add: is_recreate_def fun_eq_iff)
  show ?thesis
  proof (cases "is_recreate p (ce_key event)")
    case False
    with q q_ok r same show ?thesis by (simp add: handle_change_event_def provider_get_def)
  next
    case True
    from notify_ok [OF q_ok, of event] obtain tab where
      t: "notify_subscribers event q = Inr (q\<lparr>p_chans := tab\<rparr>)" "prov_ok (q\<lparr>p_chans := tab\<rparr>)"
      "\<forall>ch \<in> set (p_subs q). buf (tab ch) =
          (if has_room (p_chans q ch) then buf (p_chans q ch) @ [event] else buf (p_chans q ch))"
      "\<forall>ch. ch \<notin> set (p_subs q) \<longrightarrow> tab ch = p_chans q ch" by blast
    have "buf (tab ch) = (if ch \<in> set (p_subs p) \<and> has_room (p_chans p ch)
        then buf (p_chans p ch) @ [event] else buf (p_chans p ch))" for ch
      using t(3,4) same by (cases "ch \<in> set (p_subs p)") simp_all
    with t(1,2) True q r show ?thesis
      by (intro exI [of _ "q\<lparr>p_chans := tab\<rparr>"]) (simp add: handle_change_event_def provider_get_def)
  qed
qed

subsection \<open>Shutdown\<close>

lemma close_all_open:
  "distinct chs \<Longrightarrow> (\<And>ch. ch \<in> set chs \<Longrightarrow> \<not> closed (tab ch)) \<Longrightarrow>
     close_all chs tab = Inr (\<lambda>i. if i \<in> set chs then (tab i)\<lparr>closed := True\<rparr> else tab i)"
proof (induction chs arbitrary: tab)
  case (Cons ch chs)
  let ?t = "tab(ch := (tab ch)\<lparr>closed := True\<rparr>)"
  have "close_all (ch # chs) tab = close_all chs ?t"
    using Cons.prems(2) [of ch] by (simp add: close_chan_def)
  also have "\<dots> = Inr (\<lambda>i. if i \<in> set chs then (?t i)\<lparr>closed := True\<rparr> else ?t i)"
    using Cons.prems by (intro Cons.IH) auto
  also have "(\<lambda>i. if i \<in> set chs then (?t i)\<lparr>closed := True\<rparr> else ?t i) =
      (\<lambda>i. if i \<in> set (ch # chs) then (tab i)\<lparr>closed := True\<rparr> else tab i)"
    using Cons.prems(1) by (auto simp: fun_eq_iff)
  finally show ?case .
qed simp

lemma close_finish_ok:
  assumes "prov_ok p"
  shows "\<exists>tab. close_finish e p = Inr (p\<lparr>p_chans := tab, p_subs := [], p_close_err := e\<rparr>)
     \<and> prov_ok (p\<lparr>p_chans := tab, p_subs := [], p_close_err := e\<rparr>)
     \<and> (\<forall>ch. tab ch = (if ch \<in> set (p_subs p) then (p_chans p ch)\<lparr>closed := True\<rparr> else p_chans p ch))"
proof -
  let ?tab = "\<lambda>i. if i \<in> set (p_subs p) then (p_chans p i)\<lparr>closed := True\<rparr> else p_chans p i"
  have "close_all (p_subs p) (p_chans p) = Inr ?tab"
    using assms by (intro close_all_open) (auto simp: prov_ok_def)
  moreover have "prov_ok (p\<lparr>p_chans := ?tab, p_subs := [], p_close_err := e\<rparr>)"
    using assms by (simp add: prov_ok_def)
  ultimately show ?thesis by (intro exI [of _ ?tab]) (simp add: close_finish_def)
qed

subsection \<open>Construction\<close>

lemma prov_ok_init: "options_ok cfg \<Longrightarrow> prov_ok (init_provider t h base cat cfg)"
  by (simp add: prov_ok_def init_provider_def) (simp add: make_chan_def)

lemma init_provider_same:
  "p_type (init_provider t h base cat cfg) = t" "p_base (init_provider t h base cat cfg) = base"
  "p_catalog (init_provider t h base cat cfg) = cat"
  "p_ns (init_provider t h base cat cfg) = po_namespace cfg"
  "p_current (init_provider t h base cat cfg) = None"
  "p_desc_by_key (init_provider t h base cat cfg) = desc_by_key cat"
  "p_cancelled (init_provider t h base cat cfg) = False"
  "p_heap (init_provider t h base cat cfg) = h"
  by (simp_all add: init_provider_def)

text \<open>With distinct keys, \<open>desc_by_key\<close> finds every descriptor under its own key.\<close>

lemma desc_by_key_in: "desc_by_key cat k = Some d \<Longrightarrow> d \<in> set cat \<and> fd_key d = k"
  by (auto simp: desc_by_key_def map_of_rev_eq dest: map_of_SomeD)

lemma desc_by_key_distinct:
  "distinct (map fd_key cat) \<Longrightarrow> d \<in> set cat \<Longrightarrow> desc_by_key cat (fd_key d) = Some d"
proof -
  assume a: "distinct (map fd_key cat)" "d \<in> set cat"
  have "map fst (rev (map (\<lambda>d. (fd_key d, d)) cat)) = rev (map fd_key cat)"
    by (simp add: rev_map comp_def)
  with a have "distinct (map fst (rev (map (\<lambda>d. (fd_key d, d)) cat)))" by simp
  moreover have "(fd_key d, d) \<in> set (rev (map (\<lambda>d. (fd_key d, d)) cat))" using a by auto
  ultimately show ?thesis unfolding desc_by_key_def map_of_rev_eq by (rule map_of_is_SomeI)
qed

end
