(* ===== verification/System.thy ===== *)
theory System
  imports Provider_Lemmas Mem_Store
begin

text \<open>
  A provider on an in-memory store, with everything that runs beside its event loop:
  writers whose broadcast may come later than their write, other watchers of the store,
  subscribers, refresh requests and shutdown. One step is one critical section of the
  code; \<open>sys_exec\<close> is a labelled transition function (\<open>None\<close> when the step is not
  enabled, \<open>Inl\<close> when it panics) and \<open>sys_reach\<close> the states it reaches.
\<close>

subsection \<open>States\<close>

text \<open>
  Where the goroutine is that starts in \<open>New\<close> and becomes the event loop: \<open>PList\<close> and
  \<open>PInstall\<close> are the two halves of a refresh, \<open>PNotify\<close> the rest of the event handler.
\<close>

datatype loop_reason = OnEvent change_event | OnTick | OnTrigger

datatype loop_pc =
    PStartList
  | PStartInstall "string \<rightharpoonup> string"
  | PStartWatch
  | PSelect
  | PList loop_reason
  | PInstall loop_reason "string \<rightharpoonup> string"
  | PNotify change_event
  | PReturned

record system =
  sy_store :: mem_store
  sy_inflight :: "change_event list"
  sy_prov :: provider
  sy_pc :: loop_pc
  sy_ch :: nat
  sy_closing :: bool

datatype loop_choice = ChooseDone | ChooseEvent | ChooseTick | ChooseTrigger

datatype sys_label =
    LWrite store_op
  | LBroadcast change_event
  | LLoop loop_choice go_time
  | LRefresh
  | LSubscribe
  | LUnsubscribe nat
  | LSubRecv nat
  | LCancel
  | LUnwatch
  | LCloseBegin
  | LCloseFinish
  | LOtherWatch string
  | LOtherUnwatch nat
  | LOtherRecv nat

definition started :: "loop_pc \<Rightarrow> bool" where
  "started pc \<longleftrightarrow> (case pc of PStartList \<Rightarrow> False | PStartInstall ov \<Rightarrow> False
                   | PStartWatch \<Rightarrow> False | _ \<Rightarrow> True)"

lemma started_simps [simp]:
  "\<not> started PStartList" "\<not> started (PStartInstall ov)" "\<not> started PStartWatch"
  "started PSelect" "started (PList r)" "started (PInstall r ov)" "started (PNotify e)"
  "started PReturned"
  by (simp_all add: started_def)

subsection \<open>The steps of the loop\<close>

type_synonym sys_result = "(provider_panic + system) option"

definition with_prov :: "(provider_panic + provider) \<Rightarrow> (provider \<Rightarrow> loop_pc) \<Rightarrow> system \<Rightarrow> sys_result" where
  "with_prov r pc s = Some (bind_res r (\<lambda>p. Inr (s\<lparr>sy_prov := p, sy_pc := pc p\<rparr>)))"

text \<open>The pseudo-random choice of \<^verbatim>\<open>select\<close> among the ready cases is the label's.\<close>

definition select_step :: "loop_choice \<Rightarrow> system \<Rightarrow> sys_result" where
  "select_step choice s =
     (case choice of
        ChooseDone \<Rightarrow> if p_cancelled (sy_prov s) then Some (Inr (s\<lparr>sy_pc := PReturned\<rparr>)) else None
      | ChooseEvent \<Rightarrow>
          (case ms_recv (sy_ch s) (sy_store s) of
             (Got event, st) \<Rightarrow> Some (Inr (s\<lparr>sy_store := st, sy_pc := PList (OnEvent event)\<rparr>))
           | (Drained, st) \<Rightarrow> Some (Inr (s\<lparr>sy_pc := PReturned\<rparr>))
           | (Blocks, st) \<Rightarrow> None)
      | ChooseTick \<Rightarrow> Some (Inr (s\<lparr>sy_pc := PList OnTick\<rparr>))
      | ChooseTrigger \<Rightarrow>
          (case recv (p_trigger (sy_prov s)) of
             (Got u, c) \<Rightarrow> Some (Inr (s\<lparr>sy_prov := (sy_prov s)\<lparr>p_trigger := c\<rparr>, sy_pc := PList OnTrigger\<rparr>))
           | _ \<Rightarrow> None))"

text \<open>\<open>MemStore.List\<close> never fails, whatever the context.\<close>

definition listing_of :: "system \<Rightarrow> string \<rightharpoonup> string" where
  "listing_of s = ms_list (p_ns (sy_prov s)) (sy_store s)"

definition after_install :: "loop_reason \<Rightarrow> provider \<Rightarrow> loop_pc" where
  "after_install r p =
     (case r of
        OnEvent event \<Rightarrow> if is_recreate p (ce_key event) then PNotify event else PSelect
      | _ \<Rightarrow> PSelect)"

definition loop_step :: "loop_choice \<Rightarrow> go_time \<Rightarrow> system \<Rightarrow> sys_result" where
  "loop_step choice now s =
     (case sy_pc s of
        PStartList \<Rightarrow> Some (Inr (s\<lparr>sy_pc := PStartInstall (listing_of s)\<rparr>))
      | PStartInstall ov \<Rightarrow>
          with_prov (bind_res (refresh now (Inr ov) (sy_prov s)) (\<lambda>(p, err). Inr p)) (\<lambda>p. PStartWatch) s
      | PStartWatch \<Rightarrow>
          (let (st, ch) = ms_watch (p_ns (sy_prov s)) (sy_store s) in
           Some (Inr (s\<lparr>sy_store := st, sy_ch := ch, sy_pc := PSelect\<rparr>)))
      | PSelect \<Rightarrow> select_step choice s
      | PList r \<Rightarrow> Some (Inr (s\<lparr>sy_pc := PInstall r (listing_of s)\<rparr>))
      | PInstall r ov \<Rightarrow>
          with_prov (bind_res (refresh now (Inr ov) (sy_prov s)) (\<lambda>(p, err). Inr p)) (after_install r) s
      | PNotify event \<Rightarrow> with_prov (notify_subscribers event (sy_prov s)) (\<lambda>p. PSelect) s
      | PReturned \<Rightarrow> None)"

subsection \<open>All steps\<close>

definition with_store :: "(chan_panic + mem_store) \<Rightarrow> system \<Rightarrow> sys_result" where
  "with_store r s = Some (bind_res (lift_panic ChannelPanic r) (\<lambda>st. Inr (s\<lparr>sy_store := st\<rparr>)))"

definition other_step :: "sys_label \<Rightarrow> system \<Rightarrow> sys_result" where
  "other_step l s =
     (let p = sy_prov s; same = (\<lambda>p. sy_pc s) in
      case l of
        LWrite op1 \<Rightarrow>
          (let (st, oevent) = ms_write op1 (sy_store s) in
           Some (Inr (s\<lparr>sy_store := st,
             sy_inflight := (case oevent of None \<Rightarrow> [] | Some e \<Rightarrow> [e]) @ sy_inflight s\<rparr>)))
      | LBroadcast event \<Rightarrow>
          if event \<in> set (sy_inflight s)
          then with_store (ms_broadcast event (sy_store s)) (s\<lparr>sy_inflight := remove1 event (sy_inflight s)\<rparr>)
          else None
      | LRefresh \<Rightarrow> if started (sy_pc s) then with_prov (request_refresh p) same s else None
      | LSubscribe \<Rightarrow> if started (sy_pc s) then with_prov (Inr (fst (subscribe p))) same s else None
      | LUnsubscribe ch \<Rightarrow> if started (sy_pc s) then with_prov (unsubscribe ch p) same s else None
      | LSubRecv ch \<Rightarrow> with_prov (Inr (snd (sub_recv ch p))) same s
      | LCancel \<Rightarrow> with_prov (Inr (p\<lparr>p_cancelled := True\<rparr>)) same s
      | LUnwatch \<Rightarrow>
          if started (sy_pc s) \<and> p_cancelled p then with_store (ms_unwatch (sy_ch s) (sy_store s)) s
          else None
      | LCloseBegin \<Rightarrow>
          if \<not> started (sy_pc s) then None
          else if p_once p then Some (Inr s)
          else with_prov (Inr (close_begin p)) same (s\<lparr>sy_closing := True\<rparr>)
      | LCloseFinish \<Rightarrow>
          if sy_closing s \<and> sy_pc s = PReturned
          then with_prov (close_finish None p) same (s\<lparr>sy_closing := False\<rparr>)
          else None
      | LOtherWatch ns \<Rightarrow> Some (Inr (s\<lparr>sy_store := fst (ms_watch ns (sy_store s))\<rparr>))
      | LOtherUnwatch ch \<Rightarrow>
          if started (sy_pc s) \<and> ch = sy_ch s then None else with_store (ms_unwatch ch (sy_store s)) s
      | LOtherRecv ch \<Rightarrow>
          if started (sy_pc s) \<and> ch = sy_ch s then None
          else Some (Inr (s\<lparr>sy_store := snd (ms_recv ch (sy_store s))\<rparr>))
      | LLoop choice now \<Rightarrow> None)"

definition sys_exec :: "sys_label \<Rightarrow> system \<Rightarrow> sys_result" where
  "sys_exec l s =
     (case l of LLoop choice now \<Rightarrow> loop_step choice now s | _ \<Rightarrow> other_step l s)"

text \<open>A step is one of the loop's or one of the rest of the program.\<close>

lemma sys_exec_cases:
  assumes "sys_exec l s = Some (Inr s')"
  obtains (loop) c now where "l = LLoop c now" "loop_step c now s = Some (Inr s')"
    | (other) "\<And>c now. l \<noteq> LLoop c now" "other_step l s = Some (Inr s')"
  using assms by (cases l) (auto simp: sys_exec_def)

fun sys_run :: "sys_label list \<Rightarrow> system \<Rightarrow> sys_result" where
  "sys_run [] s = Some (Inr s)"
| "sys_run (l # ls) s =
     (case sys_exec l s of Some (Inr s') \<Rightarrow> sys_run ls s' | r \<Rightarrow> r)"

text \<open>The start: \<open>New\<close> has built the provider; the store may hold anything already.\<close>

definition sys_start ::
  "gtype \<Rightarrow> gval list \<Rightarrow> gval \<Rightarrow> field_descriptor list \<Rightarrow> provider_options \<Rightarrow> mem_store \<Rightarrow> system" where
  "sys_start t h base cat cfg st =
     \<lparr>sy_store = st, sy_inflight = [], sy_prov = init_provider t h base cat cfg,
      sy_pc = PStartList, sy_ch = 0, sy_closing = False\<rparr>"

inductive sys_reach :: "system \<Rightarrow> system \<Rightarrow> bool" for s0 where
  sr_refl: "sys_reach s0 s0"
| sr_step: "sys_reach s0 s \<Longrightarrow> sys_exec l s = Some (Inr s') \<Longrightarrow> sys_reach s0 s'"

lemma sys_reach_run: "sys_reach s0 s \<Longrightarrow> sys_run ls s = Some (Inr s') \<Longrightarrow> sys_reach s0 s'"
proof (induction ls arbitrary: s)
  case (Cons l ls)
  then obtain t where "sys_exec l s = Some (Inr t)" "sys_run ls t = Some (Inr s')"
    by (auto split: option.splits sum.splits)
  with Cons show ?case by (blast intro: sr_step)
qed simp

end
