(* ===== verification/System_Inv.thy ===== *)
theory System_Inv
  imports System
begin

text \<open>
  Invariants of the provider and store running together: no step panics, and the
  snapshot is that of the store's overrides unless an event is still on its way.
\<close>

subsection \<open>The store's steps seen by one watcher\<close>

definition watching :: "string \<Rightarrow> nat \<Rightarrow> mem_store \<Rightarrow> bool" where
  "watching ns ch st \<longleftrightarrow> \<lparr>w_namespace = ns, w_ch = ch\<rparr> \<in> set (ms_watchers st)"

lemma ms_write_same:
  "ms_watchers (fst (ms_write op1 st)) = ms_watchers st"
  "ms_chans (fst (ms_write op1 st)) = ms_chans st" "ms_next (fst (ms_write op1 st)) = ms_next st"
  by (auto simp: ms_write_def ms_set_write_def ms_delete_write_def Let_def
      split: store_op.split option.split)

lemma ms_broadcast_watching:
  assumes "ms_ok st"
  obtains st' where "ms_broadcast e st = Inr st'" "ms_ok st'"
    "\<And>ns ch. watching ns ch st' = watching ns ch st" "ms_next st' = ms_next st"
    "\<And>ns. ms_list ns st' = ms_list ns st"
    "\<And>ch. buf (ms_chans st ch) \<noteq> [] \<Longrightarrow> buf (ms_chans st' ch) \<noteq> []"
    "\<And>ch. watching (ce_namespace e) ch st \<Longrightarrow> buf (ms_chans st' ch) \<noteq> []"
proof -
  from ms_broadcast_ok [OF assms, of e] obtain tab where t:
    "ms_broadcast e st = Inr (st\<lparr>ms_chans := tab\<rparr>)" "ms_ok (st\<lparr>ms_chans := tab\<rparr>)"
    "\<And>i. i \<in> set (watchers_of (ce_namespace e) st) \<Longrightarrow>
       buf (tab i) = (if has_room (ms_chans st i) then buf (ms_chans st i) @ [e]
                      else buf (ms_chans st i))"
    "\<And>i. i \<notin> set (watchers_of (ce_namespace e) st) \<Longrightarrow> tab i = ms_chans st i"
    by blast
  have full: "buf (ms_chans st i) \<noteq> []" if "\<not> has_room (ms_chans st i)" for i
    using that assms by (auto simp: ms_ok_def has_room_def)
  have "buf (tab i) \<noteq> []" if "i \<in> set (watchers_of (ce_namespace e) st)" for i
    using t(3) [OF that] full [of i] by auto
  moreover have "buf (tab i) \<noteq> []" if "buf (ms_chans st i) \<noteq> []" for i
    using that t(3) [of i] t(4) [of i]
    by (cases "i \<in> set (watchers_of (ce_namespace e) st)") auto
  moreover have "ch \<in> set (watchers_of ns st)" if "watching ns ch st" for ns ch
    using that by (force simp: watching_def watchers_of_def)
  ultimately show ?thesis
    using that [OF t(1,2)] by (auto simp: watching_def ms_list_def)
qed

lemma ms_unwatch_watching:
  assumes "ms_ok st"
  obtains st' where "ms_unwatch ch st = Inr st'" "ms_ok st'" "ms_next st' = ms_next st"
    "\<And>ns. ms_list ns st' = ms_list ns st"
    "\<And>ns c. c \<noteq> ch \<Longrightarrow> watching ns c st' = watching ns c st"
    "\<And>c. c \<noteq> ch \<Longrightarrow> ms_chans st' c = ms_chans st c"
proof -
  from ms_unwatch_ok [OF assms, of ch] obtain st' where s: "ms_unwatch ch st = Inr st'" "ms_ok st'"
    "ms_data st' = ms_data st" by blast
  have "ms_next st' = ms_next st \<and> (\<forall>ns c. c \<noteq> ch \<longrightarrow> watching ns c st' = watching ns c st)
      \<and> (\<forall>c. c \<noteq> ch \<longrightarrow> ms_chans st' c = ms_chans st c)"
  proof (cases "remove_watcher ch (ms_watchers st)")
    case None
    with s(1) show ?thesis by (simp add: ms_unwatch_def)
  next
    case (Some ws)
    then obtain us w vs where "ms_watchers st = us @ w # vs" "ws = us @ vs" "w_ch w = ch"
      using remove_watcher_Some by blast
    with Some s(1) show ?thesis
      by (auto simp: ms_unwatch_def bind_res_Inr_iff watching_def)
  qed
  with that [OF s(1,2)] show ?thesis by (simp add: ms_list_data [OF s(3)])
qed

lemma ms_recv_other:
  "watching ns ch (snd (ms_recv c st)) = watching ns ch st"
  "ms_list ns (snd (ms_recv c st)) = ms_list ns st" "ms_next (snd (ms_recv c st)) = ms_next st"
  "ch \<noteq> c \<Longrightarrow> ms_chans (snd (ms_recv c st)) ch = ms_chans st ch"
  by (simp_all add: ms_recv_def split_beta watching_def ms_list_def)

lemma ms_watch_other:
  "watching ns ch st \<Longrightarrow> watching ns ch (fst (ms_watch n st))"
  "ms_list ns (fst (ms_watch n st)) = ms_list ns st"
  "ms_next (fst (ms_watch n st)) = Suc (ms_next st)"
  "ch < ms_next st \<Longrightarrow> ms_chans (fst (ms_watch n st)) ch = ms_chans st ch"
  "watching n (ms_next st) (fst (ms_watch n st))" "snd (ms_watch n st) = ms_next st"
  by (simp_all add: ms_watch_def Let_def watching_def ms_list_def)

subsection \<open>No step panics\<close>

definition sys_ok :: "system \<Rightarrow> bool" where
  "sys_ok s \<longleftrightarrow>
     ms_ok (sy_store s) \<and> prov_ok (sy_prov s) \<and> prov_safe (sy_prov s)
     \<and> (started (sy_pc s) \<longrightarrow>
          sy_ch s < ms_next (sy_store s) \<and> p_current (sy_prov s) \<noteq> None
          \<and> (p_cancelled (sy_prov s) \<or> watching (p_ns (sy_prov s)) (sy_ch s) (sy_store s)))
     \<and> (sy_pc s = PStartWatch \<longrightarrow> p_current (sy_prov s) \<noteq> None)"

text \<open>A step's outcome: not enabled, or a state with the property; never a panic.\<close>

definition outcome_ok :: "(system \<Rightarrow> bool) \<Rightarrow> sys_result \<Rightarrow> bool" where
  "outcome_ok Q r \<longleftrightarrow> (case r of None \<Rightarrow> True | Some (Inl e) \<Rightarrow> False | Some (Inr s) \<Rightarrow> Q s)"

lemma outcome_ok_simps [simp]:
  "outcome_ok Q None" "\<not> outcome_ok Q (Some (Inl e))" "outcome_ok Q (Some (Inr s)) = Q s"
  by (simp_all add: outcome_ok_def)

lemma outcome_ok_elim: "outcome_ok Q r \<Longrightarrow> r = Some (Inr s) \<Longrightarrow> Q s"
  by simp

lemma prov_safe_simps [simp]:
  "prov_safe (p\<lparr>p_trigger := c\<rparr>) = prov_safe p" "prov_safe (p\<lparr>p_chans := tab\<rparr>) = prov_safe p"
  "prov_safe (p\<lparr>p_cancelled := b\<rparr>) = prov_safe p"
  "prov_ok (p\<lparr>p_cancelled := b\<rparr>) = prov_ok p"
  "prov_safe (p\<lparr>p_chans := tab, p_subs := subs, p_close_err := ce\<rparr>) = prov_safe p"
  "prov_safe (p\<lparr>p_subs := subs, p_chans := tab\<rparr>) = prov_safe p"
  "prov_safe (p\<lparr>p_subs := subs\<rparr>) = prov_safe p"
  "prov_safe (close_begin p) = prov_safe p" "prov_ok (close_begin p) = prov_ok p"
  by (simp_all add: prov_safe_def prov_flat_def prov_typed_def prov_ok_def close_begin_def cong: option.case_cong)

lemma prov_ok_trigger_recv: "prov_ok p \<Longrightarrow> prov_ok (p\<lparr>p_trigger := snd (recv (p_trigger p))\<rparr>)"
  using chan_ok_recv [of "p_trigger p"] by (simp add: prov_ok_def)

lemma refresh_step:
  assumes "prov_ok p" "prov_safe p"
  shows "\<exists>p'. bind_res (refresh now (Inr ov) p) (\<lambda>(p, err). Inr p) = (Inr p' :: provider_panic + provider)
    \<and> prov_ok p' \<and> prov_safe p' \<and> p_current p' \<noteq> None \<and> (prov_flat p \<longrightarrow> p_current p' = Some (snapshot_of p ov))
    \<and> p_ns p' = p_ns p \<and> p_cancelled p' = p_cancelled p \<and> snapshot_of p' = snapshot_of p"
proof -
  obtain p' where r: "refresh now (Inr ov) p = Inr (p', None)" "prov_safe p'" "p_current p' \<noteq> None"
    using refresh_safe [OF assms(2)] by blast
  moreover have "prov_flat p \<Longrightarrow> p_current p' = Some (snapshot_of p ov)"
    using refresh_flat [of p now ov] r(1) by auto
  ultimately show ?thesis
    using refresh_same [OF r(1)] prov_ok_refresh [OF assms(1) r(1)]
    by (intro exI [of _ p']) (auto simp: snapshot_of_def fun_eq_iff)
qed

lemma select_step_ok:
  assumes "sys_ok s" "sy_pc s = PSelect"
  shows "outcome_ok sys_ok (select_step choice s)"
proof (cases choice)
  case ChooseEvent
  obtain r st where r: "ms_recv (sy_ch s) (sy_store s) = (r, st)" by fastforce
  have "ms_ok st" "\<And>ns ch. watching ns ch st = watching ns ch (sy_store s)"
    "ms_next st = ms_next (sy_store s)"
    using assms(1) ms_ok_recv [of "sy_store s" "sy_ch s"] r
      ms_recv_other(1,3) [where c = "sy_ch s" and st = "sy_store s"]
    by (simp_all add: sys_ok_def)
  with assms have "sys_ok (s\<lparr>sy_store := st, sy_pc := PList (OnEvent e)\<rparr>)"
    "sys_ok (s\<lparr>sy_pc := PReturned\<rparr>)" for e
    by (auto simp: sys_ok_def)
  with r ChooseEvent show ?thesis by (cases r) (simp_all add: select_step_def)
next
  case ChooseTrigger
  obtain r c where r: "recv (p_trigger (sy_prov s)) = (r, c)" by fastforce
  with assms prov_ok_trigger_recv [of "sy_prov s"]
  have "sys_ok (s\<lparr>sy_prov := (sy_prov s)\<lparr>p_trigger := c\<rparr>, sy_pc := PList OnTrigger\<rparr>)"
    by (auto simp: sys_ok_def)
  with r ChooseTrigger show ?thesis by (cases r) (simp_all add: select_step_def)
qed (use assms in \<open>auto simp: select_step_def sys_ok_def\<close>)

lemma loop_step_ok:
  assumes "sys_ok s"
  shows "outcome_ok sys_ok (loop_step choice now s)"
proof (cases "sy_pc s")
  case (PStartInstall ov)
  have "prov_ok (sy_prov s)" "prov_safe (sy_prov s)" using assms by (simp_all add: sys_ok_def)
  from refresh_step [OF this, of now ov] obtain p' where
    "bind_res (refresh now (Inr ov) (sy_prov s)) (\<lambda>(p, err). Inr p) = (Inr p' :: provider_panic + provider)"
    "prov_ok p'" "prov_safe p'" "p_current p' \<noteq> None" by auto
  with assms PStartInstall show ?thesis by (simp add: loop_step_def with_prov_def sys_ok_def)
next
  case PStartWatch
  obtain st ch where w: "ms_watch (p_ns (sy_prov s)) (sy_store s) = (st, ch)" by fastforce
  then have e: "st = fst (ms_watch (p_ns (sy_prov s)) (sy_store s))"
    "ch = snd (ms_watch (p_ns (sy_prov s)) (sy_store s))" by simp_all
  have "watching (p_ns (sy_prov s)) ch st" "ch < ms_next st" "ms_ok st"
    using assms unfolding e by (simp_all add: sys_ok_def ms_watch_other ms_ok_watch)
  with assms PStartWatch w show ?thesis by (simp add: loop_step_def sys_ok_def)
next
  case (PInstall r ov)
  have "prov_ok (sy_prov s)" "prov_safe (sy_prov s)" using assms by (simp_all add: sys_ok_def)
  from refresh_step [OF this, of now ov] obtain p' where
    p: "bind_res (refresh now (Inr ov) (sy_prov s)) (\<lambda>(p, err). Inr p) = (Inr p' :: provider_panic + provider)"
    "prov_ok p'" "prov_safe p'" "p_current p' \<noteq> None" "p_ns p' = p_ns (sy_prov s)"
    "p_cancelled p' = p_cancelled (sy_prov s)" by auto
  have "started (after_install r p')" "after_install r p' \<noteq> PStartWatch"
    by (auto simp: after_install_def split: loop_reason.split)
  with assms PInstall p show ?thesis by (auto simp: loop_step_def with_prov_def sys_ok_def)
next
  case (PNotify event)
  from notify_ok [of "sy_prov s" event] assms obtain tab where
    "notify_subscribers event (sy_prov s) = Inr ((sy_prov s)\<lparr>p_chans := tab\<rparr>)"
    "prov_ok ((sy_prov s)\<lparr>p_chans := tab\<rparr>)" by (auto simp: sys_ok_def)
  with assms PNotify show ?thesis by (simp add: loop_step_def with_prov_def sys_ok_def)
qed (use assms select_step_ok in \<open>auto simp: loop_step_def sys_ok_def\<close>)

lemma with_store_ok:
  "r = Inr st \<Longrightarrow> with_store r s = Some (Inr (s\<lparr>sy_store := st\<rparr>))"
  by (simp add: with_store_def)

lemma with_prov_ok:
  "r = Inr p \<Longrightarrow> with_prov r pc s = Some (Inr (s\<lparr>sy_prov := p, sy_pc := pc p\<rparr>))"
  by (simp add: with_prov_def)

lemma sys_ok_store:
  "sys_ok s \<Longrightarrow> ms_ok st \<Longrightarrow> ms_next (sy_store s) \<le> ms_next st \<Longrightarrow>
   (started (sy_pc s) \<Longrightarrow> \<not> p_cancelled (sy_prov s) \<Longrightarrow>
      watching (p_ns (sy_prov s)) (sy_ch s) (sy_store s) \<Longrightarrow> watching (p_ns (sy_prov s)) (sy_ch s) st) \<Longrightarrow>
   sys_ok (s\<lparr>sy_store := st, sy_inflight := fl\<rparr>)"
  by (auto simp: sys_ok_def)

lemma sys_ok_prov:
  "sys_ok s \<Longrightarrow> prov_ok p \<Longrightarrow> prov_safe p \<Longrightarrow> p_current p = p_current (sy_prov s) \<Longrightarrow>
   p_ns p = p_ns (sy_prov s) \<Longrightarrow> (p_cancelled (sy_prov s) \<longrightarrow> p_cancelled p) \<Longrightarrow>
   sys_ok (s\<lparr>sy_closing := b, sy_prov := p, sy_pc := sy_pc s\<rparr>)"
  by (auto simp: sys_ok_def)

lemma subscribe_same:
  "p_current (fst (subscribe p)) = p_current p" "p_ns (fst (subscribe p)) = p_ns p"
  "p_cancelled (fst (subscribe p)) = p_cancelled p" "prov_safe (fst (subscribe p)) = prov_safe p"
  "p_catalog (fst (subscribe p)) = p_catalog p" "p_base (fst (subscribe p)) = p_base p"
  by (simp_all add: subscribe_def Let_def prov_safe_def prov_flat_def prov_typed_def cong: option.case_cong)

lemma sub_recv_same:
  "p_current (snd (sub_recv ch p)) = p_current p" "p_ns (snd (sub_recv ch p)) = p_ns p"
  "p_cancelled (snd (sub_recv ch p)) = p_cancelled p" "prov_safe (snd (sub_recv ch p)) = prov_safe p"
  "p_catalog (snd (sub_recv ch p)) = p_catalog p" "p_base (snd (sub_recv ch p)) = p_base p"
  by (simp_all add: sub_recv_def split_beta prov_safe_def prov_flat_def prov_typed_def cong: option.case_cong)

text \<open>
  A step of the rest of the program leaves the loop where it is. It either keeps the
  snapshot and changes the store, or keeps the store and changes the provider.
\<close>

definition store_side :: "system \<Rightarrow> system \<Rightarrow> bool" where
  "store_side s s' \<longleftrightarrow> (\<exists>st fl. s' = s\<lparr>sy_store := st, sy_inflight := fl\<rparr>)"

definition prov_side :: "system \<Rightarrow> system \<Rightarrow> bool" where
  "prov_side s s' \<longleftrightarrow>
     (\<exists>p b. s' = s\<lparr>sy_closing := b, sy_prov := p, sy_pc := sy_pc s\<rparr> \<and> p_current p = p_current (sy_prov s)
        \<and> p_ns p = p_ns (sy_prov s) \<and> snapshot_of p = snapshot_of (sy_prov s)
        \<and> (p_cancelled (sy_prov s) \<longrightarrow> p_cancelled p))"

lemma prov_step_ok:
  assumes "sys_ok s" "prov_ok p" "prov_safe p" "p_current p = p_current (sy_prov s)"
    "p_ns p = p_ns (sy_prov s)" "p_cancelled (sy_prov s) \<longrightarrow> p_cancelled p"
    "p_catalog p = p_catalog (sy_prov s)" "p_base p = p_base (sy_prov s)"
    "r = Inr p" "s1 = s\<lparr>sy_closing := b\<rparr>"
  shows "outcome_ok (\<lambda>s'. sys_ok s' \<and> prov_side s s') (with_prov r (\<lambda>p. sy_pc s) s1)"
proof -
  have "snapshot_of p = snapshot_of (sy_prov s)"
    using assms(7,8) by (simp add: snapshot_of_def fun_eq_iff)
  moreover have "sys_ok (s\<lparr>sy_closing := b, sy_prov := p, sy_pc := sy_pc s\<rparr>)"
    using assms by (intro sys_ok_prov) auto
  moreover have "with_prov r (\<lambda>p. sy_pc s) s1 =
      Some (Inr (s\<lparr>sy_closing := b, sy_prov := p, sy_pc := sy_pc s\<rparr>))"
    using assms(9,10) by (simp add: with_prov_def)
  ultimately show ?thesis using assms(4-6) unfolding prov_side_def by (simp only: outcome_ok_simps) blast
qed

lemma store_step_ok:
  assumes "sys_ok s" "ms_ok st" "ms_next (sy_store s) \<le> ms_next st"
    "\<And>ns c. started (sy_pc s) \<Longrightarrow> c = sy_ch s \<Longrightarrow> \<not> p_cancelled (sy_prov s) \<Longrightarrow>
       watching ns c (sy_store s) \<Longrightarrow> watching ns c st"
    "r = Some (Inr (s\<lparr>sy_store := st, sy_inflight := fl\<rparr>))"
  shows "outcome_ok (\<lambda>s'. sys_ok s' \<and> store_side s s') r"
  using sys_ok_store [OF assms(1-3)] assms(4,5) by (auto simp: store_side_def)

text \<open>The steps on the store's side.\<close>

lemma unwatch_step_ok:
  assumes ok: "sys_ok s" and own: "started (sy_pc s) \<Longrightarrow> ch = sy_ch s \<Longrightarrow> p_cancelled (sy_prov s)"
  shows "outcome_ok (\<lambda>s'. sys_ok s' \<and> store_side s s') (with_store (ms_unwatch ch (sy_store s)) s)"
proof -
  have ms: "ms_ok (sy_store s)" using ok by (simp add: sys_ok_def)
  from ms_unwatch_watching [OF ms, of ch] obtain st where
    st: "ms_unwatch ch (sy_store s) = Inr st" "ms_ok st" "ms_next st = ms_next (sy_store s)"
      "\<And>ns c. c \<noteq> ch \<Longrightarrow> watching ns c st = watching ns c (sy_store s)"
    by metis
  show ?thesis
    by (rule store_step_ok [OF ok st(2), where fl = "sy_inflight s"])
       (use st own in \<open>simp_all add: with_store_def, metis\<close>)
qed

lemma broadcast_step_ok:
  assumes ok: "sys_ok s"
  shows "outcome_ok (\<lambda>s'. sys_ok s' \<and> store_side s s')
     (with_store (ms_broadcast e (sy_store s)) (s\<lparr>sy_inflight := fl\<rparr>))"
proof -
  have ms: "ms_ok (sy_store s)" using ok by (simp add: sys_ok_def)
  from ms_broadcast_watching [OF ms, of e] obtain st where
    st: "ms_broadcast e (sy_store s) = Inr st" "ms_ok st"
      "\<And>ns ch. watching ns ch st = watching ns ch (sy_store s)" "ms_next st = ms_next (sy_store s)"
    by metis
  show ?thesis
    by (rule store_step_ok [OF ok st(2), where fl = fl]) (use st in \<open>simp_all add: with_store_def\<close>)
qed

lemma store_steps_ok:
  assumes ok: "sys_ok s" and l: "l \<in> {LUnwatch} \<union> range LWrite \<union> range LBroadcast
     \<union> range LOtherWatch \<union> range LOtherUnwatch \<union> range LOtherRecv"
  shows "outcome_ok (\<lambda>s'. sys_ok s' \<and> store_side s s') (other_step l s)"
proof -
  have ms: "ms_ok (sy_store s)" using ok by (simp add: sys_ok_def)
  have wr: "outcome_ok (\<lambda>s'. sys_ok s' \<and> store_side s s') (other_step (LWrite op1) s)" for op1
    by (rule store_step_ok [OF ok ms_ok_write [OF ms, of op1], where fl = "(case snd (ms_write op1
          (sy_store s)) of None \<Rightarrow> [] | Some e \<Rightarrow> [e]) @ sy_inflight s"])
       (simp_all add: ms_write_same watching_def other_step_def split_beta Let_def)
  have watch: "outcome_ok (\<lambda>s'. sys_ok s' \<and> store_side s s') (other_step (LOtherWatch ns) s)" for ns
    by (rule store_step_ok [OF ok ms_ok_watch [OF ms, of ns], where fl = "sy_inflight s"])
       (simp_all add: other_step_def ms_watch_other)
  have recv: "outcome_ok (\<lambda>s'. sys_ok s' \<and> store_side s s')
      (Some (Inr (s\<lparr>sy_store := snd (ms_recv ch (sy_store s))\<rparr>)))" for ch
    by (rule store_step_ok [OF ok ms_ok_recv [OF ms, of ch], where fl = "sy_inflight s"])
       (simp_all add: ms_recv_other)
  show ?thesis
    using l wr watch recv unwatch_step_ok [OF ok] broadcast_step_ok [OF ok]
    by (auto simp: other_step_def)
qed

text \<open>The steps on the provider's side.\<close>

lemma unsubscribe_step_ok:
  assumes ok: "sys_ok s"
  shows "outcome_ok (\<lambda>s'. sys_ok s' \<and> prov_side s s')
     (with_prov (unsubscribe ch (sy_prov s)) (\<lambda>p. sy_pc s) s)"
proof -
  have pr: "prov_ok (sy_prov s)" "prov_safe (sy_prov s)" using ok by (simp_all add: sys_ok_def)
  obtain subs tab where p: "unsubscribe ch (sy_prov s) = Inr ((sy_prov s)\<lparr>p_subs := subs, p_chans := tab\<rparr>)"
    "prov_ok ((sy_prov s)\<lparr>p_subs := subs, p_chans := tab\<rparr>)"
    using unsubscribe_ok [OF pr(1), of ch] by metis
  show ?thesis
    by (intro prov_step_ok [OF ok p(2) _ _ _ _ _ _ p(1), where b = "sy_closing s"]) (simp_all add: pr)
qed

lemma close_finish_step_ok:
  assumes ok: "sys_ok s"
  shows "outcome_ok (\<lambda>s'. sys_ok s' \<and> prov_side s s')
     (with_prov (close_finish e (sy_prov s)) (\<lambda>p. sy_pc s) (s\<lparr>sy_closing := False\<rparr>))"
proof -
  have pr: "prov_ok (sy_prov s)" "prov_safe (sy_prov s)" using ok by (simp_all add: sys_ok_def)
  obtain tab where t: "close_finish e (sy_prov s) =
      Inr ((sy_prov s)\<lparr>p_chans := tab, p_subs := [], p_close_err := e\<rparr>)"
    "prov_ok ((sy_prov s)\<lparr>p_chans := tab, p_subs := [], p_close_err := e\<rparr>)"
    using close_finish_ok [OF pr(1), of e] by blast
  show ?thesis
    by (intro prov_step_ok [OF ok t(2) _ _ _ _ _ _ t(1) refl]) (simp_all add: pr)
qed

lemma prov_steps_ok:
  assumes ok: "sys_ok s" and l: "l \<in> {LRefresh, LSubscribe, LCancel, LCloseFinish}
     \<union> range LUnsubscribe \<union> range LSubRecv"
  shows "outcome_ok (\<lambda>s'. sys_ok s' \<and> prov_side s s') (other_step l s)"
proof -
  have pr: "prov_ok (sy_prov s)" "prov_safe (sy_prov s)" using ok by (simp_all add: sys_ok_def)
  note step = prov_step_ok [OF ok _ _ _ _ _ _ _ _, where b = "sy_closing s" and ?s1.0 = s]
  have "outcome_ok (\<lambda>s'. sys_ok s' \<and> prov_side s s') (other_step LRefresh s)"
    using step [OF prov_ok_request [OF pr(1)] _ _ _ _ _ _ request_refresh_ok [OF pr(1)]] pr
    by (simp add: other_step_def)
  moreover have "outcome_ok (\<lambda>s'. sys_ok s' \<and> prov_side s s') (other_step LSubscribe s)"
    using step [OF prov_ok_subscribe [OF pr(1)] _ _ _ _ _ _ refl] pr
    by (simp add: other_step_def subscribe_same)
  moreover have "outcome_ok (\<lambda>s'. sys_ok s' \<and> prov_side s s') (other_step (LSubRecv ch) s)" for ch
    using step [OF prov_ok_sub_recv [OF pr(1)] _ _ _ _ _ _ refl] pr
    by (simp add: other_step_def sub_recv_same)
  moreover have "outcome_ok (\<lambda>s'. sys_ok s' \<and> prov_side s s') (other_step LCancel s)"
    using step [OF _ _ _ _ _ _ _ refl, of "(sy_prov s)\<lparr>p_cancelled := True\<rparr>"] pr
    by (simp add: other_step_def)
  ultimately show ?thesis
    using l unsubscribe_step_ok [OF ok] close_finish_step_ok [OF ok]
    by (auto simp: other_step_def)
qed

lemma close_begin_step_ok:
  assumes ok: "sys_ok s"
  shows "outcome_ok (\<lambda>s'. sys_ok s' \<and> (store_side s s' \<or> prov_side s s')) (other_step LCloseBegin s)"
proof -
  have pr: "prov_ok (sy_prov s)" "prov_safe (sy_prov s)" using ok by (simp_all add: sys_ok_def)
  have "store_side s s"
    unfolding store_side_def by (intro exI [of _ "sy_store s"] exI [of _ "sy_inflight s"]) simp
  moreover have "outcome_ok (\<lambda>s'. sys_ok s' \<and> prov_side s s')
      (with_prov (Inr (close_begin (sy_prov s))) (\<lambda>p. sy_pc s) (s\<lparr>sy_closing := True\<rparr>))"
    by (intro prov_step_ok [OF ok _ _ _ _ _ _ _ refl refl])
       (simp_all add: pr, simp_all add: close_begin_def)
  ultimately show ?thesis using ok
    by (auto simp: other_step_def Let_def outcome_ok_def split: option.splits sum.splits)
qed

lemma other_step_ok:
  assumes ok: "sys_ok s"
  shows "outcome_ok (\<lambda>s'. sys_ok s' \<and> (store_side s s' \<or> prov_side s s')) (other_step l s)"
proof -
  have weaken: "outcome_ok (\<lambda>s'. sys_ok s' \<and> (store_side s s' \<or> prov_side s s')) r"
    if "outcome_ok (\<lambda>s'. sys_ok s' \<and> store_side s s') r
        \<or> outcome_ok (\<lambda>s'. sys_ok s' \<and> prov_side s s') r" for r
    using that by (auto simp: outcome_ok_def split: option.splits sum.splits)
  show ?thesis
    using store_steps_ok [OF ok, of l] prov_steps_ok [OF ok, of l] close_begin_step_ok [OF ok] weaken
    by (cases l) (auto simp: other_step_def)
qed

lemma sys_exec_ok: "sys_ok s \<Longrightarrow> outcome_ok sys_ok (sys_exec l s)"
  using loop_step_ok other_step_ok [of s l]
  by (cases l) (auto simp: sys_exec_def outcome_ok_def split: option.splits sum.splits)

lemma sys_ok_reach: "sys_reach s0 s \<Longrightarrow> sys_ok s0 \<Longrightarrow> sys_ok s"
proof (induction rule: sys_reach.induct)
  case (sr_step s l s')
  then show ?case using outcome_ok_elim [OF sys_exec_ok] by blast
qed

subsection \<open>What stays the same\<close>

text \<open>What no step changes: the type, the base, the catalog with its index, and the namespace.\<close>

definition prov_static :: "provider \<Rightarrow> gtype \<times> gval \<times> field_descriptor list \<times> (string \<rightharpoonup> field_descriptor) \<times> string" where
  "prov_static p = (p_type p, p_base p, p_catalog p, p_desc_by_key p, p_ns p)"

lemma sys_exec_static:
  assumes "sys_exec l s = Some (Inr s')"
  shows "prov_static (sy_prov s') = prov_static (sy_prov s)"
proof -
  have "prov_static (sy_prov s') = prov_static (sy_prov s)" if "loop_step c now s = Some (Inr s')" for c now
    using that
    by (cases "sy_pc s")
       (auto simp: prov_static_def loop_step_def with_prov_def bind_res_Inr_iff select_step_def Let_def
         notify_subscribers_def dest!: refresh_same
         split: loop_choice.splits received.splits if_splits prod.splits)
  moreover have "prov_static (sy_prov s') = prov_static (sy_prov s)" if "other_step l s = Some (Inr s')"
    using that
    by (cases l)
       (auto simp: prov_static_def other_step_def Let_def with_prov_def with_store_def bind_res_Inr_iff
         request_refresh_def subscribe_def unsubscribe_def sub_recv_def close_begin_def
         close_finish_def split: if_splits prod.splits)
  ultimately show ?thesis using assms by (cases l) (auto simp: sys_exec_def)
qed

lemma sys_reach_static: "sys_reach s0 s \<Longrightarrow> prov_static (sy_prov s) = prov_static (sy_prov s0)"
  by (induction rule: sys_reach.induct) (simp_all add: sys_exec_static)

lemma sys_exec_flat: "sys_exec l s = Some (Inr s') \<Longrightarrow> prov_flat (sy_prov s') = prov_flat (sy_prov s)"
  using sys_exec_static [of l s s'] by (simp add: prov_static_def prov_flat_def)

lemma sys_reach_flat: "sys_reach s0 s \<Longrightarrow> prov_flat (sy_prov s) = prov_flat (sy_prov s0)"
  using sys_reach_static [of s0 s] by (simp add: prov_static_def prov_flat_def)

end
