(* ===== verification/System_Fresh.thy ===== *)
theory System_Fresh
  imports System_Inv
begin

text \<open>
  Freshness: while the provider runs, its snapshot is that of the store's overrides, or a
  change event of its namespace is still in flight or waiting in its watch channel. A
  broadcast that finds the channel full is dropped, but then the channel is not empty.
\<close>

definition signalled :: "system \<Rightarrow> bool" where
  "signalled s \<longleftrightarrow>
     buf (ms_chans (sy_store s) (sy_ch s)) \<noteq> []
     \<or> list_ex (\<lambda>e. ce_namespace e = p_ns (sy_prov s)) (sy_inflight s)"

definition up_to_date :: "system \<Rightarrow> bool" where
  "up_to_date s \<longleftrightarrow> p_current (sy_prov s) = Some (snapshot_of (sy_prov s) (listing_of s))"

definition fresh :: "system \<Rightarrow> bool" where
  "fresh s \<longleftrightarrow>
     (case sy_pc s of
        PStartList \<Rightarrow> True
      | PStartInstall ov \<Rightarrow> ov = listing_of s
      | PStartWatch \<Rightarrow> up_to_date s
      | PSelect \<Rightarrow> up_to_date s \<or> signalled s
      | PList r \<Rightarrow> True
      | PInstall r ov \<Rightarrow> ov = listing_of s \<or> signalled s
      | PNotify event \<Rightarrow> up_to_date s \<or> signalled s
      | PReturned \<Rightarrow> True)"

definition fresh_inv :: "system \<Rightarrow> bool" where
  "fresh_inv s \<longleftrightarrow> sys_ok s \<and> prov_flat (sy_prov s) \<and> (p_cancelled (sy_prov s) \<or> fresh s)"

text \<open>Nothing is under way for the provider.\<close>

definition quiescent :: "system \<Rightarrow> bool" where
  "quiescent s \<longleftrightarrow> sy_pc s = PSelect \<and> \<not> signalled s"

text \<open>A step that may come before the watch is registered.\<close>

definition startup_safe :: "string \<Rightarrow> sys_label \<Rightarrow> bool" where
  "startup_safe ns l \<longleftrightarrow> (case l of LWrite op1 \<Rightarrow> fst (op_target op1) \<noteq> ns | _ \<Rightarrow> True)"

lemma fresh_prov_side:
  assumes "prov_side s s'" "p_cancelled (sy_prov s) \<or> fresh s"
  shows "p_cancelled (sy_prov s') \<or> fresh s'"
proof -
  obtain p b where p: "s' = s\<lparr>sy_closing := b, sy_prov := p, sy_pc := sy_pc s\<rparr>"
    "p_current p = p_current (sy_prov s)" "p_ns p = p_ns (sy_prov s)"
    "snapshot_of p = snapshot_of (sy_prov s)" "p_cancelled (sy_prov s) \<longrightarrow> p_cancelled p"
    using assms(1) by (auto simp: prov_side_def)
  then have "listing_of s' = listing_of s" "signalled s' = signalled s" "up_to_date s' = up_to_date s"
    by (simp_all add: listing_of_def signalled_def up_to_date_def)
  with p assms(2) show ?thesis by (auto simp: fresh_def split: loop_pc.split)
qed

text \<open>The store's side: an unchanged listing and no lost signal keep freshness.\<close>

lemma fresh_store_side:
  assumes "s' = s\<lparr>sy_store := st, sy_inflight := fl\<rparr>" "fresh s"
    and "listing_of s' = listing_of s \<or> started (sy_pc s) \<and> signalled s'"
    and "started (sy_pc s) \<Longrightarrow> signalled s \<Longrightarrow> signalled s'"
  shows "fresh s'"
proof -
  have "up_to_date s' = up_to_date s" if "listing_of s' = listing_of s"
    using that assms(1) by (simp add: up_to_date_def)
  with assms show ?thesis by (cases "sy_pc s") (auto simp: fresh_def)
qed

lemma kv_step_other: "fst (op_target op1) \<noteq> ns \<Longrightarrow> kv_step op1 m ns = m ns"
  by (cases op1) (simp_all add: op_target_def)

lemma fresh_write:
  assumes "fresh s" "started (sy_pc s) \<or> startup_safe (p_ns (sy_prov s)) (LWrite op1)"
    and "other_step (LWrite op1) s = Some (Inr s')"
  shows "fresh s'"
proof -
  obtain st ev where w: "ms_write op1 (sy_store s) = (st, ev)" by fastforce
  let ?fl = "(case ev of None \<Rightarrow> [] | Some e \<Rightarrow> [e]) @ sy_inflight s"
  have s': "s' = s\<lparr>sy_store := st, sy_inflight := ?fl\<rparr>"
    using assms(3) w by (simp add: other_step_def Let_def)
  have ch: "ms_chans st = ms_chans (sy_store s)" using ms_write_same(2) [of op1 "sy_store s"] w by simp
  let ?ns = "p_ns (sy_prov s)"
  have l: "listing_of s' = kv_step op1 (\<lambda>ns. ms_list ns (sy_store s)) ?ns"
    using ms_list_write [of ?ns op1 "sy_store s"] w by (simp add: s' listing_of_def)
  have sig: "signalled s \<Longrightarrow> signalled s'" by (auto simp: signalled_def s' ch)
  consider "fst (op_target op1) \<noteq> ?ns" | "\<not> op_effective (\<lambda>ns. ms_list ns (sy_store s)) op1"
    | "fst (op_target op1) = ?ns" "op_effective (\<lambda>ns. ms_list ns (sy_store s)) op1" by blast
  then show ?thesis
  proof cases
    case 1
    with l have "listing_of s' = listing_of s" by (simp add: kv_step_other listing_of_def)
    with fresh_store_side [OF s' assms(1)] sig show ?thesis by simp
  next
    case 2
    then have "listing_of s' = listing_of s"
      using ms_write_audit [OF w] by (simp add: s' listing_of_def)
    with fresh_store_side [OF s' assms(1)] sig show ?thesis by simp
  next
    case 3
    then obtain e where "ev = Some e" "ce_namespace e = ?ns"
      using ms_write_event [OF w] by (metis fst_conv)
    then have "signalled s'" by (simp add: signalled_def s')
    moreover have "started (sy_pc s)" using assms(2) 3 by (simp add: startup_safe_def)
    ultimately show ?thesis using fresh_store_side [OF s' assms(1)] sig by simp
  qed
qed

lemma fresh_broadcast:
  assumes "sys_ok s" "\<not> p_cancelled (sy_prov s)" "fresh s"
    and "other_step (LBroadcast e) s = Some (Inr s')"
  shows "fresh s'"
proof -
  have "ms_ok (sy_store s)" using assms(1) by (simp add: sys_ok_def)
  from ms_broadcast_watching [OF this, of e] obtain st where
    st: "ms_broadcast e (sy_store s) = Inr st" "\<And>ns. ms_list ns st = ms_list ns (sy_store s)"
      "\<And>ch. buf (ms_chans (sy_store s) ch) \<noteq> [] \<Longrightarrow> buf (ms_chans st ch) \<noteq> []"
      "\<And>ch. watching (ce_namespace e) ch (sy_store s) \<Longrightarrow> buf (ms_chans st ch) \<noteq> []"
    by metis
  have e: "e \<in> set (sy_inflight s)"
    and s': "s' = s\<lparr>sy_store := st, sy_inflight := remove1 e (sy_inflight s)\<rparr>"
    using assms(4) st(1) by (auto simp: other_step_def with_store_def split: if_splits)
  show ?thesis
  proof (rule fresh_store_side [OF s' assms(3)])
    show "listing_of s' = listing_of s \<or> started (sy_pc s) \<and> signalled s'"
      by (simp add: s' listing_of_def st(2))
    assume a: "started (sy_pc s)" "signalled s"
    then have own: "watching (p_ns (sy_prov s)) (sy_ch s) (sy_store s)"
      using assms(1,2) by (simp add: sys_ok_def)
    show "signalled s'"
    proof (cases "ce_namespace e = p_ns (sy_prov s)")
      case True
      with st(4) own show ?thesis by (simp add: s' signalled_def)
    next
      case False
      with a(2) st(3) show ?thesis
        by (auto simp: s' signalled_def list_ex_iff intro: in_set_remove1 [THEN iffD2] split: if_splits)
    qed
  qed
qed

text \<open>The remaining store steps touch neither the listing nor the provider's channel.\<close>

lemma fresh_quiet_store:
  assumes "fresh s" "s' = s\<lparr>sy_store := st\<rparr>"
    "\<And>ns. ms_list ns st = ms_list ns (sy_store s)"
    "started (sy_pc s) \<Longrightarrow> ms_chans st (sy_ch s) = ms_chans (sy_store s) (sy_ch s)"
  shows "fresh s'"
  by (rule fresh_store_side [OF _ assms(1), of _ "sy_inflight s" st])
     (use assms in \<open>auto simp: listing_of_def signalled_def\<close>)

lemma fresh_unwatch:
  assumes "sys_ok s" "fresh s" "started (sy_pc s) \<Longrightarrow> ch \<noteq> sy_ch s"
    and "with_store (ms_unwatch ch (sy_store s)) s = Some (Inr s')"
  shows "fresh s'"
proof -
  have "ms_ok (sy_store s)" using assms(1) by (simp add: sys_ok_def)
  from ms_unwatch_watching [OF this, of ch] obtain st where
    st: "ms_unwatch ch (sy_store s) = Inr st" "\<And>ns. ms_list ns st = ms_list ns (sy_store s)"
      "\<And>c. c \<noteq> ch \<Longrightarrow> ms_chans st c = ms_chans (sy_store s) c"
    by metis
  show ?thesis
    by (rule fresh_quiet_store [OF assms(2), of _ st])
       (use assms(3,4) st in \<open>auto simp: with_store_def\<close>)
qed

lemma fresh_other:
  assumes "sys_ok s" "p_cancelled (sy_prov s) \<or> fresh s"
    and "started (sy_pc s) \<or> startup_safe (p_ns (sy_prov s)) l"
    and step: "other_step l s = Some (Inr s')"
  shows "p_cancelled (sy_prov s') \<or> fresh s'"
proof (cases "p_cancelled (sy_prov s)")
  case True
  from outcome_ok_elim [OF other_step_ok [OF assms(1)] step]
  show ?thesis using True by (auto simp: store_side_def prov_side_def)
next
  case False
  then have f: "fresh s" using assms(2) by simp
  have prov: ?thesis if "l \<in> {LRefresh, LSubscribe, LCancel, LCloseFinish}
     \<union> range LUnsubscribe \<union> range LSubRecv"
    using outcome_ok_elim [OF prov_steps_ok [OF assms(1) that] step] fresh_prov_side assms(2) by blast
  show ?thesis
  proof (cases l)
    case (LWrite op1)
    with fresh_write [OF f] assms(3) step show ?thesis by simp
  next
    case (LBroadcast e)
    with fresh_broadcast [OF assms(1) False f] step show ?thesis by simp
  next
    case (LOtherUnwatch ch)
    with fresh_unwatch [OF assms(1) f, of ch] step show ?thesis
      by (auto simp: other_step_def split: if_splits)
  next
    case (LOtherWatch ns)
    with assms(1) step fresh_quiet_store [OF f, of _ "fst (ms_watch ns (sy_store s))"]
    show ?thesis by (auto simp: other_step_def ms_watch_other sys_ok_def)
  next
    case (LOtherRecv ch)
    with step fresh_quiet_store [OF f, of _ "snd (ms_recv ch (sy_store s))"]
    show ?thesis by (auto simp: other_step_def ms_recv_other split: if_splits)
  next
    case LCloseBegin
    with step f show ?thesis
      by (auto simp: other_step_def Let_def with_prov_def close_begin_def split: if_splits)
  next
    case (LLoop c now)
    with step show ?thesis by (simp add: other_step_def)
  next
    case LUnwatch
    with step False show ?thesis by (simp add: other_step_def split: if_splits)
  qed (use prov in auto)
qed

subsection \<open>The loop's own steps\<close>

lemma fresh_loop:
  assumes "sys_ok s" "fresh s" "loop_step choice now s = Some (Inr s')" "prov_flat (sy_prov s)"
  shows "fresh s'"
proof (cases "sy_pc s")
  case (PStartInstall ov)
  have "prov_ok (sy_prov s)" "prov_safe (sy_prov s)" using assms(1) by (simp_all add: sys_ok_def)
  from refresh_step [OF this, of now ov] assms(4) obtain p' where
    p: "bind_res (refresh now (Inr ov) (sy_prov s)) (\<lambda>(p, err). Inr p) = (Inr p' :: provider_panic + provider)"
    "p_current p' = Some (snapshot_of (sy_prov s) ov)" "p_ns p' = p_ns (sy_prov s)"
    "snapshot_of p' = snapshot_of (sy_prov s)" by auto
  with assms PStartInstall show ?thesis
    by (auto simp: loop_step_def with_prov_def fresh_def up_to_date_def listing_of_def)
next
  case PStartWatch
  obtain st ch where w: "ms_watch (p_ns (sy_prov s)) (sy_store s) = (st, ch)" by fastforce
  then have "ms_list ns st = ms_list ns (sy_store s)" for ns
    using ms_watch_other(2) [of ns "p_ns (sy_prov s)" "sy_store s"] by simp
  with assms PStartWatch w show ?thesis
    by (auto simp: loop_step_def fresh_def up_to_date_def listing_of_def)
next
  case PSelect
  then show ?thesis using assms(3)
    by (auto simp: loop_step_def select_step_def fresh_def split: loop_choice.splits received.splits
        if_splits prod.splits)
next
  case (PInstall r ov)
  have "prov_ok (sy_prov s)" "prov_safe (sy_prov s)" using assms(1) by (simp_all add: sys_ok_def)
  from refresh_step [OF this, of now ov] assms(4) obtain p' where
    p: "bind_res (refresh now (Inr ov) (sy_prov s)) (\<lambda>(p, err). Inr p) = (Inr p' :: provider_panic + provider)"
    "p_current p' = Some (snapshot_of (sy_prov s) ov)" "p_ns p' = p_ns (sy_prov s)"
    "snapshot_of p' = snapshot_of (sy_prov s)" by auto
  with assms PInstall show ?thesis
    by (auto simp: loop_step_def with_prov_def fresh_def up_to_date_def listing_of_def
        signalled_def after_install_def split: loop_reason.splits)
next
  case (PNotify event)
  have "prov_ok (sy_prov s)" using assms(1) by (simp add: sys_ok_def)
  from notify_ok [OF this, of event] obtain tab where
    "notify_subscribers event (sy_prov s) = Inr ((sy_prov s)\<lparr>p_chans := tab\<rparr>)" by blast
  with assms PNotify show ?thesis
    by (auto simp: loop_step_def with_prov_def fresh_def up_to_date_def listing_of_def
        signalled_def snapshot_of_def)
qed (use assms in \<open>auto simp: loop_step_def fresh_def listing_of_def\<close>)

lemma after_install_started [simp]: "started (after_install r p)"
  by (simp add: after_install_def split: loop_reason.split)

lemma loop_step_same:
  assumes "sys_ok s" "loop_step choice now s = Some (Inr s')"
  shows "p_ns (sy_prov s') = p_ns (sy_prov s)" "p_cancelled (sy_prov s') = p_cancelled (sy_prov s)"
    "started (sy_pc s) \<Longrightarrow> started (sy_pc s')"
proof -
  have "p_ns (sy_prov s') = p_ns (sy_prov s) \<and> p_cancelled (sy_prov s') = p_cancelled (sy_prov s)
     \<and> (started (sy_pc s) \<longrightarrow> started (sy_pc s'))"
    using assms(2)
    by (cases "sy_pc s")
       (auto simp: loop_step_def with_prov_def bind_res_Inr_iff select_step_def
         notify_subscribers_def dest!: refresh_same
         split: loop_choice.splits received.splits if_splits prod.splits)
  then show "p_ns (sy_prov s') = p_ns (sy_prov s)" "p_cancelled (sy_prov s') = p_cancelled (sy_prov s)"
    "started (sy_pc s) \<Longrightarrow> started (sy_pc s')" by auto
qed

subsection \<open>Runs\<close>

lemma other_step_same:
  assumes "sys_ok s" "other_step l s = Some (Inr s')"
  shows "p_ns (sy_prov s') = p_ns (sy_prov s)" "sy_pc s' = sy_pc s"
    "p_cancelled (sy_prov s) \<Longrightarrow> p_cancelled (sy_prov s')"
  using outcome_ok_elim [OF other_step_ok [OF assms(1)] assms(2)]
  by (auto simp: store_side_def prov_side_def)

lemma fresh_exec:
  assumes "fresh_inv s" "started (sy_pc s) \<or> startup_safe (p_ns (sy_prov s)) l"
    and step: "sys_exec l s = Some (Inr s')"
  shows "fresh_inv s' \<and> p_ns (sy_prov s') = p_ns (sy_prov s) \<and> (started (sy_pc s) \<longrightarrow> started (sy_pc s'))"
proof -
  have ok: "sys_ok s" "p_cancelled (sy_prov s) \<or> fresh s" and flat: "prov_flat (sy_prov s)" "prov_flat (sy_prov s')"
    using assms(1) sys_exec_flat [OF step] by (simp_all add: fresh_inv_def)
  have ok': "sys_ok s'" by (rule outcome_ok_elim [OF sys_exec_ok [OF ok(1)] step])
  from step show ?thesis
  proof (cases rule: sys_exec_cases)
    case (loop c now)
    with loop_step_same [OF ok(1) loop(2)] fresh_loop [OF ok(1) _ loop(2) flat(1)] ok ok' flat show ?thesis
      by (auto simp: fresh_inv_def)
  next
    case other
    with other_step_same [OF ok(1) other(2)] fresh_other [OF ok assms(2) other(2)] ok' flat show ?thesis
      by (auto simp: fresh_inv_def)
  qed
qed

lemma fresh_run:
  "fresh_inv s \<Longrightarrow> list_all (startup_safe (p_ns (sy_prov s))) ls \<Longrightarrow> sys_run ls s = Some (Inr s') \<Longrightarrow>
     fresh_inv s' \<and> p_ns (sy_prov s') = p_ns (sy_prov s)"
proof (induction ls arbitrary: s)
  case (Cons l ls)
  from Cons.prems(3) obtain t where t: "sys_exec l s = Some (Inr t)" "sys_run ls t = Some (Inr s')"
    by (auto split: option.splits sum.splits)
  from fresh_exec [OF Cons.prems(1) _ t(1)] Cons.prems(2)
  have "fresh_inv t" "p_ns (sy_prov t) = p_ns (sy_prov s)" by auto
  with Cons.IH [OF _ _ t(2)] Cons.prems(2) show ?case by simp
qed simp

lemma fresh_reach:
  "sys_reach s0 s \<Longrightarrow> fresh_inv s0 \<Longrightarrow> started (sy_pc s0) \<Longrightarrow> fresh_inv s \<and> started (sy_pc s)"
proof (induction rule: sys_reach.induct)
  case (sr_step s l s')
  with fresh_exec [of s l s'] show ?case by blast
qed simp

lemma sys_ok_start:
  assumes "build_catalog (Some t) = Inr cat" "safe_config t cat base h" "options_ok cfg" "ms_ok st"
  shows "sys_ok (sys_start t h base cat cfg st)"
  using assms prov_ok_init [OF assms(3)]
  by (auto simp: sys_ok_def sys_start_def prov_safe_def safe_config_def prov_flat_def prov_typed_def init_provider_same)

lemma flat_safe: "flat_config t cat \<Longrightarrow> safe_config t cat base h"
  by (simp add: safe_config_def)

lemma fresh_start:
  assumes "build_catalog (Some t) = Inr cat" "flat_config t cat" "options_ok cfg" "ms_ok st"
  shows "fresh_inv (sys_start t h base cat cfg st)"
  using sys_ok_start [OF assms(1) flat_safe [OF assms(2)] assms(3,4), of h base] assms(1,2)
  by (simp add: fresh_inv_def fresh_def sys_start_def prov_flat_def init_provider_same)

end
