(* ===== verification/System_Subs.thy ===== *)
theory System_Subs
  imports System_Fresh
begin

text \<open>
  What subscribers get: only events of the provider's namespace for recreate-on-change
  fields are ever in a subscriber's channel.
\<close>

definition event_for :: "provider \<Rightarrow> change_event \<Rightarrow> bool" where
  "event_for p e \<longleftrightarrow> is_recreate p (ce_key e) \<and> ce_namespace e = p_ns p"

definition own_events :: "system \<Rightarrow> bool" where
  "own_events s \<longleftrightarrow>
     (started (sy_pc s) \<longrightarrow>
        (\<forall>w \<in> set (ms_watchers (sy_store s)). w_ch w = sy_ch s \<longrightarrow> w_namespace w = p_ns (sy_prov s))
        \<and> (\<forall>e \<in> set (buf (ms_chans (sy_store s) (sy_ch s))). ce_namespace e = p_ns (sy_prov s)))"

definition pc_event_ok :: "system \<Rightarrow> bool" where
  "pc_event_ok s \<longleftrightarrow>
     (case sy_pc s of
        PList (OnEvent e) \<Rightarrow> ce_namespace e = p_ns (sy_prov s)
      | PInstall (OnEvent e) ov \<Rightarrow> ce_namespace e = p_ns (sy_prov s)
      | PNotify e \<Rightarrow> event_for (sy_prov s) e
      | _ \<Rightarrow> True)"

definition sub_events_ok :: "provider \<Rightarrow> bool" where
  "sub_events_ok p \<longleftrightarrow> (\<forall>ch. \<forall>e \<in> set (buf (p_chans p ch)). event_for p e)"

definition subs_inv :: "system \<Rightarrow> bool" where
  "subs_inv s \<longleftrightarrow> sys_ok s \<and> own_events s \<and> pc_event_ok s \<and> sub_events_ok (sy_prov s)"

lemma recv_subset: "set (buf (snd (recv c))) \<subseteq> set (buf c)"
  by (auto simp: recv_def split: list.split)

lemma recv_got: "recv c = (Got v, c') \<Longrightarrow> v \<in> set (buf c)"
  by (auto simp: recv_def split: list.splits if_splits)

text \<open>Steps of the rest of the program put nothing into subscriber channels.\<close>

lemma other_step_subs:
  assumes "sys_ok s" "other_step l s = Some (Inr s')"
  shows "p_desc_by_key (sy_prov s') = p_desc_by_key (sy_prov s)
     \<and> (\<forall>ch. set (buf (p_chans (sy_prov s') ch)) \<subseteq> set (buf (p_chans (sy_prov s) ch)))"
proof -
  have ok: "prov_ok (sy_prov s)" using assms(1) by (simp add: sys_ok_def)
  show ?thesis
  proof (cases l)
    case (LUnsubscribe ch)
    with assms(2) show ?thesis
      by (auto simp: other_step_def with_prov_def bind_res_Inr_iff unsubscribe_def lift_panic_def
          close_chan_def split: if_splits sum.splits)
  next
    case LCloseFinish
    obtain tab where t: "close_finish None (sy_prov s) =
        Inr ((sy_prov s)\<lparr>p_chans := tab, p_subs := [], p_close_err := None\<rparr>)"
      "\<forall>ch. tab ch = (if ch \<in> set (p_subs (sy_prov s)) then (p_chans (sy_prov s) ch)\<lparr>closed := True\<rparr>
                       else p_chans (sy_prov s) ch)"
      using close_finish_ok [OF ok, of None] by blast
    have "buf (tab ch) = buf (p_chans (sy_prov s) ch)" for ch using t(2) by simp
    with LCloseFinish assms(2) t(1) show ?thesis
      by (auto simp: other_step_def with_prov_def split: if_splits)
  next
    case (LSubRecv ch)
    with assms(2) recv_subset [of "p_chans (sy_prov s) ch"] show ?thesis
      by (auto simp: other_step_def with_prov_def sub_recv_def split_beta Let_def split: if_splits)
  next
    case LRefresh
    with assms(2) request_refresh_ok [OF ok] show ?thesis
      by (auto simp: other_step_def with_prov_def split: if_splits)
  next
    case LSubscribe
    with assms(2) show ?thesis
      by (auto simp: other_step_def with_prov_def subscribe_def Let_def make_chan_def split: if_splits)
  qed (use assms(2) in \<open>auto simp: other_step_def with_prov_def with_store_def Let_def close_begin_def
        bind_res_Inr_iff split: if_splits prod.splits\<close>)
qed

lemma watchers_of_own:
  "i \<in> set (watchers_of ns st) \<longleftrightarrow> (\<exists>w \<in> set (ms_watchers st). w_ch w = i \<and> w_namespace w = ns)"
  by (auto simp: watchers_of_def)

lemma own_events_broadcast:
  assumes "sys_ok s" "own_events s" "ms_broadcast e (sy_store s) = Inr st"
  shows "own_events (s\<lparr>sy_store := st, sy_inflight := fl\<rparr>)"
proof -
  have "ms_ok (sy_store s)" using assms(1) by (simp add: sys_ok_def)
  from ms_broadcast_ok [OF this, of e] obtain tab where
    t: "ms_broadcast e (sy_store s) = Inr ((sy_store s)\<lparr>ms_chans := tab\<rparr>)"
    and mem: "\<And>i. i \<in> set (watchers_of (ce_namespace e) (sy_store s)) \<Longrightarrow>
       buf (tab i) = (if has_room (ms_chans (sy_store s) i) then buf (ms_chans (sy_store s) i) @ [e]
                      else buf (ms_chans (sy_store s) i))"
    and out: "\<And>i. i \<notin> set (watchers_of (ce_namespace e) (sy_store s)) \<Longrightarrow>
       tab i = ms_chans (sy_store s) i"
    by blast
  have st: "st = (sy_store s)\<lparr>ms_chans := tab\<rparr>" using t assms(3) by simp
  show ?thesis
  proof (cases "sy_ch s \<in> set (watchers_of (ce_namespace e) (sy_store s))")
    case True
    with assms(2) mem [OF True] show ?thesis
      by (auto simp: own_events_def st watchers_of_own)
  next
    case False
    with assms(2) out [OF False] show ?thesis by (simp add: own_events_def st)
  qed
qed

lemma own_events_shrink:
  assumes "own_events s" "s' = s\<lparr>sy_store := st, sy_inflight := fl\<rparr>"
    and "\<And>w. w \<in> set (ms_watchers st) \<Longrightarrow> w \<in> set (ms_watchers (sy_store s)) \<or> w_ch w \<noteq> sy_ch s"
    and "started (sy_pc s) \<Longrightarrow> set (buf (ms_chans st (sy_ch s))) \<subseteq> set (buf (ms_chans (sy_store s) (sy_ch s)))"
  shows "own_events s'"
  using assms by (auto simp: own_events_def)

lemma unwatch_shrinks:
  "ms_unwatch ch st = Inr st' \<Longrightarrow>
     set (ms_watchers st') \<subseteq> set (ms_watchers st) \<and> (\<forall>c. buf (ms_chans st' c) = buf (ms_chans st c))"
proof -
  assume a: "ms_unwatch ch st = Inr st'"
  have sub: "remove_watcher ch ws = Some ws' \<Longrightarrow> x \<in> set ws' \<Longrightarrow> x \<in> set ws" for ws ws' x
    using remove_watcher_Some [of ch ws ws'] by auto
  show ?thesis using a
    by (auto dest: sub simp: ms_unwatch_def bind_res_Inr_iff close_chan_def split: option.splits if_splits)
qed

lemma own_events_other:
  assumes ok: "sys_ok s" and own: "own_events s" and step: "other_step l s = Some (Inr s')"
  shows "own_events s'"
proof (cases l)
  case (LBroadcast e)
  with step obtain st where "ms_broadcast e (sy_store s) = Inr st"
    "s' = s\<lparr>sy_store := st, sy_inflight := remove1 e (sy_inflight s)\<rparr>"
    by (auto simp: other_step_def with_store_def bind_res_Inr_iff lift_panic_def split: if_splits sum.splits)
  with own_events_broadcast [OF ok own] show ?thesis by simp
next
  case (LWrite op1)
  obtain st ev where w: "ms_write op1 (sy_store s) = (st, ev)" by fastforce
  with LWrite step ms_write_same [of op1 "sy_store s"] show ?thesis
    by (intro own_events_shrink [OF own, of _ "(case ev of None \<Rightarrow> [] | Some e \<Rightarrow> [e]) @ sy_inflight s" st])
       (simp_all add: other_step_def)
next
  case LUnwatch
  with step obtain st where "ms_unwatch (sy_ch s) (sy_store s) = Inr st" "s' = s\<lparr>sy_store := st\<rparr>"
    by (auto simp: other_step_def with_store_def bind_res_Inr_iff lift_panic_def split: if_splits sum.splits)
  with unwatch_shrinks show ?thesis
    by (intro own_events_shrink [OF own, of _ "sy_inflight s" st]) auto
next
  case (LOtherUnwatch ch)
  with step obtain st where "ms_unwatch ch (sy_store s) = Inr st" "s' = s\<lparr>sy_store := st\<rparr>"
    by (auto simp: other_step_def with_store_def bind_res_Inr_iff lift_panic_def split: if_splits sum.splits)
  with unwatch_shrinks show ?thesis
    by (intro own_events_shrink [OF own, of _ "sy_inflight s" st]) auto
next
  case (LOtherWatch ns)
  with step ok own show ?thesis
    by (auto simp: other_step_def own_events_def sys_ok_def ms_watch_def Let_def)
next
  case (LOtherRecv ch)
  with step own show ?thesis
    by (auto simp: other_step_def own_events_def ms_recv_def split_beta split: if_splits)
next
  case LCloseFinish
  with step own show ?thesis
    by (auto simp: other_step_def own_events_def with_prov_def bind_res_Inr_iff close_finish_def
        split: if_splits)
qed (use step own in \<open>auto simp: other_step_def own_events_def with_prov_def bind_res_Inr_iff Let_def
       request_refresh_def subscribe_def unsubscribe_def sub_recv_def close_begin_def split_beta
       split: if_splits\<close>)

subsection \<open>The invariant along the steps\<close>

lemma event_for_same:
  "p_desc_by_key p' = p_desc_by_key p \<Longrightarrow> p_ns p' = p_ns p \<Longrightarrow> event_for p' e = event_for p e"
  by (simp add: event_for_def is_recreate_def)

lemma subs_inv_other:
  assumes "subs_inv s" "other_step l s = Some (Inr s')"
  shows "subs_inv s'"
proof -
  have ok: "sys_ok s" "own_events s" "pc_event_ok s" "sub_events_ok (sy_prov s)"
    using assms(1) by (simp_all add: subs_inv_def)
  note same = other_step_same [OF ok(1) assms(2)] other_step_subs [OF ok(1) assms(2)]
  have ev: "event_for (sy_prov s') e = event_for (sy_prov s) e" for e
    using same by (intro event_for_same) simp_all
  have "sys_ok s'" using outcome_ok_elim [OF other_step_ok [OF ok(1)] assms(2)] by simp
  moreover have "own_events s'" by (rule own_events_other [OF ok(1,2) assms(2)])
  moreover have "pc_event_ok s'" using ok(3) same ev
    by (auto simp: pc_event_ok_def split: loop_pc.splits loop_reason.splits)
  moreover have "sub_events_ok (sy_prov s')" using ok(4) same ev by (fastforce simp: sub_events_ok_def)
  ultimately show ?thesis by (simp add: subs_inv_def)
qed

lemma sub_events_refresh:
  "refresh now listing p = Inr (p', err) \<Longrightarrow>
     event_for p' e = event_for p e \<and> sub_events_ok p' = sub_events_ok p"
  using refresh_same [of now listing p p' err] event_for_same [of p' p]
  by (simp add: sub_events_ok_def)

lemma sub_events_notify:
  assumes "prov_ok p" "sub_events_ok p" "event_for p e" "notify_subscribers e p = Inr p'"
  shows "sub_events_ok p' \<and> p_ns p' = p_ns p"
proof -
  obtain tab where t: "p' = p\<lparr>p_chans := tab\<rparr>"
    and mem: "\<And>ch. ch \<in> set (p_subs p) \<Longrightarrow> buf (tab ch) =
          (if has_room (p_chans p ch) then buf (p_chans p ch) @ [e] else buf (p_chans p ch))"
    and out: "\<And>ch. ch \<notin> set (p_subs p) \<Longrightarrow> tab ch = p_chans p ch"
    using notify_ok [OF assms(1), of e] assms(4) by auto
  have "set (buf (tab ch)) \<subseteq> insert e (set (buf (p_chans p ch)))" for ch
    using mem [of ch] out [of ch] by (cases "ch \<in> set (p_subs p)") auto
  then show ?thesis using assms(2,3) event_for_same [of p' p]
    by (fastforce simp: sub_events_ok_def t)
qed

lemma own_events_watch:
  assumes "sys_ok s"
  shows "own_events (s\<lparr>sy_store := fst (ms_watch (p_ns (sy_prov s)) (sy_store s)),
     sy_ch := snd (ms_watch (p_ns (sy_prov s)) (sy_store s)), sy_pc := PSelect\<rparr>)"
proof -
  have "w_ch w < ms_next (sy_store s)" if "w \<in> set (ms_watchers (sy_store s))" for w
    using assms that by (simp add: sys_ok_def ms_ok_def)
  then have "w_ch w \<noteq> ms_next (sy_store s)" if "w \<in> set (ms_watchers (sy_store s))" for w
    using that by (simp add: less_imp_neq)
  then show ?thesis
    by (auto simp: own_events_def ms_watch_def Let_def make_chan_def)
qed

lemma subs_inv_select:
  assumes "subs_inv s" "sy_pc s = PSelect" "select_step choice s = Some (Inr s')"
  shows "own_events s' \<and> pc_event_ok s' \<and> sub_events_ok (sy_prov s')"
proof (cases choice)
  case ChooseEvent
  let ?c = "ms_chans (sy_store s) (sy_ch s)"
  obtain r c where r: "recv ?c = (r, c)" by fastforce
  have sub: "set (buf c) \<subseteq> set (buf ?c)" using recv_subset [of ?c] r by simp
  have m: "ms_recv (sy_ch s) (sy_store s) =
      (r, (sy_store s)\<lparr>ms_chans := (ms_chans (sy_store s))(sy_ch s := c)\<rparr>)"
    using r by (simp add: ms_recv_def)
  show ?thesis
  proof (cases r)
    case (Got e)
    then have "e \<in> set (buf ?c)" using recv_got [of ?c e c] r by simp
    with assms ChooseEvent Got m sub show ?thesis
      by (auto simp: select_step_def subs_inv_def own_events_def pc_event_ok_def)
  qed (use assms ChooseEvent m in \<open>auto simp: select_step_def subs_inv_def own_events_def pc_event_ok_def\<close>)
next
  case ChooseTrigger
  with assms show ?thesis
    by (auto simp: select_step_def subs_inv_def own_events_def pc_event_ok_def sub_events_ok_def
        event_for_def is_recreate_def split: prod.splits received.splits)
qed (use assms in \<open>auto simp: select_step_def subs_inv_def own_events_def pc_event_ok_def split: if_splits\<close>)

lemma subs_inv_loop:
  assumes "subs_inv s" "loop_step choice now s = Some (Inr s')"
  shows "subs_inv s'"
proof -
  have ok: "sys_ok s" "own_events s" "pc_event_ok s" "sub_events_ok (sy_prov s)"
    using assms(1) by (simp_all add: subs_inv_def)
  have "own_events s' \<and> pc_event_ok s' \<and> sub_events_ok (sy_prov s')"
  proof (cases "sy_pc s")
    case (PStartInstall ov)
    with assms(2) ok show ?thesis
      by (auto simp: loop_step_def with_prov_def bind_res_Inr_iff own_events_def pc_event_ok_def
          dest!: sub_events_refresh)
  next
    case PStartWatch
    with assms(2) ok own_events_watch [OF ok(1)] show ?thesis
      by (auto simp: loop_step_def Let_def split_beta pc_event_ok_def)
  next
    case PSelect
    with assms subs_inv_select show ?thesis by (simp add: loop_step_def)
  next
    case (PInstall r ov)
    with assms(2) obtain p' err where p: "refresh now (Inr ov) (sy_prov s) = Inr (p', err)"
      "s' = s\<lparr>sy_prov := p', sy_pc := after_install r p'\<rparr>"
      by (auto simp: loop_step_def with_prov_def bind_res_Inr_iff)
    note same = refresh_same [OF p(1)] sub_events_refresh [OF p(1)]
    have "pc_event_ok s'" using ok(3) PInstall same
      by (cases r) (auto simp: p(2) pc_event_ok_def after_install_def event_for_def)
    with ok PInstall same show ?thesis by (simp add: p(2) own_events_def)
  next
    case (PNotify e)
    then have e: "event_for (sy_prov s) e" using ok(3) by (simp add: pc_event_ok_def)
    obtain p' where p: "notify_subscribers e (sy_prov s) = Inr p'" "s' = s\<lparr>sy_prov := p', sy_pc := PSelect\<rparr>"
      using PNotify assms(2) by (auto simp: loop_step_def with_prov_def bind_res_Inr_iff)
    have "prov_ok (sy_prov s)" using ok(1) by (simp add: sys_ok_def)
    from sub_events_notify [OF this ok(4) e p(1)] ok PNotify show ?thesis
      by (simp add: p(2) own_events_def pc_event_ok_def)
  qed (use assms(2) ok in \<open>auto simp: loop_step_def own_events_def pc_event_ok_def split: loop_reason.splits\<close>)
  moreover have "sys_ok s'" using outcome_ok_elim [OF loop_step_ok [OF ok(1)] assms(2)] .
  ultimately show ?thesis by (simp add: subs_inv_def)
qed

lemma subs_inv_reach: "sys_reach s0 s \<Longrightarrow> subs_inv s0 \<Longrightarrow> subs_inv s"
proof (induction rule: sys_reach.induct)
  case (sr_step s l s')
  then have inv: "subs_inv s" by simp
  from sr_step.hyps(2) show ?case
    by (cases rule: sys_exec_cases) (use inv subs_inv_loop subs_inv_other in blast)+
qed simp

lemma subs_inv_start:
  assumes "build_catalog (Some t) = Inr cat" "safe_config t cat base h" "options_ok cfg" "ms_ok st"
  shows "subs_inv (sys_start t h base cat cfg st)"
  using sys_ok_start [OF assms]
  by (simp add: subs_inv_def own_events_def pc_event_ok_def sub_events_ok_def sys_start_def)
     (simp add: init_provider_def make_chan_def)

end
