(* ===== verification/System_Drain.thy ===== *)
theory System_Drain
  imports System_Subs
begin

text \<open>
  Progress: the work that is pending for a provider. The loop's steps on events, and the
  broadcasts that are still outstanding, each use up some of it, so they come to an end
  when nothing new is written; and where none of them can go on, nothing is under way.
\<close>

text \<open>The steps that finish what has been started: no ticks, no requests, no new writes.\<close>

fun drain_label :: "sys_label \<Rightarrow> bool" where
  "drain_label (LLoop ChooseEvent now) = True"
| "drain_label (LBroadcast e) = True"
| "drain_label l = False"

fun pc_work :: "loop_pc \<Rightarrow> nat" where
  "pc_work (PList r) = 3"
| "pc_work (PInstall r ov) = 2"
| "pc_work (PNotify e) = 1"
| "pc_work pc = 0"

definition pending_work :: "system \<Rightarrow> nat" where
  "pending_work s = 5 * length (sy_inflight s)
     + 4 * length (buf (ms_chans (sy_store s) (sy_ch s))) + pc_work (sy_pc s)"

text \<open>A provider that runs: its loop has started, has not returned, and is not cancelled.\<close>

definition running :: "system \<Rightarrow> bool" where
  "running s \<longleftrightarrow> sys_ok s \<and> started (sy_pc s) \<and> sy_pc s \<noteq> PReturned \<and> \<not> p_cancelled (sy_prov s)"

lemma running_ok: "running s \<Longrightarrow> sys_ok s" "running s \<Longrightarrow> \<not> closed (ms_chans (sy_store s) (sy_ch s))"
  by (auto simp: running_def sys_ok_def watching_def ms_ok_def)

lemma drain_loop:
  assumes "running s" "loop_step ChooseEvent now s = Some (Inr s')"
  shows "pending_work s' < pending_work s \<and> sy_pc s' \<noteq> PReturned
     \<and> ms_data (sy_store s') = ms_data (sy_store s) \<and> sy_inflight s' = sy_inflight s"
proof (cases "sy_pc s")
  case PSelect
  let ?c = "ms_chans (sy_store s) (sy_ch s)"
  show ?thesis
  proof (cases "buf ?c")
    case Nil
    with assms running_ok(2) [OF assms(1)] PSelect show ?thesis
      by (simp add: loop_step_def select_step_def ms_recv_def recv_def)
  next
    case (Cons e es)
    with assms PSelect show ?thesis
      by (auto simp: loop_step_def select_step_def ms_recv_def recv_def pending_work_def)
  qed
next
  case (PInstall r ov)
  have "pc_work (after_install r p) < 2 \<and> after_install r p \<noteq> PReturned" for p
    by (simp add: after_install_def split: loop_reason.split)
  with PInstall assms(2) show ?thesis
    by (auto simp: loop_step_def with_prov_def bind_res_Inr_iff pending_work_def)
next
  case (PNotify e)
  with assms(2) show ?thesis
    by (auto simp: loop_step_def with_prov_def bind_res_Inr_iff pending_work_def)
qed (use assms in \<open>auto simp: running_def loop_step_def pending_work_def\<close>)

lemma drain_broadcast:
  assumes "running s" "other_step (LBroadcast e) s = Some (Inr s')"
  shows "pending_work s' < pending_work s \<and> ms_data (sy_store s') = ms_data (sy_store s)
     \<and> sy_pc s' = sy_pc s \<and> p_cancelled (sy_prov s') = p_cancelled (sy_prov s)"
proof -
  have "ms_ok (sy_store s)" using assms(1) by (simp add: running_def sys_ok_def)
  from ms_broadcast_ok [OF this, of e] obtain tab where
    tab: "ms_broadcast e (sy_store s) = Inr ((sy_store s)\<lparr>ms_chans := tab\<rparr>)"
      "\<forall>i. i \<in> set (watchers_of (ce_namespace e) (sy_store s)) \<longrightarrow> buf (tab i) =
         (if has_room (ms_chans (sy_store s) i) then buf (ms_chans (sy_store s) i) @ [e]
          else buf (ms_chans (sy_store s) i))"
      "\<forall>i. i \<notin> set (watchers_of (ce_namespace e) (sy_store s)) \<longrightarrow> tab i = ms_chans (sy_store s) i"
    by blast
  have grow: "length (buf (tab c)) \<le> Suc (length (buf (ms_chans (sy_store s) c)))" for c
    using tab(2,3) by (cases "c \<in> set (watchers_of (ce_namespace e) (sy_store s))") auto
  have e: "e \<in> set (sy_inflight s)" using assms(2) by (simp add: other_step_def split: if_splits)
  then have "length (sy_inflight s) = Suc (length (remove1 e (sy_inflight s)))"
    using length_pos_if_in_set [of e "sy_inflight s"] by (simp add: length_remove1)
  with grow [of "sy_ch s"] assms(2) tab(1) e show ?thesis
    by (auto simp: other_step_def with_store_def pending_work_def)
qed

lemma drain_exec:
  assumes "running s" "drain_label l" "sys_exec l s = Some (Inr s')"
  shows "running s' \<and> pending_work s' < pending_work s \<and> ms_data (sy_store s') = ms_data (sy_store s)"
proof -
  have ok': "sys_ok s'"
    by (rule outcome_ok_elim [OF sys_exec_ok [OF running_ok(1) [OF assms(1)]] assms(3)])
  from assms(2) consider now where "l = LLoop ChooseEvent now" | e where "l = LBroadcast e"
    by (cases l rule: drain_label.cases) auto
  then show ?thesis
  proof cases
    case 1
    with assms(3) have l: "loop_step ChooseEvent now s = Some (Inr s')" by (simp add: sys_exec_def)
    from drain_loop [OF assms(1) l] loop_step_same [OF running_ok(1) [OF assms(1)] l] ok' assms(1)
    show ?thesis by (auto simp: running_def)
  next
    case 2
    with assms(3) have "other_step (LBroadcast e) s = Some (Inr s')" by (simp add: sys_exec_def)
    from drain_broadcast [OF assms(1) this] ok' assms(1) show ?thesis by (auto simp: running_def)
  qed
qed

lemma drain_run:
  "running s \<Longrightarrow> list_all drain_label ls \<Longrightarrow> sys_run ls s = Some (Inr s') \<Longrightarrow>
     running s' \<and> length ls + pending_work s' \<le> pending_work s \<and> ms_data (sy_store s') = ms_data (sy_store s)"
proof (induction ls arbitrary: s)
  case (Cons l ls)
  from Cons.prems(3) obtain t where t: "sys_exec l s = Some (Inr t)" "sys_run ls t = Some (Inr s')"
    by (auto split: option.splits sum.splits)
  from drain_exec [OF Cons.prems(1) _ t(1)] Cons.prems(2)
  have "running t" "pending_work t < pending_work s" "ms_data (sy_store t) = ms_data (sy_store s)" by auto
  with Cons.IH [OF _ _ t(2)] Cons.prems(2) show ?case by auto
qed simp

lemma drained_quiescent:
  assumes "running s" "\<And>l. drain_label l \<Longrightarrow> sys_exec l s = None"
  shows "quiescent s \<and> sy_inflight s = []"
proof -
  have "e \<notin> set (sy_inflight s)" for e
    using assms(2) [of "LBroadcast e"]
    by (auto simp: sys_exec_def other_step_def with_store_def split: if_splits)
  then have i: "sy_inflight s = []" by (cases "sy_inflight s") auto
  have l: "loop_step ChooseEvent 0 s = None" using assms(2) [of "LLoop ChooseEvent 0"] by (simp add: sys_exec_def)
  then have pc: "sy_pc s = PSelect"
    using assms(1) by (cases "sy_pc s") (auto simp: running_def loop_step_def with_prov_def)
  with l have "buf (ms_chans (sy_store s) (sy_ch s)) = []"
    by (auto simp: loop_step_def select_step_def ms_recv_def recv_def split: list.splits)
  with i pc show ?thesis by (simp add: quiescent_def signalled_def)
qed

end
