(* ===== verification/Provider_Props.thy ===== *)
theory Provider_Props
  imports Provider_Lemmas Catalog_Props
begin

text \<open>
  Properties of the provider's operations: construction, refresh and its error path, the
  event handler, the coalescing of requests, shutdown.
\<close>

text \<open>Whatever options are passed, in whatever order, the configuration \<open>New\<close> works with has
  a namespace, a logger, a positive refresh interval and a positive subscriber buffer, and
  a namespace given last and not empty is the one used.\<close>

theorem provider_config_ok:
  "options_ok (provider_config opts)
   \<and> po_namespace (provider_config (opts @ [with_namespace ns])) = (if ns = [] then ''default'' else ns)"
  by (simp add: provider_config_def normalise_options_ok)
     (simp add: normalise_options_def with_namespace_def Let_def default_namespace_def)

text \<open>C23: \<open>New\<close>, for a config type that is rejected or whose managed fields are reached without
  pointers with managed slices that are exactly \<^verbatim>\<open>[]string\<close> (\<open>flat_config\<close>; with a \<^verbatim>\<open>[]Host\<close> of a
  named string type a listed override panics), never panics, and gives a provider
  exactly when the catalog is accepted, the first listing succeeds and the watch is
  established; its first snapshot is the base with the listed overrides and its
  statistics count one refresh. Every failure is reported with its cause.\<close>

theorem new_provider_outcome:
  assumes "\<forall>cat. build_catalog (Some t) = Inr cat \<longrightarrow> flat_config t cat"
  shows "case build_catalog (Some t) of
      Inl e \<Rightarrow> new_provider (Some t) h base opts now listing watch_err = Inr (Inl (BuildCatalogFailed e))
    | Inr cat \<Rightarrow>
        (case listing of
           Inl e \<Rightarrow> new_provider (Some t) h base opts now listing watch_err = Inr (Inl (InitialRefreshFailed e))
         | Inr ov \<Rightarrow>
             (case watch_err of
                Some e \<Rightarrow> new_provider (Some t) h base opts now listing watch_err = Inr (Inl (WatchFailed e))
              | None \<Rightarrow> \<exists>p. new_provider (Some t) h base opts now listing watch_err = Inr (Inr p)
                  \<and> provider_get p = Inr (apply_pure ov cat base) \<and> p_heap p = h
                  \<and> catalog_of p = cat \<and> prov_ok p
                  \<and> provider_stats p = \<lparr>s_last_refresh = (if now = 0 then None else Some now),
                       s_refresh_count = 1, s_last_error = []\<rparr>))"
proof (cases "build_catalog (Some t)")
  case (Inl e)
  then show ?thesis by (simp add: new_provider_def)
next
  case (Inr cat)
  let ?i = "init_provider t h base cat (provider_config opts)"
  have f: "prov_flat ?i" using assms Inr by (simp add: prov_flat_def init_provider_same)
  have i: "prov_ok ?i"
    by (rule prov_ok_init) (simp add: provider_config_def normalise_options_ok)
  show ?thesis
  proof (cases listing)
    case (Inl e)
    with Inr show ?thesis by (simp add: new_provider_def refresh_error)
  next
    case ov: (Inr ov)
    obtain p where p: "refresh now (Inr ov) ?i = Inr (p, None)"
      "p_current p = Some (snapshot_of ?i ov)" "p_heap p = h" "p_catalog p = cat"
      "p_refresh_count p = 1" "p_last_refresh p = now" "p_last_err p = Some []"
      using refresh_flat [OF f, of now ov] by (simp add: init_provider_same init_provider_def)
    with prov_ok_refresh [OF i p(1)] Inr ov show ?thesis
      by (cases watch_err)
         (simp_all add: new_provider_def snapshot_of_def init_provider_same provider_get_def
            catalog_of_def provider_stats_def)
  qed
qed

theorem new_provider_outcome_witness:
  "\<exists>p. new_provider (Some sample_type) [] sample_base [] 5 (Inr [''cron'' \<mapsto> ''@daily'']) None = Inr (Inr p)
     \<and> catalog_of p = sample_catalog"
  using new_provider_outcome [of sample_type "[]" sample_base "[]" 5 "Inr [''cron'' \<mapsto> ''@daily'']" None]
    sample_build sample_flat by auto

text \<open>The event handler installs the new snapshot before it notifies: with a successful
  listing the snapshot is the base with the listed overrides, and exactly when the event's
  key is that of a recreate-on-change field each subscriber whose buffer has room gets the
  event; no other channel changes.\<close>

theorem handler_installs_then_notifies:
  assumes "prov_ok p" "prov_flat p"
  shows "\<exists>p'. handle_change_event now (Inr ov) event p = Inr p'
     \<and> provider_get p' = Inr (snapshot_of p ov) \<and> prov_ok p'
     \<and> (\<forall>ch. buf (p_chans p' ch) =
          (if is_recreate p (ce_key event) \<and> ch \<in> set (p_subs p) \<and> has_room (p_chans p ch)
           then buf (p_chans p ch) @ [event] else buf (p_chans p ch)))"
  by (rule handler_run [OF assms])

definition sample_provider :: provider where
  "sample_provider = fst (subscribe (init_provider sample_type [] sample_base sample_catalog default_provider_options))"

lemma sample_provider_ok: "prov_ok sample_provider" "prov_flat sample_provider"
proof -
  have i: "prov_ok (init_provider sample_type [] sample_base sample_catalog default_provider_options)"
    by (rule prov_ok_init) (rule with_options_ok)
  show "prov_ok sample_provider" using prov_ok_subscribe [OF i] by (simp add: sample_provider_def)
  show "prov_flat sample_provider"
    by (simp add: sample_provider_def subscribe_def Let_def prov_flat_def init_provider_same
        sample_build sample_flat)
qed

definition sample_event :: change_event where
  "sample_event = \<lparr>ce_namespace = ''default'', ce_key = ''cron'', ce_old = [], ce_new = ''@daily'',
     ce_by = ''op'', ce_at = 7\<rparr>"

lemma sample_provider_fields:
  "p_subs sample_provider = [0]" "p_chans sample_provider 0 = make_chan 16"
  "is_recreate sample_provider ''cron''" "p_catalog sample_provider = sample_catalog"
  "p_base sample_provider = sample_base"
  by (simp_all add: sample_provider_def subscribe_def Let_def init_provider_def is_recreate_def
      desc_by_key_def map_of_rev_def sample_catalog_def sample_cron_def sample_timeout_def sample_port_def
      option_defaults)

theorem handler_installs_then_notifies_witness:
  "\<exists>p'. handle_change_event 9 (Inr [''cron'' \<mapsto> ''@daily'']) sample_event sample_provider = Inr p'
     \<and> buf (p_chans p' 0) = [sample_event]"
proof -
  obtain p' where p: "handle_change_event 9 (Inr [''cron'' \<mapsto> ''@daily'']) sample_event sample_provider = Inr p'"
    "\<forall>ch. buf (p_chans p' ch) =
          (if is_recreate sample_provider (ce_key sample_event) \<and> ch \<in> set (p_subs sample_provider)
              \<and> has_room (p_chans sample_provider ch)
           then buf (p_chans sample_provider ch) @ [sample_event] else buf (p_chans sample_provider ch))"
    using handler_installs_then_notifies [OF sample_provider_ok, of 9 "[''cron'' \<mapsto> ''@daily'']" sample_event]
    by blast
  have "buf (p_chans p' 0) = [sample_event]"
    unfolding p(2) [rule_format, of 0]
    by (simp add: sample_provider_fields sample_event_def has_room_def) (simp add: make_chan_def)
  with p(1) show ?thesis by blast
qed

text \<open>When the listing fails, the snapshot, the statistics of successful refreshes, the
  warnings and the subscribers' channels stay as they are, the error is recorded, and the
  event is swallowed: nobody is notified of it, even for a recreate-on-change field.\<close>

theorem refresh_failure_keeps_state:
  "handle_change_event now (Inl err) event p = Inr (p\<lparr>p_last_err := Some err\<rparr>)
   \<and> provider_get (p\<lparr>p_last_err := Some err\<rparr>) = provider_get p
   \<and> s_last_error (provider_stats (p\<lparr>p_last_err := Some err\<rparr>)) = err
   \<and> s_refresh_count (provider_stats (p\<lparr>p_last_err := Some err\<rparr>)) = s_refresh_count (provider_stats p)"
  by (simp add: handle_change_event_def refresh_error provider_get_def provider_stats_def Let_def)

fun request_many :: "nat \<Rightarrow> provider \<Rightarrow> provider_panic + provider" where
  "request_many 0 p = Inr p"
| "request_many (Suc n) p = bind_res (provider_refresh p) (request_many n)"

lemma request_many_ok:
  "prov_ok p \<Longrightarrow> request_many (Suc n) p = Inr (p\<lparr>p_trigger := (p_trigger p)\<lparr>buf := [()]\<rparr>\<rparr>)"
proof (induction n arbitrary: p)
  case 0
  then show ?case by (simp add: provider_refresh_def request_refresh_ok)
next
  case (Suc n)
  have "request_many (Suc (Suc n)) p = request_many (Suc n) (p\<lparr>p_trigger := (p_trigger p)\<lparr>buf := [()]\<rparr>\<rparr>)"
    by (subst request_many.simps(2)) (simp add: provider_refresh_def request_refresh_ok [OF Suc.prems] del: request_many.simps)
  also have "\<dots> = Inr (p\<lparr>p_trigger := (p_trigger p)\<lparr>buf := [()]\<rparr>\<rparr>)"
    using Suc.IH [OF prov_ok_request [OF Suc.prems]] by simp
  finally show ?case .
qed

text \<open>Refresh requests coalesce: any positive number of requests, made before the loop takes
  one, leaves exactly one request queued, blocks and panics nowhere, and changes nothing
  else of the provider.\<close>

theorem refresh_requests_coalesce:
  assumes "prov_ok p" "0 < n"
  shows "\<exists>c. request_many n p = Inr (p\<lparr>p_trigger := c\<rparr>) \<and> length (buf c) = 1"
  using request_many_ok [OF assms(1), of "n - 1"] assms(2)
  by (intro exI [of _ "(p_trigger p)\<lparr>buf := [()]\<rparr>"]) simp

theorem refresh_requests_coalesce_witness:
  "\<exists>c. request_many 3 sample_provider = Inr (sample_provider\<lparr>p_trigger := c\<rparr>) \<and> length (buf c) = 1"
  using refresh_requests_coalesce [OF sample_provider_ok(1), of 3] by simp

subsection \<open>Shutdown\<close>

lemma close_begin_ok: "prov_ok p \<Longrightarrow> prov_ok (close_begin p)"
  by (simp add: close_begin_def prov_ok_def)

text \<open>\<open>Close\<close> cancels the event context and closes the channel of every subscriber, keeping
  the events buffered in it, and returns the store's error; closing again changes nothing
  and returns the same error, so no channel is ever closed twice.\<close>

theorem close_once:
  assumes "prov_ok p" "\<not> p_once p"
  shows "\<exists>p'. provider_close e p = Inr (p', e) \<and> p_cancelled p' \<and> p_subs p' = []
     \<and> (\<forall>ch. p_chans p' ch = (if ch \<in> set (p_subs p) then (p_chans p ch)\<lparr>closed := True\<rparr> else p_chans p ch))
     \<and> provider_close e' p' = Inr (p', e)"
proof -
  have same: "p_subs (close_begin p) = p_subs p" "p_chans (close_begin p) = p_chans p"
    by (simp_all add: close_begin_def)
  from close_finish_ok [OF close_begin_ok [OF assms(1)], of e] obtain tab where
    t: "close_finish e (close_begin p) = Inr ((close_begin p)\<lparr>p_chans := tab, p_subs := [], p_close_err := e\<rparr>)"
    "\<forall>ch. tab ch = (if ch \<in> set (p_subs p) then (p_chans p ch)\<lparr>closed := True\<rparr> else p_chans p ch)"
    unfolding same by blast
  let ?p' = "(close_begin p)\<lparr>p_chans := tab, p_subs := [], p_close_err := e\<rparr>"
  have "provider_close e p = Inr (?p', e)" using assms(2) t(1) by (simp add: provider_close_def)
  moreover have "provider_close e' ?p' = Inr (?p', e)"
    by (simp add: provider_close_def close_begin_def)
  ultimately show ?thesis using t(2) by (intro exI [of _ ?p']) (simp add: close_begin_def)
qed

theorem close_once_witness:
  "\<exists>p'. provider_close None sample_provider = Inr (p', None) \<and> closed (p_chans p' 0)"
proof -
  have "\<not> p_once sample_provider"
    by (simp add: sample_provider_def subscribe_def Let_def init_provider_def)
  from close_once [OF sample_provider_ok(1) this, of None None] show ?thesis
    by (auto simp: sample_provider_fields)
qed

text \<open>A channel subscribed after \<open>Close\<close> is open and is not closed by closing the provider
  again, although the documentation of \<open>Subscribe\<close> says that it is closed with the
  provider.\<close>

theorem subscribe_after_close_stays_open:
  assumes "provider_close e p = Inr (p', err)" "subscribe p' = (q, ch)"
  shows "\<not> closed (p_chans q ch) \<and> ch \<in> set (p_subs q) \<and> provider_close e' q = Inr (q, p_close_err q)"
proof -
  have "p_once p'"
    using assms(1)
    by (auto simp: provider_close_def close_finish_def close_begin_def bind_res_Inr_iff split: if_splits)
  then show ?thesis using assms(2)
    by (auto simp: subscribe_def Let_def provider_close_def make_chan_def)
qed

theorem subscribe_after_close_stays_open_witness:
  "\<exists>p' q. provider_close None sample_provider = Inr (p', None) \<and> subscribe p' = (q, p_next p')
     \<and> \<not> closed (p_chans q (p_next p'))"
proof -
  have "\<not> p_once sample_provider"
    by (simp add: sample_provider_def subscribe_def Let_def init_provider_def)
  with close_finish_ok [OF close_begin_ok [OF sample_provider_ok(1)], of None]
  obtain p' where p: "provider_close None sample_provider = Inr (p', None)"
    by (auto simp: provider_close_def)
  have s: "subscribe p' = (fst (subscribe p'), p_next p')" by (simp add: subscribe_def Let_def)
  from subscribe_after_close_stays_open [OF p s, of None] p s show ?thesis by blast
qed

end
