(* ===== verification/Loop_Moves.thy ===== *)
theory Loop_Moves
  imports System Provider_Props
begin

text \<open>
  The event loop on a store other than the in-memory one: the steps of \<open>eventLoop\<close> that do
  not look at the watch channel, with a \<open>List\<close> that may fail, and what the other goroutines
  do to the provider. Its clients add a source of change events. What the moves keep of the
  snapshot, and of the snapshot being caught up with the store, is proved once here.
\<close>

subsection \<open>Moves\<close>

datatype move =
    Called
  | Installed "string \<rightharpoonup> string"
  | RefreshFailed string
  | Told change_event

inductive loop_move ::
  "(string \<rightharpoonup> string) \<Rightarrow> provider \<Rightarrow> loop_pc \<Rightarrow> move \<Rightarrow> provider \<Rightarrow> loop_pc \<Rightarrow> bool" for store where
  lm_request: "request_refresh p = Inr p' \<Longrightarrow> loop_move store p pc Called p' pc"
| lm_subscribe: "loop_move store p pc Called (fst (subscribe p)) pc"
| lm_tick: "loop_move store p PSelect Called p (PList OnTick)"
| lm_trigger: "recv (p_trigger p) = (Got u, c) \<Longrightarrow>
      loop_move store p PSelect Called (p\<lparr>p_trigger := c\<rparr>) (PList OnTrigger)"
| lm_list: "loop_move store p (PList r) Called p (PInstall r store)"
| lm_list_failed: "refresh now (Inl err) p = Inr (p', e) \<Longrightarrow>
      loop_move store p (PList r) (RefreshFailed err) p' PSelect"
| lm_install: "refresh now (Inr ov) p = Inr (p', e) \<Longrightarrow>
      loop_move store p (PInstall r ov) (Installed ov) p' (after_install r p')"
| lm_notify: "notify_subscribers event p = Inr p' \<Longrightarrow>
      loop_move store p (PNotify event) (Told event) p' PSelect"

text \<open>The overrides of the snapshot after a move.\<close>

definition moved_to :: "move \<Rightarrow> (string \<rightharpoonup> string) \<Rightarrow> string \<rightharpoonup> string" where
  "moved_to m ov = (case m of Installed ov' \<Rightarrow> ov' | _ \<Rightarrow> ov)"

definition snapshot_is :: "gval \<Rightarrow> field_descriptor list \<Rightarrow> (string \<rightharpoonup> string) \<Rightarrow> provider \<Rightarrow> bool" where
  "snapshot_is base cat ov p \<longleftrightarrow> prov_flat p \<and> p_base p = base \<and> p_catalog p = cat
     \<and> provider_get p = Inr (apply_pure ov cat base)"

lemma snapshot_is_move:
  assumes "snapshot_is base cat ov p" "loop_move store p pc m p' pc'"
  shows "snapshot_is base cat (moved_to m ov) p'"
  using assms(2)
proof cases
  case (lm_install now ov' e r)
  with assms(1) show ?thesis
    using refresh_flat [of p now ov']
    by (auto simp: snapshot_is_def moved_to_def prov_flat_def provider_get_def snapshot_of_def)
next
  case lm_subscribe
  with assms(1) show ?thesis
    by (auto simp: snapshot_is_def moved_to_def subscribe_def Let_def prov_flat_def provider_get_def)
qed (use assms(1) in \<open>auto simp: snapshot_is_def moved_to_def prov_flat_def provider_get_def refresh_error
       request_refresh_def notify_subscribers_def bind_res_Inr_iff\<close>)

lemma snapshot_is_new:
  assumes "build_catalog (Some t) = Inr cat" "flat_config t cat"
    and "new_provider (Some t) h base opts now (Inr ov) None = Inr (Inr p)"
  shows "snapshot_is base cat ov p"
proof -
  have "prov_flat (init_provider t h base cat (provider_config opts))"
    using assms(1,2) by (simp add: prov_flat_def init_provider_same)
  with assms show ?thesis
    by (auto simp: snapshot_is_def new_provider_def Let_def refresh_flat prov_flat_def init_provider_same
        provider_get_def snapshot_of_def)
qed

subsection \<open>Caught up\<close>

text \<open>
  \<open>ov\<close> are the overrides of the snapshot, \<open>stale\<close> tells those that are out of date, and
  \<open>waiting\<close> whether an event is on its way to the loop.
\<close>

definition caught_up ::
  "((string \<rightharpoonup> string) \<Rightarrow> bool) \<Rightarrow> bool \<Rightarrow> (string \<rightharpoonup> string) \<Rightarrow> loop_pc \<Rightarrow> bool" where
  "caught_up stale waiting ov pc \<longleftrightarrow>
     (stale ov \<longrightarrow> waiting \<or> (\<exists>r. pc = PList r) \<or> (\<exists>r ov'. pc = PInstall r ov'))
     \<and> (\<forall>r ov'. pc = PInstall r ov' \<longrightarrow> stale ov' \<longrightarrow> waiting)"

lemma caught_up_move:
  assumes "caught_up stale waiting ov pc" "loop_move store p pc m p' pc'" "\<not> stale store"
    and "\<And>err. m \<noteq> RefreshFailed err"
  shows "caught_up stale waiting (moved_to m ov) pc'"
  using assms(2)
  by cases (use assms(1,3,4) in \<open>auto simp: caught_up_def moved_to_def after_install_def split: loop_reason.splits\<close>)

lemma caught_up_taken: "caught_up stale waiting ov (PList r)"
  by (simp add: caught_up_def)

lemma caught_up_idle: "caught_up stale False ov PSelect \<longleftrightarrow> \<not> stale ov"
  by (simp add: caught_up_def)

lemma caught_up_waiting: "caught_up stale True ov pc"
  by (simp add: caught_up_def)

lemma caught_up_mono:
  "caught_up stale waiting ov pc \<Longrightarrow> (waiting \<Longrightarrow> waiting') \<Longrightarrow> (\<And>m. stale' m \<Longrightarrow> stale m) \<Longrightarrow>
     caught_up stale' waiting' ov pc"
  unfolding caught_up_def by blast

text \<open>The overrides the provider installed, oldest first, starting with those of \<open>New\<close>.\<close>

definition installed :: "(string \<rightharpoonup> string) \<Rightarrow> move list \<Rightarrow> string \<rightharpoonup> string" where
  "installed ov ms = fold moved_to ms ov"

lemma installed_simps [simp]:
  "installed ov [] = ov" "installed ov (ms @ [m]) = moved_to m (installed ov ms)"
  by (simp_all add: installed_def)

end
