(* ===== verification/Loop_Client.thy ===== *)
theory Loop_Client
  imports Loop_Moves
begin

text \<open>
  What the event loop promises whatever store it runs on: a subscriber who has an event
  reads a snapshot listed after the loop took the event, and a request for a refresh is
  followed by a listing. Both are proved once, in the locale \<open>loop_client\<close> of the systems
  in which only the loop's own moves list and install, and interpreted on the system of
  each store.
\<close>

subsection \<open>Runs and listings\<close>

inductive steps_from :: "('s \<Rightarrow> 'l \<Rightarrow> 's \<Rightarrow> bool) \<Rightarrow> 's \<Rightarrow> 'l list \<Rightarrow> 's \<Rightarrow> bool" for step s where
  sf_none: "steps_from step s [] s"
| sf_more: "steps_from step s ls t \<Longrightarrow> step t l u \<Longrightarrow> steps_from step s (ls @ [l]) u"

lemma steps_from_append:
  "steps_from step t ms u \<Longrightarrow> steps_from step s ls t \<Longrightarrow> steps_from step s (ls @ ms) u"
proof (induction rule: steps_from.induct)
  case (sf_more ms v l u)
  from steps_from.sf_more [OF sf_more.IH [OF sf_more.prems] sf_more.hyps(2)] show ?case by simp
qed simp

lemma steps_from_Cons: "step s l t \<Longrightarrow> steps_from step t ls u \<Longrightarrow> steps_from step s (l # ls) u"
  using steps_from_append [of step t ls u s "[l]"] sf_more [OF sf_none, of step s l t] by simp

text \<open>The overrides a run's states have in the store.\<close>

definition listed_since :: "('s \<Rightarrow> 'l \<Rightarrow> 's \<Rightarrow> bool) \<Rightarrow> ('s \<Rightarrow> string \<rightharpoonup> string) \<Rightarrow> 's \<Rightarrow> 'l list \<Rightarrow> (string \<rightharpoonup> string) \<Rightarrow> bool" where
  "listed_since step listing s ls ov \<longleftrightarrow>
     (\<exists>us vs t. ls = us @ vs \<and> steps_from step s us t \<and> listing t = ov)"

lemma listed_since_snoc: "listed_since step listing s ls ov \<Longrightarrow> listed_since step listing s (ls @ [l]) ov"
  unfolding listed_since_def by (metis append.assoc)

lemma listed_since_last: "steps_from step s ls t \<Longrightarrow> listed_since step listing s ls (listing t)"
  unfolding listed_since_def by blast

subsection \<open>What other goroutines do to the provider\<close>

text \<open>They install nothing, put no event into a subscriber's channel, and take no request.\<close>

definition untouched :: "provider \<Rightarrow> provider \<Rightarrow> bool" where
  "untouched p p' \<longleftrightarrow> p_current p' = p_current p \<and> snapshot_of p' = snapshot_of p
     \<and> (\<forall>ch. set (buf (p_chans p' ch)) \<subseteq> set (buf (p_chans p ch)))"

definition requested :: "provider \<Rightarrow> loop_pc \<Rightarrow> bool" where
  "requested p pc \<longleftrightarrow> buf (p_trigger p) \<noteq> [] \<or> pc = PList OnTrigger"

text \<open>
  A step beside the loop: the loop stays where it is, or leaves its \<^verbatim>\<open>select\<close> to list or to
  return. Before the loop has started there are no events and no requests to look after.
\<close>

definition beside_loop :: "provider \<Rightarrow> loop_pc \<Rightarrow> provider \<Rightarrow> loop_pc \<Rightarrow> bool" where
  "beside_loop p pc p' pc' \<longleftrightarrow> untouched p p' \<and> (requested p pc \<longrightarrow> requested p' pc' \<or> pc' = PReturned)
     \<and> (pc' = pc \<or> pc = PSelect \<and> (pc' = PReturned \<or> (\<exists>r. pc' = PList r)))"

definition before_loop :: "provider \<Rightarrow> loop_pc \<Rightarrow> provider \<Rightarrow> loop_pc \<Rightarrow> bool" where
  "before_loop p pc p' pc' \<longleftrightarrow> \<not> started pc \<and> (pc' = PSelect \<or> \<not> started pc')
     \<and> (\<forall>ch. set (buf (p_chans p' ch)) \<subseteq> set (buf (p_chans p ch)))"

text \<open>An event a subscriber has, or is just being given; an event nothing was listed for yet.\<close>

definition told :: "change_event \<Rightarrow> provider \<Rightarrow> loop_pc \<Rightarrow> bool" where
  "told e p pc \<longleftrightarrow> (\<exists>ch. e \<in> set (buf (p_chans p ch))) \<or> pc = PNotify e"

definition unannounced :: "change_event \<Rightarrow> provider \<Rightarrow> loop_pc \<Rightarrow> bool" where
  "unannounced e p pc \<longleftrightarrow> \<not> told e p pc \<and> (\<forall>ov. pc \<noteq> PInstall (OnEvent e) ov)"

definition displays :: "((string \<rightharpoonup> string) \<Rightarrow> bool) \<Rightarrow> provider \<Rightarrow> bool" where
  "displays recent p \<longleftrightarrow> (\<exists>ov. recent ov \<and> p_current p = Some (snapshot_of p ov))"

text \<open>Told of the event, the snapshot is recent and stays so.\<close>

definition barrier :: "change_event \<Rightarrow> ((string \<rightharpoonup> string) \<Rightarrow> bool) \<Rightarrow> provider \<Rightarrow> loop_pc \<Rightarrow> bool" where
  "barrier e recent p pc \<longleftrightarrow>
     (told e p pc \<longrightarrow> started pc \<and> displays recent p \<and> (\<forall>r ov. pc = PInstall r ov \<longrightarrow> recent ov))
     \<and> (\<forall>ov. pc = PInstall (OnEvent e) ov \<longrightarrow> recent ov)"

text \<open>Asked for a refresh, the loop has listed since, or still has to.\<close>

definition honoured :: "((string \<rightharpoonup> string) \<Rightarrow> bool) \<Rightarrow> provider \<Rightarrow> loop_pc \<Rightarrow> bool" where
  "honoured recent p pc \<longleftrightarrow> requested p pc \<or> pc = PReturned
     \<or> (\<exists>r ov. pc = PInstall r ov \<and> recent ov)
     \<or> (displays recent p \<and> (\<forall>r ov. pc = PInstall r ov \<longrightarrow> recent ov))"

lemma barrier_start: "unannounced e p pc \<Longrightarrow> barrier e recent p pc"
  by (simp add: unannounced_def barrier_def)

lemma barrier_mono: "barrier e recent p pc \<Longrightarrow> (\<And>ov. recent ov \<Longrightarrow> recent' ov) \<Longrightarrow> barrier e recent' p pc"
  unfolding barrier_def displays_def by blast

lemma honoured_mono: "honoured recent p pc \<Longrightarrow> (\<And>ov. recent ov \<Longrightarrow> recent' ov) \<Longrightarrow> honoured recent' p pc"
  unfolding honoured_def displays_def by blast

lemma displays_untouched: "untouched p p' \<Longrightarrow> displays recent p' = displays recent p"
  by (simp add: untouched_def displays_def)

lemma untouched_refl [simp]: "untouched p p"
  by (simp add: untouched_def)

lemma told_untouched: "untouched p p' \<Longrightarrow> told e p' pc \<Longrightarrow> told e p pc"
  unfolding untouched_def told_def by blast

lemma barrier_untouched:
  assumes "untouched p p'" "barrier e recent p pc"
  shows "barrier e recent p' pc"
  using assms(2) told_untouched [OF assms(1), of e pc] displays_untouched [OF assms(1), of recent]
  unfolding barrier_def by blast

lemma displays_listed:
  "displays (listed_since step listing s ls) p \<Longrightarrow>
     \<exists>us vs u. ls = us @ vs \<and> steps_from step s us u \<and> provider_get p = Inr (snapshot_of p (listing u))"
proof -
  assume "displays (listed_since step listing s ls) p"
  then obtain us vs u where "ls = us @ vs" "steps_from step s us u" "p_current p = Some (snapshot_of p (listing u))"
    by (auto simp: displays_def listed_since_def)
  then show ?thesis by (intro exI [of _ us] exI [of _ vs] exI [of _ u]) (simp add: provider_get_def)
qed

subsection \<open>The loop's moves\<close>

lemma fan_out_subset:
  "fan_out try_send e is tab = Inr tab' \<Longrightarrow> set (buf (tab' ch)) \<subseteq> insert e (set (buf (tab ch)))"
proof (induction "is" arbitrary: tab)
  case (Cons i js)
  then obtain c where c: "try_send e (tab i) = Inr c" "fan_out try_send e js (tab(i := c)) = Inr tab'"
    by (auto simp: bind_res_Inr_iff)
  have "set (buf c) \<subseteq> insert e (set (buf (tab i)))" using c(1) by (auto simp: try_send_def split: if_splits)
  then have "set (buf ((tab(i := c)) ch)) \<subseteq> insert e (set (buf (tab ch)))" by auto
  with Cons.IH [OF c(2)] show ?case by blast
qed auto

lemma notify_effect:
  assumes "notify_subscribers e' p = Inr p'"
  shows "set (buf (p_chans p' ch)) \<subseteq> insert e' (set (buf (p_chans p ch)))" "p_current p' = p_current p"
    "snapshot_of p' = snapshot_of p" "p_trigger p' = p_trigger p"
  using assms
  by (auto simp: notify_subscribers_def bind_res_Inr_iff lift_panic_def snapshot_of_def
      dest: fan_out_subset [THEN subsetD] split: sum.splits)

lemma install_effect:
  assumes "prov_flat p" "refresh now (Inr ov) p = Inr (p', err)"
  shows "p_current p' = Some (snapshot_of p ov)" "snapshot_of p' = snapshot_of p" "p_chans p' = p_chans p"
    "p_trigger p' = p_trigger p"
  using assms refresh_flat [OF assms(1), of now ov] by (auto simp: snapshot_of_def fun_eq_iff)

lemma after_install_pc: "after_install r p \<noteq> PInstall r' ov" "after_install r p \<noteq> PList r'"
  "after_install r p = PNotify e \<Longrightarrow> r = OnEvent e" "started (after_install r p)"
  by (auto simp: after_install_def split: loop_reason.splits if_splits)

lemma request_effect:
  assumes "request_refresh p = Inr p'"
  shows "untouched p p'" "requested p pc \<Longrightarrow> requested p' pc"
  using assms
  by (auto simp: request_refresh_def bind_res_Inr_iff lift_panic_def try_send_def untouched_def requested_def
      snapshot_of_def split: sum.splits if_splits)

lemma subscribe_effect: "untouched p (fst (subscribe p))" "p_trigger (fst (subscribe p)) = p_trigger p"
  by (auto simp: untouched_def subscribe_def Let_def make_chan_def snapshot_of_def)

lemma barrier_move:
  assumes "loop_move store p pc m p' pc'" "prov_flat p" "barrier e recent p pc" "recent store"
  shows "barrier e recent p' pc'"
  using assms(1)
proof cases
  case lm_request
  with barrier_untouched [OF request_effect(1) assms(3)] show ?thesis by simp
next
  case lm_subscribe
  with barrier_untouched [OF subscribe_effect(1) assms(3)] show ?thesis by simp
next
  case lm_trigger
  with assms(3) show ?thesis by (auto simp: barrier_def told_def displays_def snapshot_of_def)
next
  case lm_list_failed
  with assms(3) show ?thesis by (auto simp: barrier_def told_def displays_def snapshot_of_def refresh_error)
next
  case (lm_install now ov err r)
  note eff = install_effect [OF assms(2) lm_install(4)]
  have "recent ov" if "told e p' pc'"
  proof (cases "told e p pc")
    case True
    with assms(3) lm_install(1) show ?thesis by (simp add: barrier_def)
  next
    case False
    with that eff(3) lm_install have "r = OnEvent e" by (auto simp: told_def dest: after_install_pc(3))
    with assms(3) lm_install(1) show ?thesis by (simp add: barrier_def)
  qed
  with eff lm_install after_install_pc show ?thesis by (auto simp: barrier_def displays_def)
next
  case (lm_notify e')
  note eff = notify_effect [OF lm_notify(4)]
  have "told e p pc" if "told e p' pc'" using that eff(1) lm_notify by (fastforce simp: told_def)
  with assms(3) eff lm_notify show ?thesis by (auto simp: barrier_def displays_def)
qed (use assms(3,4) in \<open>auto simp: barrier_def told_def displays_def\<close>)

lemma honoured_move:
  assumes "loop_move store p pc m p' pc'" "prov_flat p" "honoured recent p pc" "recent store"
    and "\<And>err. m \<noteq> RefreshFailed err"
  shows "honoured recent p' pc'"
  using assms(1)
proof cases
  case lm_request
  with assms(3) request_effect [OF lm_request(3)] displays_untouched [OF request_effect(1) [OF lm_request(3)], of recent]
  show ?thesis by (auto simp: honoured_def)
next
  case lm_subscribe
  with assms(3) subscribe_effect(2) [of p] displays_untouched [OF subscribe_effect(1), of recent p] show ?thesis
    by (auto simp: honoured_def requested_def)
next
  case lm_trigger
  show ?thesis by (simp add: lm_trigger honoured_def requested_def)
next
  case (lm_install now ov err r)
  with install_effect [OF assms(2) lm_install(4)] assms(3) after_install_pc show ?thesis
    by (auto simp: honoured_def requested_def displays_def)
next
  case (lm_notify e')
  with notify_effect [OF lm_notify(4)] assms(3) show ?thesis
    by (auto simp: honoured_def requested_def displays_def)
qed (use assms(3-5) in \<open>auto simp: honoured_def requested_def displays_def\<close>)

lemma barrier_beside:
  assumes "beside_loop p pc p' pc'" "barrier e recent p pc"
  shows "barrier e recent p' pc'"
proof -
  have u: "untouched p p'" using assms(1) by (simp add: beside_loop_def)
  have "barrier e recent p' pc" by (rule barrier_untouched [OF u assms(2)])
  with assms(1) show ?thesis by (auto simp: beside_loop_def barrier_def told_def)
qed

lemma honoured_beside: "beside_loop p pc p' pc' \<Longrightarrow> honoured recent p pc \<Longrightarrow> honoured recent p' pc'"
  using displays_untouched [of p p' recent] by (auto simp: beside_loop_def honoured_def)

lemma barrier_before:
  assumes "before_loop p pc p' pc'" "barrier e recent p pc"
  shows "barrier e recent p' pc'"
proof -
  have "\<not> told e p pc" using assms by (auto simp: before_loop_def barrier_def)
  then have "\<not> told e p' pc'" using assms(1) by (auto simp: before_loop_def told_def)
  moreover have "pc' \<noteq> PInstall r ov" for r ov using assms(1) by (auto simp: before_loop_def)
  ultimately show ?thesis by (simp add: barrier_def)
qed

lemma started_move: "loop_move store p pc m p' pc' \<Longrightarrow> started pc \<Longrightarrow> started pc'"
  by (induction rule: loop_move.induct) (simp_all add: after_install_pc)

lemma started_beside: "beside_loop p pc p' pc' \<Longrightarrow> started pc \<Longrightarrow> started pc'"
  by (auto simp: beside_loop_def)

subsection \<open>The clients\<close>

locale loop_client =
  fixes step :: "'s \<Rightarrow> 'l \<Rightarrow> 's \<Rightarrow> bool"
    and listing :: "'s \<Rightarrow> string \<rightharpoonup> string"
    and prov :: "'s \<Rightarrow> provider"
    and pc :: "'s \<Rightarrow> loop_pc"
    and good :: "'s \<Rightarrow> bool"
    and fails :: "'l \<Rightarrow> bool"
  assumes good_step: "good s \<Longrightarrow> step s l s' \<Longrightarrow> good s'"
    and good_flat: "good s \<Longrightarrow> prov_flat (prov s)"
    and step_kind: "good s \<Longrightarrow> step s l s' \<Longrightarrow>
      beside_loop (prov s) (pc s) (prov s') (pc s') \<or> before_loop (prov s) (pc s) (prov s') (pc s')
      \<or> (\<exists>m. loop_move (listing s) (prov s) (pc s) m (prov s') (pc s')
            \<and> (\<forall>err. m = RefreshFailed err \<longrightarrow> fails l))"
begin

lemma good_run: "steps_from step s ls t \<Longrightarrow> good s \<Longrightarrow> good t"
  by (induction rule: steps_from.induct) (blast intro: good_step)+

lemma barrier_run:
  "steps_from step s ls t \<Longrightarrow> good s \<Longrightarrow> unannounced e (prov s) (pc s) \<Longrightarrow>
     barrier e (listed_since step listing s ls) (prov t) (pc t)"
proof (induction rule: steps_from.induct)
  case sf_none
  then show ?case by (simp add: barrier_start)
next
  case (sf_more ls t l u)
  let ?r = "listed_since step listing s (ls @ [l])"
  have t: "good t" using good_run sf_more by blast
  have b: "barrier e ?r (prov t) (pc t)"
    using sf_more.IH [OF sf_more.prems] listed_since_snoc by (rule barrier_mono)
  have "?r (listing t)" by (rule listed_since_snoc [OF listed_since_last [OF sf_more.hyps(1)]])
  with step_kind [OF t sf_more.hyps(2)] barrier_beside [OF _ b] barrier_before [OF _ b]
    barrier_move [OF _ good_flat [OF t] b] show ?case by blast
qed

text \<open>A subscriber who has an event that was unannounced before the run reads a recent snapshot.\<close>

lemma subscriber_sees:
  assumes "steps_from step s ls t" "good s" "unannounced e (prov s) (pc s)" "e \<in> set (buf (p_chans (prov t) ch))"
  shows "\<exists>us vs u. ls = us @ vs \<and> steps_from step s us u
     \<and> provider_get (prov t) = Inr (snapshot_of (prov t) (listing u))"
proof -
  have "told e (prov t) (pc t)" using assms(4) by (auto simp: told_def)
  with barrier_run [OF assms(1-3)] show ?thesis by (intro displays_listed) (simp add: barrier_def)
qed

lemma honoured_run:
  "steps_from step s ls t \<Longrightarrow> good s \<Longrightarrow> started (pc s) \<Longrightarrow> requested (prov s) (pc s) \<Longrightarrow> list_all (\<lambda>l. \<not> fails l) ls \<Longrightarrow>
     honoured (listed_since step listing s ls) (prov t) (pc t) \<and> started (pc t)"
proof (induction rule: steps_from.induct)
  case sf_none
  then show ?case by (simp add: honoured_def)
next
  case (sf_more ls t l u)
  let ?r = "listed_since step listing s (ls @ [l])"
  have t: "good t" using good_run sf_more by blast
  have "list_all (\<lambda>l. \<not> fails l) ls" "\<not> fails l" using sf_more.prems(4) by simp_all
  with sf_more.IH sf_more.prems have
    IH: "honoured (listed_since step listing s ls) (prov t) (pc t)" "started (pc t)" by blast+
  have h: "honoured ?r (prov t) (pc t)" using IH(1) listed_since_snoc by (rule honoured_mono)
  have "?r (listing t)" by (rule listed_since_snoc [OF listed_since_last [OF sf_more.hyps(1)]])
  with step_kind [OF t sf_more.hyps(2)] honoured_beside [OF _ h] honoured_move [OF _ good_flat [OF t] h]
    IH(2) \<open>\<not> fails l\<close>
  have "honoured ?r (prov u) (pc u)" unfolding before_loop_def by blast
  moreover have "started (pc u)"
    using step_kind [OF t sf_more.hyps(2)] started_move started_beside IH(2) unfolding before_loop_def by blast
  ultimately show ?case by blast
qed

text \<open>A request: when the loop waits again and none is pending, the snapshot is recent.\<close>

lemma request_honoured:
  assumes "steps_from step s ls t" "good s" "started (pc s)" "requested (prov s) (pc s)" "list_all (\<lambda>l. \<not> fails l) ls"
    and "pc t = PSelect" "buf (p_trigger (prov t)) = []"
  shows "\<exists>us vs u. ls = us @ vs \<and> steps_from step s us u
     \<and> provider_get (prov t) = Inr (snapshot_of (prov t) (listing u))"
  using honoured_run [OF assms(1-5)] assms(6,7) by (intro displays_listed) (simp add: honoured_def requested_def)

end

end
