(* ===== verification/System_Poll.thy ===== *)
theory System_Poll
  imports Loop_Moves Polling
begin

text \<open>
  A provider on a custom store whose \<open>Watch\<close> is an embedded polling watcher (the use that
  \<^verbatim>\<open>pollingwatcher.go\<close> documents): the store's contents change at any time, the watcher
  lists them on its ticks and sends the differences, and the provider's event loop lists
  them again on each event. Both listings may fail. The model begins when \<open>New\<close> returns,
  with a first snapshot of the contents at that time.
\<close>

subsection \<open>Steps\<close>

text \<open>\<open>pd_store\<close> are the overrides the store holds in the provider's namespace.\<close>

record polled =
  pd_store :: "string \<rightharpoonup> string"
  pd_poller :: poller
  pd_prov :: provider
  pd_pc :: loop_pc

datatype polled_label =
    Written "string \<rightharpoonup> string"
  | Polled poll_label
  | Took change_event
  | Moved move
  | Ended

text \<open>The watcher's context is the provider's, so \<open>pl_done\<close> says that the loop is to end.\<close>

inductive polled_step :: "string \<Rightarrow> polled \<Rightarrow> polled_label \<Rightarrow> polled \<Rightarrow> bool" for namespace where
  pd_write: "polled_step namespace s (Written m) (s\<lparr>pd_store := m\<rparr>)"
| pd_poll: "poll_step namespace (pd_poller s) l q \<Longrightarrow> (\<And>m. l = Listed (Some m) \<Longrightarrow> m = pd_store s) \<Longrightarrow>
      (\<And>e. l \<noteq> Received e) \<Longrightarrow> polled_step namespace s (Polled l) (s\<lparr>pd_poller := q\<rparr>)"
| pd_event: "pd_pc s = PSelect \<Longrightarrow> poll_step namespace (pd_poller s) (Received e) q \<Longrightarrow>
      polled_step namespace s (Took e) (s\<lparr>pd_poller := q, pd_pc := PList (OnEvent e)\<rparr>)"
| pd_loop: "loop_move (pd_store s) (pd_prov s) (pd_pc s) m p pc \<Longrightarrow>
      polled_step namespace s (Moved m) (s\<lparr>pd_prov := p, pd_pc := pc\<rparr>)"
| pd_done: "pd_pc s = PSelect \<Longrightarrow> pl_done (pd_poller s) \<Longrightarrow> polled_step namespace s Ended (s\<lparr>pd_pc := PReturned\<rparr>)"
| pd_closed: "pd_pc s = PSelect \<Longrightarrow> recv (pl_chan (pd_poller s)) = (Drained, c) \<Longrightarrow>
      polled_step namespace s Ended (s\<lparr>pd_pc := PReturned\<rparr>)"

text \<open>Runs of a provider that \<open>New\<close> made when the store held \<open>m0\<close>.\<close>

inductive polled_run ::
  "gtype \<Rightarrow> gval list \<Rightarrow> gval \<Rightarrow> provider_option list \<Rightarrow> int \<Rightarrow> (string \<rightharpoonup> string)
     \<Rightarrow> polled_label list \<Rightarrow> polled \<Rightarrow> bool"
  for t h base opts interval m0 where
  pdr_start: "new_provider (Some t) h base opts now (Inr m0) None = Inr (Inr p) \<Longrightarrow>
      poll_watch (new_polling_watcher interval lg) = Some q \<Longrightarrow>
      polled_run t h base opts interval m0 []
        \<lparr>pd_store = m0, pd_poller = q, pd_prov = p, pd_pc = PSelect\<rparr>"
| pdr_step: "polled_run t h base opts interval m0 ls s \<Longrightarrow> polled_step (p_ns (pd_prov s)) s l s' \<Longrightarrow>
      polled_run t h base opts interval m0 (ls @ [l]) s'"

text \<open>The contents the store has had, the watcher's successful listings and the provider's moves,
  oldest first.\<close>

definition contents :: "(string \<rightharpoonup> string) \<Rightarrow> polled_label list \<Rightarrow> (string \<rightharpoonup> string) list" where
  "contents m0 ls = m0 # concat (map (\<lambda>l. case l of Written m \<Rightarrow> [m] | _ \<Rightarrow> []) ls)"

definition polled_listings :: "polled_label list \<Rightarrow> (string \<rightharpoonup> string) list" where
  "polled_listings ls = concat (map (\<lambda>l. case l of Polled (Listed (Some m)) \<Rightarrow> [m] | _ \<Rightarrow> []) ls)"

definition polled_moves :: "polled_label list \<Rightarrow> move list" where
  "polled_moves ls = concat (map (\<lambda>l. case l of Moved m \<Rightarrow> [m] | _ \<Rightarrow> []) ls)"

lemma histories_snoc [simp]:
  "contents m0 (ls @ [l]) = contents m0 ls @ (case l of Written m \<Rightarrow> [m] | _ \<Rightarrow> [])"
  "polled_listings (ls @ [l]) = polled_listings ls @ (case l of Polled (Listed (Some m)) \<Rightarrow> [m] | _ \<Rightarrow> [])"
  "polled_moves (ls @ [l]) = polled_moves ls @ (case l of Moved m \<Rightarrow> [m] | _ \<Rightarrow> [])"
  "contents m0 [] = [m0]" "polled_listings [] = []" "polled_moves [] = []"
  by (simp_all add: contents_def polled_listings_def polled_moves_def)

lemma contents_nonempty [simp]: "contents m0 ls \<noteq> []"
  by (simp add: contents_def)

subsection \<open>The snapshot is what was installed last\<close>

lemma polled_snapshot_run:
  assumes "polled_run t h base opts interval m0 ls s"
    and "build_catalog (Some t) = Inr cat" "flat_config t cat"
  shows "snapshot_is base cat (installed m0 (polled_moves ls)) (pd_prov s) \<and> pd_store s = last (contents m0 ls)"
  using assms(1)
proof induction
  case (pdr_start now p lg q)
  with snapshot_is_new [OF assms(2,3)] show ?case by simp
next
  case (pdr_step ls s l s')
  from pdr_step.hyps(2) show ?case
  proof cases
    case (pd_loop m p pc)
    with snapshot_is_move [OF _ pd_loop(3)] pdr_step.IH show ?thesis by simp
  next
    case pd_poll
    with pdr_step.IH show ?thesis by (simp split: poll_label.split option.split)
  qed (use pdr_step.IH in simp_all)
qed

subsection \<open>Freshness\<close>

text \<open>
  The contents are numbered by the writes, and \<open>b\<close> is the number of the watcher's baseline.
  The snapshot is caught up with the baseline: contents from before it are stale. Its
  number is only determined when no contents return.
\<close>

definition event_waiting :: "poller \<Rightarrow> bool" where
  "event_waiting p \<longleftrightarrow> buf (pl_chan p) \<noteq> [] \<or> pending_events p \<noteq> []"

definition before :: "nat \<Rightarrow> (string \<rightharpoonup> string) list \<Rightarrow> (string \<rightharpoonup> string) \<Rightarrow> bool" where
  "before b ms m \<longleftrightarrow> m \<in> set (take b ms)"

definition poll_fresh_at :: "(string \<rightharpoonup> string) \<Rightarrow> polled_label list \<Rightarrow> polled \<Rightarrow> nat \<Rightarrow> bool" where
  "poll_fresh_at m0 ls s b \<longleftrightarrow>
     (let ms = contents m0 ls; p = pd_poller s; ov = installed m0 (polled_moves ls) in
      pd_store s = last ms \<and> pl_seeded p = (polled_listings ls \<noteq> [])
      \<and> (\<forall>es cur. pl_phase p = Sending es cur \<longrightarrow> pl_seeded p)
      \<and> b < length ms \<and> (if pl_seeded p then target_listing p = ms ! b else b = 0)
      \<and> ov \<in> set ms \<and> (\<forall>r ov'. pd_pc s = PInstall r ov' \<longrightarrow> ov' \<in> set ms)
      \<and> caught_up (before b ms) (event_waiting p) ov (pd_pc s))"

definition poll_fresh :: "(string \<rightharpoonup> string) \<Rightarrow> polled_label list \<Rightarrow> polled \<Rightarrow> bool" where
  "poll_fresh m0 ls s \<longleftrightarrow> pl_phase (pd_poller s) = Stopped \<or> (\<exists>b. poll_fresh_at m0 ls s b)"

lemma before_append: "b < length ms \<Longrightarrow> before b (ms @ ns) = before b ms"
  by (auto simp: before_def fun_eq_iff)

lemma before_last:
  assumes "distinct ms" "b < length ms"
  shows "\<not> before b ms (last ms)"
proof
  assume "before b ms (last ms)"
  then obtain i where "i < b" "last ms = ms ! i"
    using assms(2) by (auto simp: before_def in_set_conv_nth)
  moreover have "last ms = ms ! (length ms - 1)" using assms(2) by (subst last_conv_nth) auto
  ultimately show False using assms by (auto simp: nth_eq_iff_index_eq)
qed

lemma poll_events_nonempty:
  assumes "range_order ks cur" "range_order ms prev" "prev \<noteq> cur"
  shows "poll_events ns now prev cur ks ms \<noteq> []"
proof
  assume "poll_events ns now prev cur ks ms = []"
  then have "{k. prev k \<noteq> cur k} = {}" using poll_events_shape(2) [OF assms(1,2), of ns now] by simp
  with assms(3) show False by auto
qed

lemma poll_fresh_tick:
  assumes "poll_fresh_at m0 ls s b" "distinct (contents m0 ls)" "pl_phase (pd_poller s) = Waiting"
    and "polled_listings ls = [] \<Longrightarrow> pd_store s = m0"
    and "range_order ks (pd_store s)" "range_order ns (pl_prev (pd_poller s))"
  shows "\<exists>b'. poll_fresh_at m0 (ls @ [Polled (Listed (Some (pd_store s)))])
     (s\<lparr>pd_poller := poll_tick namespace now (Some (pd_store s)) ks ns (pd_poller s)\<rparr>) b'"
proof -
  let ?ms = "contents m0 ls" and ?p = "pd_poller s" and ?ov = "installed m0 (polled_moves ls)"
  have b: "pd_store s = last ?ms" "pl_seeded ?p = (polled_listings ls \<noteq> [])" "b < length ?ms"
    "if pl_seeded ?p then target_listing ?p = ?ms ! b else b = 0" "?ov \<in> set ?ms"
    "\<forall>r ov'. pd_pc s = PInstall r ov' \<longrightarrow> ov' \<in> set ?ms"
    "caught_up (before b ?ms) (event_waiting ?p) ?ov (pd_pc s)"
    using assms(1) by (simp_all add: poll_fresh_at_def Let_def)
  show ?thesis
  proof (cases "pl_seeded ?p")
    case False
    then have "?ms ! 0 = m0" "pd_store s = m0" "b = 0"
      using assms(4) b(2,4) by (simp_all add: contents_def)
    then have "poll_fresh_at m0 (ls @ [Polled (Listed (Some (pd_store s)))])
        (s\<lparr>pd_poller := poll_tick namespace now (Some (pd_store s)) ks ns ?p\<rparr>) 0"
      using False assms(3) b
      by (simp add: poll_fresh_at_def Let_def poll_tick_def target_listing_def event_waiting_def pending_events_def)
    then show ?thesis ..
  next
    case True
    let ?c = "length ?ms - 1"
    have c: "?c < length ?ms" "pd_store s = ?ms ! ?c"
      using b(1,3) by (auto simp: last_conv_nth)
    have prev: "pl_prev ?p = ?ms ! b" using True b(4) assms(3) by (simp add: target_listing_def)
    let ?es = "poll_events namespace now (pl_prev ?p) (pd_store s) ks ns"
    have "caught_up (before ?c ?ms) (buf (pl_chan ?p) \<noteq> [] \<or> ?es \<noteq> []) ?ov (pd_pc s)"
    proof (cases "b = ?c")
      case True
      with b(7) assms(3) show ?thesis
        by (auto simp: event_waiting_def pending_events_def elim: caught_up_mono)
    next
      case False
      then have "pl_prev ?p \<noteq> pd_store s"
        using prev c b(3) assms(2) by (simp add: nth_eq_iff_index_eq)
      from poll_events_nonempty [OF assms(5,6) this] show ?thesis by (simp add: caught_up_waiting)
    qed
    then have "poll_fresh_at m0 (ls @ [Polled (Listed (Some (pd_store s)))])
        (s\<lparr>pd_poller := poll_tick namespace now (Some (pd_store s)) ks ns ?p\<rparr>) ?c"
      using True b c
      by (simp add: poll_fresh_at_def Let_def poll_tick_def target_listing_def event_waiting_def pending_events_def)
    then show ?thesis ..
  qed
qed

text \<open>The watcher's other steps keep its target, and an event on its way until it is received.\<close>

lemma poll_step_keeps:
  assumes "poll_step namespace p l q" "\<And>m. l \<noteq> Listed (Some m)"
  shows "pl_phase q = Stopped \<or> pl_seeded q = pl_seeded p \<and> target_listing q = target_listing p
     \<and> ((\<exists>es cur. pl_phase q = Sending es cur) \<longrightarrow> (\<exists>es cur. pl_phase p = Sending es cur))
     \<and> ((\<forall>e. l \<noteq> Received e) \<longrightarrow> event_waiting p \<longrightarrow> event_waiting q)"
  using assms(1)
proof cases
  case (ps_tick listing ks ms now)
  with assms(2) show ?thesis by (cases listing) (auto simp: poll_tick_def)
qed (auto simp: target_listing_def event_waiting_def pending_events_def poll_stop_def split: poll_phase.splits)

lemma poll_fresh_at_keep:
  assumes "poll_fresh_at m0 ls s b" "contents m0 ls' = contents m0 ls"
    and "polled_listings ls' = polled_listings ls" "polled_moves ls' = polled_moves ls"
    and "pl_seeded q = pl_seeded (pd_poller s)" "target_listing q = target_listing (pd_poller s)"
    and "(\<exists>es cur. pl_phase q = Sending es cur) \<longrightarrow> (\<exists>es cur. pl_phase (pd_poller s) = Sending es cur)"
    and "caught_up (before b (contents m0 ls)) (event_waiting q) (installed m0 (polled_moves ls)) pc"
    and "\<And>r ov. pc = PInstall r ov \<Longrightarrow> pd_pc s = pc" "s' = s\<lparr>pd_poller := q, pd_pc := pc\<rparr>"
  shows "poll_fresh_at m0 ls' s' b"
  using assms(1) unfolding poll_fresh_at_def Let_def assms(2-4,10)
  by (simp add: assms(5,6,8)) (use assms(7,9) in blast)

lemma poll_fresh_step:
  assumes "poll_fresh_at m0 ls s b" "distinct (contents m0 (ls @ [l]))"
    and "polled_listings (ls @ [l]) = [] \<or> hd (polled_listings (ls @ [l])) = m0"
    and "\<And>err. l \<noteq> Moved (RefreshFailed err)" "polled_step namespace s l s'"
  shows "poll_fresh m0 (ls @ [l]) s'"
proof -
  let ?ms = "contents m0 ls" and ?ov = "installed m0 (polled_moves ls)"
  have b: "pd_store s = last ?ms" "b < length ?ms" "?ov \<in> set ?ms" "pd_store s \<in> set ?ms"
    "caught_up (before b ?ms) (event_waiting (pd_poller s)) ?ov (pd_pc s)"
    using assms(1) by (simp_all add: poll_fresh_at_def Let_def)
  note at = assms(1) [unfolded poll_fresh_at_def Let_def]
  have keep: "poll_fresh m0 (ls @ [l]) s'" if "poll_fresh_at m0 (ls @ [l]) s' b"
    using that by (auto simp: poll_fresh_def)
  have d: "distinct ?ms" using assms(2) by simp
  from assms(5) show ?thesis
  proof cases
    case (pd_write m)
    with at show ?thesis
      by (intro keep) (auto simp: poll_fresh_at_def Let_def nth_append before_append)
  next
    case (pd_poll l' q)
    show ?thesis
    proof (cases "\<exists>m. l' = Listed (Some m)")
      case True
      then have l: "l' = Listed (Some (pd_store s))" using pd_poll(4) by blast
      from pd_poll(3) [unfolded l] obtain ks ms now where
        q: "q = poll_tick namespace now (Some (pd_store s)) ks ms (pd_poller s)" "pl_phase (pd_poller s) = Waiting"
        "range_order ks (pd_store s)" "range_order ms (pl_prev (pd_poller s))"
        by (auto elim: poll_step_elim)
      have "pd_store s = m0" if "polled_listings ls = []" using assms(3) that l pd_poll(1) by simp
      from poll_fresh_tick [OF assms(1) d q(2) this q(3,4)] show ?thesis
        unfolding poll_fresh_def pd_poll(1,2) l q(1) by blast
    next
      case False
      with poll_step_keeps [OF pd_poll(3)] pd_poll(5) have
        "pl_phase q = Stopped \<or> pl_seeded q = pl_seeded (pd_poller s) \<and> target_listing q = target_listing (pd_poller s)
         \<and> ((\<exists>es cur. pl_phase q = Sending es cur) \<longrightarrow> (\<exists>es cur. pl_phase (pd_poller s) = Sending es cur))
         \<and> (event_waiting (pd_poller s) \<longrightarrow> event_waiting q)" by blast
      moreover have "polled_listings (ls @ [l]) = polled_listings ls"
        using False pd_poll(1) by (auto split: poll_label.split option.split)
      moreover have "pl_phase q = Stopped \<Longrightarrow> ?thesis" using pd_poll(2) by (simp add: poll_fresh_def)
      moreover have "event_waiting (pd_poller s) \<longrightarrow> event_waiting q \<Longrightarrow>
          caught_up (before b ?ms) (event_waiting q) ?ov (pd_pc s)"
        using caught_up_mono [OF b(5)] by blast
      moreover have "s' = s\<lparr>pd_poller := q, pd_pc := pd_pc s\<rparr>" using pd_poll(2) by simp
      ultimately show ?thesis
        using keep [OF poll_fresh_at_keep [OF assms(1), where q = q and pc = "pd_pc s"]] pd_poll(1) by auto
    qed
  next
    case (pd_event e q)
    have "pl_phase q = Stopped \<Longrightarrow> ?thesis" using pd_event(2) by (simp add: poll_fresh_def)
    with poll_step_keeps [OF pd_event(4)] show ?thesis
      using keep [OF poll_fresh_at_keep [OF assms(1), where q = q and pc = "PList (OnEvent e)"]] pd_event(1,2)
      by (auto simp: caught_up_taken)
  next
    case (pd_loop m p pc)
    have "caught_up (before b ?ms) (event_waiting (pd_poller s)) (moved_to m ?ov) pc"
      by (rule caught_up_move [OF b(5) pd_loop(3)])
        (use before_last [OF d b(2)] b(1) assms(4) pd_loop(1) in auto)
    moreover have "moved_to m ?ov \<in> set ?ms \<and> (\<forall>r ov'. pc = PInstall r ov' \<longrightarrow> ov' \<in> set ?ms)"
      using pd_loop(3)
      by cases (use at b(3,4) in \<open>auto simp: moved_to_def after_install_def split: loop_reason.splits if_splits\<close>)
    ultimately show ?thesis using at pd_loop(1,2)
      by (intro keep) (auto simp: poll_fresh_at_def Let_def)
  next
    case pd_done
    with at show ?thesis by (intro keep) (auto simp: poll_fresh_at_def Let_def caught_up_def)
  next
    case pd_closed
    with at show ?thesis by (intro keep) (auto simp: poll_fresh_at_def Let_def caught_up_def)
  qed
qed

lemma polled_run_prefix:
  assumes "distinct (contents m0 (ls @ [l]))" "polled_listings (ls @ [l]) = [] \<or> hd (polled_listings (ls @ [l])) = m0"
  shows "distinct (contents m0 ls)" "polled_listings ls = [] \<or> hd (polled_listings ls) = m0"
  using assms by (auto simp: hd_append split: if_splits)

lemma poll_fresh_run:
  assumes "polled_run t h base opts interval m0 ls s" "distinct (contents m0 ls)"
    and "polled_listings ls = [] \<or> hd (polled_listings ls) = m0"
    and "\<forall>err. Moved (RefreshFailed err) \<notin> set ls"
  shows "poll_fresh m0 ls s"
  using assms
proof induction
  case (pdr_start now p lg q)
  then have "poll_fresh_at m0 [] \<lparr>pd_store = m0, pd_poller = q, pd_prov = p, pd_pc = PSelect\<rparr> 0"
    by (auto simp: poll_fresh_at_def Let_def poll_watch_def caught_up_def before_def split: if_splits)
  then show ?case by (auto simp: poll_fresh_def)
next
  case (pdr_step ls s l s')
  from pdr_step.IH [OF polled_run_prefix [OF pdr_step.prems(1,2)]] pdr_step.prems(3)
  have "pl_phase (pd_poller s) = Stopped \<or> (\<exists>b. poll_fresh_at m0 ls s b)" by (simp add: poll_fresh_def)
  then show ?case
  proof
    assume "pl_phase (pd_poller s) = Stopped"
    with pdr_step.hyps(2) have "pl_phase (pd_poller s') = Stopped" by cases (auto elim: poll_step_elim)
    then show ?thesis by (simp add: poll_fresh_def)
  next
    assume "\<exists>b. poll_fresh_at m0 ls s b"
    then obtain b where "poll_fresh_at m0 ls s b" ..
    from poll_fresh_step [OF this pdr_step.prems(1,2) _ pdr_step.hyps(2)] pdr_step.prems(3) show ?thesis by auto
  qed
qed

lemma baseline_run:
  assumes "polled_run t h base opts interval m0 ls s"
  shows "pl_phase (pd_poller s) = Stopped \<or>
     (pl_seeded (pd_poller s) \<longleftrightarrow> polled_listings ls \<noteq> [])
     \<and> (pl_phase (pd_poller s) \<noteq> Waiting \<longrightarrow> pl_seeded (pd_poller s))
     \<and> (pl_seeded (pd_poller s) \<longrightarrow> target_listing (pd_poller s) = last (polled_listings ls))"
  using assms
proof induction
  case (pdr_start now p lg q)
  then show ?case by (auto simp: poll_watch_def split: if_splits)
next
  case (pdr_step ls s l s')
  from pdr_step.hyps(2) pdr_step.IH show ?case
  proof cases
    case (pd_poll l' q)
    from pd_poll(3) pdr_step.IH pd_poll(1,2) show ?thesis
      by cases (auto simp: poll_tick_def target_listing_def poll_stop_def split: option.splits poll_phase.splits)
  next
    case (pd_event e q)
    from pd_event(4) pdr_step.IH pd_event(1,2) show ?thesis
      by cases (auto simp: target_listing_def split: poll_phase.splits)
  qed auto
qed

subsection \<open>Properties\<close>

definition polled_quiet :: "polled \<Rightarrow> bool" where
  "polled_quiet s \<longleftrightarrow> pl_phase (pd_poller s) = poll_phase.Waiting \<and> buf (pl_chan (pd_poller s)) = []
     \<and> pd_pc s = PSelect"

text \<open>C28: Freshness on a polled store, for a config whose managed fields are reached
  without pointers and whose managed slices are exactly \<^verbatim>\<open>[]string\<close> (\<open>flat_config\<close>; behind a
  non-nil pointer an override outlives its deletion).
  If the watcher's first listing still finds the contents the
  provider was built with, contents never return and no refresh fails, then whenever the
  watcher has listed the current contents, its events are used up and the loop waits, \<open>Get\<close>
  returns the base with exactly the overrides the store holds, however writes, polls that
  fail, ticks, refresh requests and blocked sends interleave.\<close>

theorem polling_converges:
  assumes "build_catalog (Some t) = Inr cat" "flat_config t cat"
    and "polled_run t h base opts interval m0 ls s" "distinct (contents m0 ls)"
    and "polled_listings ls \<noteq> []" "hd (polled_listings ls) = m0" "\<forall>err. Moved (RefreshFailed err) \<notin> set ls"
    and "polled_quiet s" "last (polled_listings ls) = pd_store s"
  shows "provider_get (pd_prov s) = Inr (apply_pure (pd_store s) cat base)"
proof -
  let ?ms = "contents m0 ls" and ?ov = "installed m0 (polled_moves ls)"
  have w: "pl_phase (pd_poller s) = poll_phase.Waiting" "pd_pc s = PSelect" "\<not> event_waiting (pd_poller s)"
    using assms(8) by (auto simp: polled_quiet_def event_waiting_def pending_events_def)
  have "poll_fresh m0 ls s" using poll_fresh_run [OF assms(3,4)] assms(6,7) by blast
  with w(1) obtain b where "poll_fresh_at m0 ls s b" by (auto simp: poll_fresh_def)
  then have b: "pd_store s = last ?ms" "b < length ?ms" "pl_seeded (pd_poller s) = (polled_listings ls \<noteq> [])"
    "if pl_seeded (pd_poller s) then target_listing (pd_poller s) = ?ms ! b else b = 0" "?ov \<in> set ?ms"
    "\<not> before b ?ms ?ov"
    using w by (simp_all add: poll_fresh_at_def Let_def caught_up_idle)
  have "?ms ! b = ?ms ! (length ?ms - 1)"
    using b(1,3,4) assms(5,9) baseline_run [OF assms(3)] w(1) by (simp add: last_conv_nth)
  then have "b = length ?ms - 1" using assms(4) b(2) by (simp add: nth_eq_iff_index_eq)
  with b(6) have "?ov \<notin> set (butlast ?ms)" by (simp add: before_def butlast_conv_take)
  with b(5) have "?ov = last ?ms" by (cases ?ms rule: rev_cases) auto
  with polled_snapshot_run [OF assms(3,1,2)] b(1) show ?thesis by (simp add: snapshot_is_def)
qed

text \<open>Concrete runs: the watcher's states and the steps they are made of.\<close>

definition fresh_poller :: poller where
  "fresh_poller = \<lparr>pl_prev = Map.empty, pl_seeded = False, pl_phase = poll_phase.Waiting,
     pl_chan = make_chan 64, pl_done = False\<rparr>"

lemma fresh_poller_watch: "0 < interval \<Longrightarrow> poll_watch (new_polling_watcher interval lg) = Some fresh_poller"
  by (simp add: poll_watch_def fresh_poller_def)

lemma polled_start_ex:
  assumes "build_catalog (Some t) = Inr cat" "flat_config t cat" "0 < interval"
  shows "\<exists>p. polled_run t h base opts interval m0 [] \<lparr>pd_store = m0, pd_poller = fresh_poller, pd_prov = p, pd_pc = PSelect\<rparr>
     \<and> prov_flat p \<and> p_desc_by_key p = desc_by_key cat"
proof -
  have "prov_flat (init_provider t h base cat (provider_config opts))"
    using assms(1,2) by (simp add: prov_flat_def init_provider_same)
  then obtain p where "new_provider (Some t) h base opts 1 (Inr m0) None = Inr (Inr p)" "prov_flat p"
    "p_desc_by_key p = desc_by_key cat"
    using assms(1) by (simp add: new_provider_def Let_def refresh_flat prov_flat_def init_provider_same)
  with pdr_start [OF _ fresh_poller_watch [OF assms(3)]] show ?thesis by blast
qed

lemma seed_step:
  "range_order ks m \<Longrightarrow> poll_step namespace fresh_poller (Listed (Some m)) (fresh_poller\<lparr>pl_prev := m, pl_seeded := True\<rparr>)"
  using ps_tick [of fresh_poller "Some m" ks "[]" namespace 0]
  by (simp add: poll_tick_def fresh_poller_def range_order_def)

lemma polled_pollI:
  assumes "poll_step namespace q l q'" "\<And>m. l = Listed (Some m) \<Longrightarrow> m = store" "\<And>e. l \<noteq> Received e"
  shows "polled_step namespace \<lparr>pd_store = store, pd_poller = q, pd_prov = p, pd_pc = pc\<rparr> (Polled l)
     \<lparr>pd_store = store, pd_poller = q', pd_prov = p, pd_pc = pc\<rparr>"
  using pd_poll [where s = "\<lparr>pd_store = store, pd_poller = q, pd_prov = p, pd_pc = pc\<rparr>"] assms by simp

lemma polled_moveI:
  assumes "loop_move store p pc m p' pc'"
  shows "polled_step namespace \<lparr>pd_store = store, pd_poller = q, pd_prov = p, pd_pc = pc\<rparr> (Moved m)
     \<lparr>pd_store = store, pd_poller = q, pd_prov = p', pd_pc = pc'\<rparr>"
  using pd_loop [where s = "\<lparr>pd_store = store, pd_poller = q, pd_prov = p, pd_pc = pc\<rparr>"] assms by simp

lemma range_order_ex: "finite (dom m) \<Longrightarrow> \<exists>ks. range_order ks m"
  using finite_distinct_list [of "dom m"] by (auto simp: range_order_def)

text \<open>The baseline is taken late: whatever the store is changed to between \<open>New\<close>'s listing and
  the watcher's first tick, there is a run in which that tick absorbs the change into its
  baseline, so that with everything used up and the current contents polled the provider
  still serves the old ones; so the hypothesis on the first listing in
  \<open>polling_converges\<close> cannot be dropped.\<close>

theorem polling_seed_absorbs_change:
  assumes "build_catalog (Some t) = Inr cat" "flat_config t cat" "0 < interval" "finite (dom m)"
  shows "\<exists>s. polled_run t h base opts interval m0 [Written m, Polled (Listed (Some m))] s
     \<and> polled_quiet s \<and> pd_store s = m \<and> provider_get (pd_prov s) = Inr (apply_pure m0 cat base)"
proof -
  obtain p where p: "polled_run t h base opts interval m0 [] \<lparr>pd_store = m0, pd_poller = fresh_poller, pd_prov = p, pd_pc = PSelect\<rparr>"
    using polled_start_ex [OF assms(1-3)] by blast
  obtain ks where "range_order ks m" using range_order_ex [OF assms(4)] by blast
  then have poll: "polled_step ns \<lparr>pd_store = m, pd_poller = fresh_poller, pd_prov = p, pd_pc = PSelect\<rparr> (Polled (Listed (Some m)))
      \<lparr>pd_store = m, pd_poller = fresh_poller\<lparr>pl_prev := m, pl_seeded := True\<rparr>, pd_prov = p, pd_pc = PSelect\<rparr>" for ns
    by (intro polled_pollI [OF seed_step]) simp_all
  have "polled_run t h base opts interval m0 (([] @ [Written m]) @ [Polled (Listed (Some m))])
      \<lparr>pd_store = m, pd_poller = fresh_poller\<lparr>pl_prev := m, pl_seeded := True\<rparr>, pd_prov = p, pd_pc = PSelect\<rparr>"
    using pdr_step [OF p pd_write, of m] by (intro pdr_step [OF _ poll]) simp
  with polled_snapshot_run [OF this assms(1,2)] show ?thesis
    by (auto simp: polled_quiet_def snapshot_is_def fresh_poller_def make_chan_def polled_moves_def moved_to_def installed_def contents_def)
qed

theorem polling_seed_absorbs_change_witness:
  "\<exists>s. polled_run sample_type [] sample_base [] 1 Map.empty [Written [''cron'' \<mapsto> ''@daily''], Polled (Listed (Some [''cron'' \<mapsto> ''@daily'']))] s
     \<and> polled_quiet s \<and> pd_store s ''cron'' = Some ''@daily''
     \<and> provider_get (pd_prov s) = Inr (apply_pure Map.empty sample_catalog sample_base)"
  using polling_seed_absorbs_change [OF sample_build sample_flat, of 1 "[''cron'' \<mapsto> ''@daily'']" "[]" sample_base "[]" Map.empty]
  by fastforce

text \<open>C29: A reverted change can leave the snapshot behind, for every config whose managed fields are
  reached without pointers and whose managed slices are exactly \<^verbatim>\<open>[]string\<close> (\<open>flat_config\<close>): if the loop lists the contents \<open>c\<close> (for
  whatever reason it refreshes) and the change is taken back before the watcher's next tick,
  the watcher sees the same listing again and sends nothing, and the provider goes on serving
  \<open>c\<close>, which the store no longer holds; so contents that return have to be excluded in
  \<open>polling_converges\<close>.\<close>

theorem polling_misses_revert:
  assumes "build_catalog (Some t) = Inr cat" "flat_config t cat" "0 < interval" "finite (dom m0)"
  shows "\<exists>s. polled_run t h base opts interval m0 [Polled (Listed (Some m0)), Moved Called, Written c, Moved Called, Moved (Installed c),
            Written m0, Polled (Listed (Some m0)), Polled Internal] s
     \<and> polled_quiet s \<and> pd_store s = m0 \<and> provider_get (pd_prov s) = Inr (apply_pure c cat base)"
proof -
  let ?st = "\<lambda>st q p pc. \<lparr>pd_store = st, pd_poller = q, pd_prov = p, pd_pc = pc\<rparr>"
  let ?q = "fresh_poller\<lparr>pl_prev := m0, pl_seeded := True\<rparr>"
  let ?q2 = "?q\<lparr>pl_phase := Sending [] m0\<rparr>"
  let ?run = "polled_run t h base opts interval m0"
  obtain p where p: "?run [] (?st m0 fresh_poller p PSelect)" "prov_flat p"
    using polled_start_ex [OF assms(1-3)] by blast
  obtain p' where p': "refresh 2 (Inr c) p = Inr (p', None)" using refresh_flat [OF p(2)] by blast
  obtain ks where ks: "range_order ks m0" using range_order_ex [OF assms(4)] by blast
  have "poll_events ns 3 m0 m0 ks ks = []" for ns
    using poll_events_shape(2) [OF ks ks, of ns 3] by simp
  then have tick: "poll_step ns ?q (Listed (Some m0)) ?q2" for ns
    using ps_tick [of ?q "Some m0" ks ks ns 3] ks by (simp add: poll_tick_def fresh_poller_def)
  have sent: "poll_step ns ?q2 Internal ?q" for ns
    using ps_sent [of ?q2 m0 ns] by (simp add: fresh_poller_def)
  have 1: "?run ([] @ [Polled (Listed (Some m0))]) (?st m0 ?q p PSelect)"
    by (intro pdr_step [OF p(1)] polled_pollI [OF seed_step [OF ks]]) simp_all
  have 2: "?run (([] @ [Polled (Listed (Some m0))]) @ [Moved Called]) (?st m0 ?q p (PList OnTick))"
    using polled_moveI [OF lm_tick] by (intro pdr_step [OF 1]) simp
  have 3: "?run ((([] @ [Polled (Listed (Some m0))]) @ [Moved Called]) @ [Written c]) (?st c ?q p (PList OnTick))"
    using pdr_step [OF 2 pd_write, of c] by simp
  have 4: "?run (((([] @ [Polled (Listed (Some m0))]) @ [Moved Called]) @ [Written c]) @ [Moved Called]) (?st c ?q p (PInstall OnTick c))"
    using polled_moveI [OF lm_list] by (intro pdr_step [OF 3]) simp
  have 5: "?run ((((([] @ [Polled (Listed (Some m0))]) @ [Moved Called]) @ [Written c]) @ [Moved Called]) @ [Moved (Installed c)]) (?st c ?q p' PSelect)"
    using polled_moveI [OF lm_install [OF p', of _ OnTick]] by (intro pdr_step [OF 4]) (simp add: after_install_def)
  have 6: "?run ([Polled (Listed (Some m0)), Moved Called, Written c, Moved Called, Moved (Installed c)] @ [Written m0]) (?st m0 ?q p' PSelect)"
    using pdr_step [OF 5 pd_write, of m0] by simp
  have 7: "?run (([Polled (Listed (Some m0)), Moved Called, Written c, Moved Called, Moved (Installed c)] @ [Written m0]) @ [Polled (Listed (Some m0))])
      (?st m0 ?q2 p' PSelect)"
    by (intro pdr_step [OF 6] polled_pollI [OF tick]) simp_all
  have 8: "?run [Polled (Listed (Some m0)), Moved Called, Written c, Moved Called, Moved (Installed c), Written m0, Polled (Listed (Some m0)), Polled Internal]
      (?st m0 ?q p' PSelect)"
    using pdr_step [OF 7 polled_pollI [OF sent]] by simp
  with polled_snapshot_run [OF this assms(1,2)] show ?thesis
    by (auto simp: polled_quiet_def snapshot_is_def fresh_poller_def make_chan_def polled_moves_def moved_to_def installed_def contents_def)
qed

theorem polling_misses_revert_witness:
  "\<exists>s ls. polled_run sample_type [] sample_base [] 1 Map.empty ls s
     \<and> polled_quiet s \<and> pd_store s = Map.empty
     \<and> provider_get (pd_prov s) = Inr (apply_pure [''cron'' \<mapsto> ''@daily''] sample_catalog sample_base)"
  using polling_misses_revert [OF sample_build sample_flat, of 1 Map.empty "[]" sample_base "[]" "[''cron'' \<mapsto> ''@daily'']"]
  by auto

text \<open>An update that is noticed: seeded with no overrides, one written, listed, sent and applied.\<close>

definition sample_override :: "string \<rightharpoonup> string" where
  "sample_override = [''timeout'' \<mapsto> ''3s'']"

definition noticed_labels :: "change_event \<Rightarrow> polled_label list" where
  "noticed_labels e = [Polled (Listed (Some Map.empty)), Written sample_override, Polled (Listed (Some sample_override)),
     Polled Internal, Polled Internal, Took e, Moved Called, Moved (Installed sample_override)]"

lemma noticed_run:
  "\<exists>e s. polled_run sample_type [] sample_base [] 1 Map.empty (noticed_labels e) s \<and> polled_quiet s \<and> pd_store s = sample_override"
proof -
  let ?st = "\<lambda>st q p pc. \<lparr>pd_store = st, pd_poller = q, pd_prov = p, pd_pc = pc\<rparr>"
  let ?m = sample_override
  let ?run = "polled_run sample_type [] sample_base [] 1 Map.empty"
  obtain p where p: "?run [] (?st Map.empty fresh_poller p PSelect)" "prov_flat p" "p_desc_by_key p = desc_by_key sample_catalog"
    using polled_start_ex [OF sample_build sample_flat, of 1 "[]" sample_base "[]" Map.empty] by auto
  obtain p' where p': "refresh 2 (Inr ?m) p = Inr (p', None)" using refresh_flat [OF p(2)] by blast
  define ns where "ns = p_ns p"
  let ?e = "poll_event ns ''timeout'' [] ''3s'' 3"
  let ?q1 = "fresh_poller\<lparr>pl_seeded := True\<rparr>"
  let ?q2 = "?q1\<lparr>pl_phase := Sending [?e] ?m\<rparr>"
  let ?q3 = "?q1\<lparr>pl_phase := Sending [] ?m, pl_chan := (make_chan 64)\<lparr>buf := [?e]\<rparr>\<rparr>"
  let ?q4 = "?q1\<lparr>pl_prev := ?m, pl_chan := (make_chan 64)\<lparr>buf := [?e]\<rparr>\<rparr>"
  let ?q5 = "?q1\<lparr>pl_prev := ?m\<rparr>"
  have "desc_by_key sample_catalog ''timeout'' = Some sample_timeout" by code_simp
  then have "\<not> is_recreate p' ''timeout''"
    using refresh_same [OF p'] p(3) by (simp add: is_recreate_def sample_timeout_def)
  then have pc: "PSelect = after_install (OnEvent ?e) p'" by (simp add: after_install_def poll_event_def)
  have a: "poll_step ns fresh_poller (Listed (Some Map.empty)) ?q1"
    using seed_step [of "[]" Map.empty ns] by (simp add: range_order_def fresh_poller_def)
  have b: "poll_step ns ?q1 (Listed (Some ?m)) ?q2"
    using ps_tick [of ?q1 "Some ?m" "[''timeout'']" "[]" ns 3]
    by (simp add: poll_tick_def range_order_def poll_events_def fresh_poller_def sample_override_def)
  have c: "poll_step ns ?q2 Internal ?q3"
    using ps_send [of ?q2 ?e "[]" ?m ns] by (simp add: has_room_def make_chan_def fresh_poller_def)
  have d: "poll_step ns ?q3 Internal ?q4"
    using ps_sent [of ?q3 ?m ns] by (simp add: fresh_poller_def)
  have e: "poll_step ns ?q4 (Received ?e) ?q5"
    using ps_recv [of ?q4 ?e "[]" ns] by (simp add: fresh_poller_def make_chan_def)
  have 1: "?run ([] @ [Polled (Listed (Some Map.empty))]) (?st Map.empty ?q1 p PSelect)"
    using polled_pollI [OF a] by (intro pdr_step [OF p(1)]) (simp add: ns_def)
  have 2: "?run [Polled (Listed (Some Map.empty)), Written ?m] (?st ?m ?q1 p PSelect)"
    using pdr_step [OF 1 pd_write, of ?m] by simp
  have 3: "?run ([Polled (Listed (Some Map.empty)), Written ?m] @ [Polled (Listed (Some ?m))]) (?st ?m ?q2 p PSelect)"
    using polled_pollI [OF b] by (intro pdr_step [OF 2]) (simp add: ns_def)
  have 4: "?run (([Polled (Listed (Some Map.empty)), Written ?m] @ [Polled (Listed (Some ?m))]) @ [Polled Internal]) (?st ?m ?q3 p PSelect)"
    using polled_pollI [OF c] by (intro pdr_step [OF 3]) (simp add: ns_def)
  have 5: "?run ((([Polled (Listed (Some Map.empty)), Written ?m] @ [Polled (Listed (Some ?m))]) @ [Polled Internal]) @ [Polled Internal]) (?st ?m ?q4 p PSelect)"
    using polled_pollI [OF d] by (intro pdr_step [OF 4]) (simp add: ns_def)
  have "polled_step ns (?st ?m ?q4 p PSelect) (Took ?e) (?st ?m ?q5 p (PList (OnEvent ?e)))"
    using pd_event [where s = "?st ?m ?q4 p PSelect"] e by simp
  from pdr_step [OF 5, of "Took ?e"] this
  have 6: "?run ([Polled (Listed (Some Map.empty)), Written ?m, Polled (Listed (Some ?m)), Polled Internal, Polled Internal, Took ?e])
      (?st ?m ?q5 p (PList (OnEvent ?e)))" by (simp add: ns_def)
  have 7: "?run ([Polled (Listed (Some Map.empty)), Written ?m, Polled (Listed (Some ?m)), Polled Internal, Polled Internal, Took ?e] @ [Moved Called])
      (?st ?m ?q5 p (PInstall (OnEvent ?e) ?m))"
    using polled_moveI [OF lm_list] by (intro pdr_step [OF 6]) simp
  from pdr_step [OF this, of "Moved (Installed ?m)"] polled_moveI [OF lm_install [OF p', of _ "OnEvent ?e"], folded pc]
  have "?run (noticed_labels ?e) (?st ?m ?q5 p' PSelect)" by (simp add: noticed_labels_def)
  then show ?thesis by (intro exI conjI) (auto simp: polled_quiet_def fresh_poller_def make_chan_def)
qed

theorem polling_converges_witness:
  "\<exists>e s. polled_run sample_type [] sample_base [] 1 Map.empty (noticed_labels e) s \<and> polled_quiet s
     \<and> provider_get (pd_prov s) = Inr (apply_pure [''timeout'' \<mapsto> ''3s''] sample_catalog sample_base)"
proof -
  obtain e s where s: "polled_run sample_type [] sample_base [] 1 Map.empty (noticed_labels e) s" "polled_quiet s"
    "pd_store s = sample_override" using noticed_run by blast
  have "distinct (contents Map.empty (noticed_labels e))" "polled_listings (noticed_labels e) = [Map.empty, sample_override]"
    "\<forall>err. Moved (RefreshFailed err) \<notin> set (noticed_labels e)"
    by (auto simp: contents_def noticed_labels_def sample_override_def polled_listings_def fun_eq_iff)
  with polling_converges [OF sample_build sample_flat s(1) _ _ _ _ s(2)] s show ?thesis
    by (auto simp: sample_override_def)
qed

end
