(* ===== verification/Errors.thy ===== *)
theory Errors
  imports Provider
begin

text \<open>
  The sentinel errors (\<^verbatim>\<open>errors.go\<close>) and which of them the library's own errors wrap.
\<close>

datatype sentinel =
    ErrBootstrapField
  | ErrSecretField
  | ErrUnknownKey
  | ErrInvalidValue
  | ErrProviderClosed
  | ErrNotStruct

fun sentinel_text :: "sentinel \<Rightarrow> string" where
  "sentinel_text ErrBootstrapField = ''liveconfig: field is bootstrap and cannot be overridden at runtime''"
| "sentinel_text ErrSecretField = ''liveconfig: field is secret and cannot be stored''"
| "sentinel_text ErrUnknownKey = ''liveconfig: unknown config key''"
| "sentinel_text ErrInvalidValue = ''liveconfig: invalid value for field type''"
| "sentinel_text ErrProviderClosed = ''liveconfig: provider is closed''"
| "sentinel_text ErrNotStruct = ''liveconfig: config type must be a struct''"

text \<open>What \<^verbatim>\<open>errors.Is\<close> finds in an error of catalog construction, of parsing, of \<open>New\<close>.\<close>

fun catalog_sentinel :: "catalog_error \<Rightarrow> sentinel option" where
  "catalog_sentinel NotStructNil = Some ErrNotStruct"
| "catalog_sentinel (NotStructPointer t) = Some ErrNotStruct"
| "catalog_sentinel (NotStructKind t) = Some ErrNotStruct"
| "catalog_sentinel (UnknownDyn k raw) = None"
| "catalog_sentinel (UnsupportedLeaf k raw t) = None"

definition parse_sentinel :: "parse_error \<Rightarrow> sentinel" where
  "parse_sentinel e = ErrInvalidValue"

fun provider_sentinel :: "provider_error \<Rightarrow> sentinel option" where
  "provider_sentinel (BuildCatalogFailed e) = catalog_sentinel e"
| "provider_sentinel (InitialRefreshFailed e) = None"
| "provider_sentinel (WatchFailed e) = None"

text \<open>Only the struct check's sentinel ever reaches a caller of \<open>New\<close>.\<close>

lemma provider_sentinel_range: "provider_sentinel e = None \<or> provider_sentinel e = Some ErrNotStruct"
proof (cases e)
  case (BuildCatalogFailed c)
  then show ?thesis by (cases c) simp_all
qed simp_all

lemma sentinel_text_inj: "inj sentinel_text"
proof
  show "sentinel_text x = sentinel_text y \<Longrightarrow> x = y" for x y by (cases x; cases y) simp_all
qed

end
