(* ===== verification/Pg_Config.thy ===== *)
theory Pg_Config
  imports Options Go_Strings Store_Api
begin

text \<open>
  The Postgres store's configuration (\<^verbatim>\<open>pgstore/store.go\<close>, \<^verbatim>\<open>pgstore/migrations.go\<close>): its
  options, the identifier check, \<open>New\<close> with its panic, and the schema text, a template
  the checked names are substituted into.
\<close>

subsection \<open>Identifiers\<close>

text \<open>\<open>identRe\<close> is \<^verbatim>\<open>^[a-zA-Z_][a-zA-Z0-9_]*$\<close>; without the multi-line flag \<^verbatim>\<open>$\<close> matches only
  at the end of the text.\<close>

definition ident_start :: "char \<Rightarrow> bool" where
  "ident_start c \<longleftrightarrow> (97 \<le> bcode c \<and> bcode c \<le> 122) \<or> (65 \<le> bcode c \<and> bcode c \<le> 90) \<or> c = CHR ''_''"

definition ident_char :: "char \<Rightarrow> bool" where
  "ident_char c \<longleftrightarrow> ident_start c \<or> (48 \<le> bcode c \<and> bcode c \<le> 57)"

definition ident_matches :: "string \<Rightarrow> bool" where
  "ident_matches s = (case s of [] \<Rightarrow> False | c # r \<Rightarrow> ident_start c \<and> list_all ident_char r)"

text \<open>The panic carries the kind of name and the name.\<close>

datatype pg_panic = InvalidIdent string string

definition validate_ident :: "string \<Rightarrow> string \<Rightarrow> pg_panic + unit" where
  "validate_ident kind name = (if \<not> ident_matches name then Inl (InvalidIdent kind name) else Inr ())"

subsection \<open>Construction\<close>

definition default_table :: string where "default_table = ''liveconfig_values''"
definition default_audit_table :: string where "default_audit_table = ''liveconfig_audit''"
definition default_notify_channel :: string where "default_notify_channel = ''liveconfig_changed''"
definition initial_backoff :: int where "initial_backoff = 2 * 1000000000"
definition default_max_backoff :: int where "default_max_backoff = 60 * 1000000000"

text \<open>The connection pool is the caller's and is left out of the record.\<close>

record pg_store =
  pg_table :: string
  pg_audit_table :: string
  pg_notify_channel :: string
  pg_logger :: logger
  pg_max_backoff :: int

text \<open>The payload of a notification, from the trigger or from \<open>Delete\<close>, and the event the listener
  makes of it.\<close>

record notify_payload =
  np_namespace :: string
  np_key :: string
  np_old_value :: string
  np_new_value :: string
  np_changed_by :: string
  np_changed_at :: go_time

definition payload_event :: "notify_payload \<Rightarrow> change_event" where
  "payload_event p = \<lparr>ce_namespace = np_namespace p, ce_key = np_key p, ce_old = np_old_value p,
     ce_new = np_new_value p, ce_by = np_changed_by p, ce_at = np_changed_at p\<rparr>"

lemma payload_event_simps [simp]:
  "ce_namespace (payload_event p) = np_namespace p" "ce_key (payload_event p) = np_key p"
  "ce_old (payload_event p) = np_old_value p" "ce_new (payload_event p) = np_new_value p"
  by (simp_all add: payload_event_def)

type_synonym pg_option = "pg_store \<Rightarrow> pg_store"

definition with_table :: "string \<Rightarrow> pg_option" where "with_table name s = s\<lparr>pg_table := name\<rparr>"
definition with_audit_table :: "string \<Rightarrow> pg_option" where
  "with_audit_table name s = s\<lparr>pg_audit_table := name\<rparr>"
definition with_notify_channel :: "string \<Rightarrow> pg_option" where
  "with_notify_channel name s = s\<lparr>pg_notify_channel := name\<rparr>"
definition with_pg_logger :: "logger \<Rightarrow> pg_option" where "with_pg_logger l s = s\<lparr>pg_logger := l\<rparr>"
definition with_max_backoff :: "int \<Rightarrow> pg_option" where "with_max_backoff d s = s\<lparr>pg_max_backoff := d\<rparr>"

definition pg_new :: "pg_option list \<Rightarrow> pg_panic + pg_store" where
  "pg_new opts =
     (let s0 = \<lparr>pg_table = default_table, pg_audit_table = default_audit_table,
                pg_notify_channel = default_notify_channel, pg_logger = default_logger,
                pg_max_backoff = default_max_backoff\<rparr>;
          s1 = fold (\<lambda>f s. f s) opts s0;
          s2 = (if pg_logger s1 = None then s1\<lparr>pg_logger := default_logger\<rparr> else s1);
          s = (if pg_max_backoff s2 \<le> 0 then s2\<lparr>pg_max_backoff := default_max_backoff\<rparr> else s2)
      in bind_res (validate_ident ''table'' (pg_table s)) (\<lambda>_.
         bind_res (validate_ident ''audit table'' (pg_audit_table s)) (\<lambda>_.
         bind_res (validate_ident ''notify channel'' (pg_notify_channel s)) (\<lambda>_. Inr s))))"

lemma ident_matches_chars: "ident_matches s \<Longrightarrow> list_all ident_char s \<and> s \<noteq> []"
  by (cases s) (auto simp: ident_matches_def ident_char_def)

lemma pg_new_ok:
  "pg_new opts = Inr s \<Longrightarrow> ident_matches (pg_table s) \<and> ident_matches (pg_audit_table s)
     \<and> ident_matches (pg_notify_channel s) \<and> pg_logger s \<noteq> None \<and> 0 < pg_max_backoff s"
  by (auto simp: pg_new_def Let_def bind_res_Inr_iff validate_ident_def default_logger_def
      default_max_backoff_def split: if_splits)

subsection \<open>The schema text\<close>

text \<open>\<^verbatim>\<open>fmt.Sprintf\<close> on a template of literal text and numbered \<^verbatim>\<open>%[n]s\<close> verbs.\<close>

datatype piece = Lit string | Arg nat

fun sprintf :: "string list \<Rightarrow> piece list \<Rightarrow> string" where
  "sprintf args [] = []"
| "sprintf args (Lit t # ps) = t @ sprintf args ps"
| "sprintf args (Arg n # ps) = args ! (n - 1) @ sprintf args ps"

abbreviation NL :: char where "NL \<equiv> CHR 0x0A"
abbreviation TAB :: char where "TAB \<equiv> CHR 0x09"
abbreviation QUOTE :: char where "QUOTE \<equiv> CHR 0x27"

definition ddl_template :: "piece list" where
  "ddl_template =
    [Lit ([NL]),
     Lit ([TAB, TAB] @ ''CREATE TABLE IF NOT EXISTS ''),
     Arg 1,
     Lit ('' ('' @ [NL]),
     Lit ([TAB, TAB, TAB] @ ''id          BIGSERIAL    PRIMARY KEY,'' @ [NL]),
     Lit ([TAB, TAB, TAB] @ ''namespace   TEXT         NOT NULL,'' @ [NL]),
     Lit ([TAB, TAB, TAB] @ ''key         TEXT         NOT NULL,'' @ [NL]),
     Lit ([TAB, TAB, TAB] @ ''value       TEXT         NOT NULL DEFAULT '' @ [QUOTE, QUOTE] @ '','' @ [NL]),
     Lit ([TAB, TAB, TAB] @ ''changed_by  TEXT         NOT NULL DEFAULT '' @ [QUOTE, QUOTE] @ '','' @ [NL]),
     Lit ([TAB, TAB, TAB] @ ''updated_at  TIMESTAMPTZ  NOT NULL DEFAULT NOW(),'' @ [NL]),
     Lit ([TAB, TAB, TAB] @ ''CONSTRAINT  ''),
     Arg 1,
     Lit (''_ns_key_uq UNIQUE (namespace, key)'' @ [NL]),
     Lit ([TAB, TAB] @ '');'' @ [NL]),
     Lit ([NL]),
     Lit ([TAB, TAB] @ ''CREATE TABLE IF NOT EXISTS ''),
     Arg 2,
     Lit ('' ('' @ [NL]),
     Lit ([TAB, TAB, TAB] @ ''id          BIGSERIAL    PRIMARY KEY,'' @ [NL]),
     Lit ([TAB, TAB, TAB] @ ''namespace   TEXT         NOT NULL,'' @ [NL]),
     Lit ([TAB, TAB, TAB] @ ''key         TEXT         NOT NULL,'' @ [NL]),
     Lit ([TAB, TAB, TAB] @ ''old_value   TEXT         NOT NULL DEFAULT '' @ [QUOTE, QUOTE] @ '','' @ [NL]),
     Lit ([TAB, TAB, TAB] @ ''new_value   TEXT         NOT NULL DEFAULT '' @ [QUOTE, QUOTE] @ '','' @ [NL]),
     Lit ([TAB, TAB, TAB] @ ''changed_by  TEXT         NOT NULL DEFAULT '' @ [QUOTE, QUOTE] @ '','' @ [NL]),
     Lit ([TAB, TAB, TAB] @ ''changed_at  TIMESTAMPTZ  NOT NULL DEFAULT NOW()'' @ [NL]),
     Lit ([TAB, TAB] @ '');'' @ [NL]),
     Lit ([NL]),
     Lit ([TAB, TAB] @ ''CREATE INDEX IF NOT EXISTS ''),
     Arg 2,
     Lit (''_ns_key_idx'' @ [NL]),
     Lit ([TAB, TAB, TAB] @ ''ON ''),
     Arg 2,
     Lit ('' (namespace, key, id DESC);'' @ [NL]),
     Lit ([NL]),
     Lit ([TAB, TAB] @ ''CREATE OR REPLACE FUNCTION liveconfig_notify_fn_''),
     Arg 1,
     Lit (''()'' @ [NL]),
     Lit ([TAB, TAB] @ ''RETURNS trigger AS $$'' @ [NL]),
     Lit ([TAB, TAB] @ ''BEGIN'' @ [NL]),
     Lit ([TAB, TAB, TAB] @ ''PERFORM pg_notify('' @ [QUOTE]),
     Arg 3,
     Lit ([QUOTE] @ '', json_build_object('' @ [NL]),
     Lit ([TAB, TAB, TAB, TAB, QUOTE] @ ''namespace'' @ [QUOTE] @ '',  NEW.namespace,'' @ [NL]),
     Lit ([TAB, TAB, TAB, TAB, QUOTE] @ ''key'' @ [QUOTE] @ '',        NEW.key,'' @ [NL]),
     Lit ([TAB, TAB, TAB, TAB, QUOTE] @ ''old_value'' @ [QUOTE] @ '',  COALESCE(OLD.value, '' @ [QUOTE, QUOTE] @ ''),'' @ [NL]),
     Lit ([TAB, TAB, TAB, TAB, QUOTE] @ ''new_value'' @ [QUOTE] @ '',  NEW.value,'' @ [NL]),
     Lit ([TAB, TAB, TAB, TAB, QUOTE] @ ''changed_by'' @ [QUOTE] @ '', NEW.changed_by,'' @ [NL]),
     Lit ([TAB, TAB, TAB, TAB, QUOTE] @ ''changed_at'' @ [QUOTE] @ '', NOW()'' @ [NL]),
     Lit ([TAB, TAB, TAB] @ '')::text);'' @ [NL]),
     Lit ([TAB, TAB, TAB] @ ''RETURN NEW;'' @ [NL]),
     Lit ([TAB, TAB] @ ''END;'' @ [NL]),
     Lit ([TAB, TAB] @ ''$$ LANGUAGE plpgsql;'' @ [NL]),
     Lit ([NL]),
     Lit ([TAB, TAB] @ ''DROP TRIGGER IF EXISTS liveconfig_notify_trg_''),
     Arg 1,
     Lit ('' ON ''),
     Arg 1,
     Lit ('';'' @ [NL]),
     Lit ([TAB, TAB] @ ''CREATE TRIGGER liveconfig_notify_trg_''),
     Arg 1,
     Lit ([NL]),
     Lit ([TAB, TAB, TAB] @ ''AFTER INSERT OR UPDATE ON ''),
     Arg 1,
     Lit ([NL]),
     Lit ([TAB, TAB, TAB] @ ''FOR EACH ROW EXECUTE FUNCTION liveconfig_notify_fn_''),
     Arg 1,
     Lit (''();'' @ [NL]),
     Lit ([TAB])]"

definition build_ddl :: "string \<Rightarrow> string \<Rightarrow> string \<Rightarrow> string" where
  "build_ddl values_table audit_table channel = sprintf [values_table, audit_table, channel] ddl_template"

text \<open>Names made of identifier characters contribute nothing else to the text.\<close>

lemma sprintf_filter:
  assumes "list_all (list_all ident_char) args" "list_all (\<lambda>p. case p of Arg n \<Rightarrow> 0 < n \<and> n \<le> length args | Lit t \<Rightarrow> True) ps"
  shows "filter (\<lambda>c. \<not> ident_char c) (sprintf args ps) =
     filter (\<lambda>c. \<not> ident_char c) (concat (map (\<lambda>p. case p of Lit t \<Rightarrow> t | Arg n \<Rightarrow> []) ps))"
  using assms
proof (induction args ps rule: sprintf.induct)
  case (3 args n ps)
  then have "n - 1 < length args" by auto
  then have "list_all ident_char (args ! (n - 1))"
    using "3.prems"(1) by (simp add: list_all_length)
  then have "filter (\<lambda>c. \<not> ident_char c) (args ! (n - 1)) = []"
    by (simp add: filter_empty_conv list_all_iff)
  with 3 show ?case by simp
qed auto

subsection \<open>Properties\<close>

text \<open>\<open>New\<close> of the Postgres store either panics or gives a store whose table, audit table and
  channel names are identifiers (letters, digits and underscores, not starting with a
  digit), with a logger and a positive maximal backoff; it panics exactly when one of the
  three names, as left by the options, is no identifier.\<close>

theorem pg_new_checks_names:
  "(is_ok (pg_new opts)) = list_all ident_matches
       (let s = fold (\<lambda>f s. f s) opts \<lparr>pg_table = default_table, pg_audit_table = default_audit_table,
          pg_notify_channel = default_notify_channel, pg_logger = default_logger,
          pg_max_backoff = default_max_backoff\<rparr>
        in [pg_table s, pg_audit_table s, pg_notify_channel s])
   \<and> (case pg_new opts of Inl p \<Rightarrow> True
      | Inr s \<Rightarrow> ident_matches (pg_table s) \<and> ident_matches (pg_audit_table s)
          \<and> ident_matches (pg_notify_channel s) \<and> pg_logger s \<noteq> None \<and> 0 < pg_max_backoff s)"
proof
  show "(is_ok (pg_new opts)) = list_all ident_matches
       (let s = fold (\<lambda>f s. f s) opts \<lparr>pg_table = default_table, pg_audit_table = default_audit_table,
          pg_notify_channel = default_notify_channel, pg_logger = default_logger,
          pg_max_backoff = default_max_backoff\<rparr>
        in [pg_table s, pg_audit_table s, pg_notify_channel s])"
    by (simp add: pg_new_def Let_def validate_ident_def is_ok_def)
qed (use pg_new_ok in \<open>auto split: sum.split\<close>)

text \<open>C39: The names substituted into the schema cannot change its structure: for names that pass
  the check, the characters of the schema text other than letters, digits and underscores
  (quotes, semicolons, parentheses, white space) are those of the template, whatever the
  names are.\<close>

theorem ddl_structure_fixed:
  assumes "ident_matches v" "ident_matches a" "ident_matches c"
  shows "filter (\<lambda>ch. \<not> ident_char ch) (build_ddl v a c) =
     filter (\<lambda>ch. \<not> ident_char ch) (build_ddl default_table default_audit_table default_notify_channel)"
proof -
  have "ident_matches default_table" "ident_matches default_audit_table" "ident_matches default_notify_channel"
    by code_simp+
  moreover have t: "list_all (\<lambda>p. case p of Arg n \<Rightarrow> 0 < n \<and> n \<le> length args | Lit t \<Rightarrow> True) ddl_template"
    if "length args = 3" for args :: "string list"
    using that by (simp add: ddl_template_def)
  have "filter (\<lambda>ch. \<not> ident_char ch) (build_ddl x y z) = filter (\<lambda>ch. \<not> ident_char ch)
      (concat (map (\<lambda>p. case p of Lit t \<Rightarrow> t | Arg n \<Rightarrow> []) ddl_template))"
    if "ident_matches x" "ident_matches y" "ident_matches z" for x y z
    unfolding build_ddl_def
    by (rule sprintf_filter [OF _ t]) (use that ident_matches_chars in simp_all)
  ultimately show ?thesis using assms by simp
qed

theorem ddl_structure_fixed_witness:
  "filter (\<lambda>ch. \<not> ident_char ch) (build_ddl ''t1'' ''t2'' ''ch'') =
     filter (\<lambda>ch. \<not> ident_char ch) (build_ddl default_table default_audit_table default_notify_channel)"
proof -
  have "ident_matches ''t1''" "ident_matches ''t2''" "ident_matches ''ch''" by code_simp+
  then show ?thesis by (rule ddl_structure_fixed)
qed

end
