(* ===== verification/Pg_Payload.thy ===== *)
theory Pg_Payload
  imports Pg_Config Go_Json_Value Go_Time
begin

text \<open>
  The JSON text of a notification: what \<open>Delete\<close> marshals, and how the listener unmarshals
  what it receives, which may also come from the trigger or from anyone who notifies the
  channel. \<^verbatim>\<open>time.Parse\<close>, which package \<^verbatim>\<open>time\<close> falls back to for times that are not
  strictly RFC 3339, is the parameter \<open>layout\<close>.
\<close>

subsection \<open>Unmarshalling\<close>

text \<open>
  A member is for the field whose name it equals up to case. Only the folds that lead to
  ASCII matter, since the names are ASCII: beside the lower-case letters those of \<open>U+017F\<close>
  and \<open>U+212A\<close>, the long s and the Kelvin sign.
\<close>

definition fold_rune :: "nat \<Rightarrow> nat" where
  "fold_rune r = (if 97 \<le> r \<and> r \<le> 122 then r - 32 else if r = 383 then 83 else if r = 8490 then 75 else r)"

definition json_fold :: "string \<Rightarrow> nat list" where
  "json_fold key = map fold_rune (runes_of key)"

text \<open>Into a string goes a string literal, \<^verbatim>\<open>null\<close> changes nothing, and anything else is an error.\<close>

definition unmarshal_string :: "string \<Rightarrow> string \<Rightarrow> string option" where
  "unmarshal_string raw old =
     (if raw = ''null'' then Some old
      else if raw \<noteq> [] \<and> hd raw = CHR 0x22 then map_option fst (json_string (tl raw)) else None)"

text \<open>A time is read from what stands between the quotes, escapes not resolved.\<close>

definition unmarshal_time :: "(string \<Rightarrow> go_time option) \<Rightarrow> string \<Rightarrow> go_time \<Rightarrow> go_time option" where
  "unmarshal_time layout raw old =
     (if raw = ''null'' then Some old
      else if 2 \<le> length raw \<and> hd raw = CHR 0x22 \<and> last raw = CHR 0x22 then
        (case parse_rfc3339 (butlast (tl raw)) of
           Some t \<Rightarrow> Some t | None \<Rightarrow> layout (butlast (tl raw)))
      else None)"

definition unmarshal_member :: "(string \<Rightarrow> go_time option) \<Rightarrow> string \<times> string \<Rightarrow> notify_payload \<Rightarrow> notify_payload option" where
  "unmarshal_member layout m p =
     (let (key, raw) = m; is = (\<lambda>name. json_fold key = json_fold name) in
      if is ''namespace'' then map_option (\<lambda>v. p\<lparr>np_namespace := v\<rparr>) (unmarshal_string raw (np_namespace p))
      else if is ''key'' then map_option (\<lambda>v. p\<lparr>np_key := v\<rparr>) (unmarshal_string raw (np_key p))
      else if is ''old_value'' then map_option (\<lambda>v. p\<lparr>np_old_value := v\<rparr>) (unmarshal_string raw (np_old_value p))
      else if is ''new_value'' then map_option (\<lambda>v. p\<lparr>np_new_value := v\<rparr>) (unmarshal_string raw (np_new_value p))
      else if is ''changed_by'' then map_option (\<lambda>v. p\<lparr>np_changed_by := v\<rparr>) (unmarshal_string raw (np_changed_by p))
      else if is ''changed_at'' then map_option (\<lambda>v. p\<lparr>np_changed_at := v\<rparr>) (unmarshal_time layout raw (np_changed_at p))
      else Some p)"

fun unmarshal_members :: "(string \<Rightarrow> go_time option) \<Rightarrow> (string \<times> string) list \<Rightarrow> notify_payload \<Rightarrow> notify_payload option" where
  "unmarshal_members layout [] p = Some p"
| "unmarshal_members layout (m # ms) p =
     (case unmarshal_member layout m p of None \<Rightarrow> None | Some p' \<Rightarrow> unmarshal_members layout ms p')"

text \<open>The zero payload; its time is the start of the year 1.\<close>

definition zero_payload :: notify_payload where
  "zero_payload = \<lparr>np_namespace = [], np_key = [], np_old_value = [], np_new_value = [], np_changed_by = [],
     np_changed_at = - 62135596800 * 10 ^ 9\<rparr>"

text \<open>The document has to be an object, or \<^verbatim>\<open>null\<close>, which leaves the payload zero.\<close>

definition payload_unmarshal :: "(string \<Rightarrow> go_time option) \<Rightarrow> string \<Rightarrow> notify_payload option" where
  "payload_unmarshal layout s =
     (case json_object s of
        Some ms \<Rightarrow> unmarshal_members layout ms zero_payload
      | None \<Rightarrow>
          if has_prefix (skip_ws s) ''null'' \<and> skip_ws (drop 4 (skip_ws s)) = [] then Some zero_payload else None)"

subsection \<open>Marshalling\<close>

text \<open>The error of a time outside the years 0 to 9999 is ignored, and the payload then empty.\<close>

definition payload_json :: "notify_payload \<Rightarrow> string" where
  "payload_json p =
     (case time_rfc3339 (np_changed_at p) of
        None \<Rightarrow> []
      | Some t \<Rightarrow> marshal_object
          [(''namespace'', marshal_string (np_namespace p)), (''key'', marshal_string (np_key p)),
           (''old_value'', marshal_string (np_old_value p)), (''new_value'', marshal_string (np_new_value p)),
           (''changed_by'', marshal_string (np_changed_by p)), (''changed_at'', CHR 0x22 # t @ [CHR 0x22])])"

subsection \<open>The round trip\<close>

definition ascii :: "string \<Rightarrow> bool" where
  "ascii s \<longleftrightarrow> list_all (\<lambda>c. bcode c < 128) s"

lemma runes_ascii: "ascii s \<Longrightarrow> runes_of s = map bcode s"
proof (induction s)
  case (Cons c s)
  then have "decode_rune (c # s) = (bcode c, 1)" by (simp add: ascii_def decode_rune_def)
  with Cons show ?case by (simp add: ascii_def runes_of.simps [of "c # s"])
qed (simp add: runes_of.simps)

text \<open>What a string is after marshalling and unmarshalling.\<close>

definition utf8_clean :: "string \<Rightarrow> string" where
  "utf8_clean s = utf8_string (runes_of s)"

lemma clean_valid [simp]: "valid_utf8 s \<Longrightarrow> utf8_clean s = s"
  by (simp add: utf8_clean_def valid_utf8_def)

lemma ascii_valid: "ascii s \<Longrightarrow> valid_utf8 s"
proof (induction s)
  case (Cons c s)
  then have "ascii s" "bcode c < 128" by (simp_all add: ascii_def)
  moreover from \<open>bcode c < 128\<close> have "encode_rune (bcode c) = [c]" "valid_rune (bcode c)"
    by (simp_all add: encode_rune_def valid_rune_def)
  ultimately show ?case using Cons by (simp add: valid_utf8_def runes_ascii utf8_string_def)
qed (simp add: valid_utf8_def runes_of.simps utf8_string_def)

text \<open>Characters that stand for themselves in a literal.\<close>

definition plain :: "char \<Rightarrow> bool" where
  "plain c \<longleftrightarrow> 32 \<le> bcode c \<and> bcode c < 128 \<and> c \<noteq> CHR 0x22 \<and> c \<noteq> CHR 0x5C"

lemma literal_plain: "list_all plain s \<Longrightarrow> json_string (s @ CHR 0x22 # t) = Some (s, t)"
  by (induction s) (simp_all add: json_string.simps plain_def json_char_def)

lemma plain_digit: "is_digit c \<Longrightarrow> plain c"
  by (auto simp: is_digit_def plain_def)

lemma plain_time:
  assumes "time_rfc3339 t = Some s"
  shows "list_all plain s"
proof -
  have "list_all plain (pad_dec w n)" for w n
    using pad_dec_props(2) [of w n] plain_digit by (auto simp: list_all_iff)
  moreover from this have "list_all plain (rev (dropWhile P (rev (pad_dec w n))))" for P w n
    by (auto simp: list_all_iff dest: set_dropWhileD)
  then have "list_all plain (fraction_text n)" for n by (simp add: fraction_text_def plain_def)
  ultimately show ?thesis using assms
    by (auto simp: time_rfc3339_def Let_def plain_def split: prod.splits if_splits)
qed

lemma time_in_range:
  assumes "- 62167219200 * 10 ^ 9 \<le> t" "t < 253402300800 * 10 ^ 9"
  shows "time_rfc3339 t \<noteq> None"
proof -
  define day where "day = t div 10 ^ 9 div 86400 + int epoch_days"
  have "epoch_days = 719528"
    by (simp add: epoch_days_def date_days_def days_before_year_def days_before_month_def)
  with assms have "0 \<le> day" "day < 3652425" by (simp_all add: day_def)
  moreover have "days_before_year 10000 = 3652425" by (simp add: days_before_year_def)
  moreover obtain y m d where date: "days_date (nat day) = (y, m, d)" by (cases "days_date (nat day)") auto
  ultimately have "y < 10000" using days_date_correct(4) [OF date] by simp
  with \<open>0 \<le> day\<close> date show ?thesis by (simp add: time_rfc3339_def Let_def day_def)
qed

definition cleaned :: "notify_payload \<Rightarrow> notify_payload" where
  "cleaned p = \<lparr>np_namespace = utf8_clean (np_namespace p), np_key = utf8_clean (np_key p),
     np_old_value = utf8_clean (np_old_value p), np_new_value = utf8_clean (np_new_value p),
     np_changed_by = utf8_clean (np_changed_by p), np_changed_at = np_changed_at p\<rparr>"

lemma folded_names:
  "json_fold ''namespace'' = [78, 65, 77, 69, 83, 80, 65, 67, 69]"
  "json_fold ''key'' = [75, 69, 89]"
  "json_fold ''old_value'' = [79, 76, 68, 95, 86, 65, 76, 85, 69]"
  "json_fold ''new_value'' = [78, 69, 87, 95, 86, 65, 76, 85, 69]"
  "json_fold ''changed_by'' = [67, 72, 65, 78, 71, 69, 68, 95, 66, 89]"
  "json_fold ''changed_at'' = [67, 72, 65, 78, 71, 69, 68, 95, 65, 84]"
  by (simp_all add: json_fold_def runes_ascii ascii_def fold_rune_def)

lemma clean_names:
  "utf8_string (runes_of ''namespace'') = ''namespace''"
  "utf8_string (runes_of ''key'') = ''key''"
  "utf8_string (runes_of ''old_value'') = ''old_value''"
  "utf8_string (runes_of ''new_value'') = ''new_value''"
  "utf8_string (runes_of ''changed_by'') = ''changed_by''"
  "utf8_string (runes_of ''changed_at'') = ''changed_at''"
  using clean_valid [OF ascii_valid] by (simp_all add: utf8_clean_def ascii_def)

lemma unmarshal_named:
  "unmarshal_member layout (''namespace'', raw) p = map_option (\<lambda>v. p\<lparr>np_namespace := v\<rparr>) (unmarshal_string raw (np_namespace p))"
  "unmarshal_member layout (''key'', raw) p = map_option (\<lambda>v. p\<lparr>np_key := v\<rparr>) (unmarshal_string raw (np_key p))"
  "unmarshal_member layout (''old_value'', raw) p = map_option (\<lambda>v. p\<lparr>np_old_value := v\<rparr>) (unmarshal_string raw (np_old_value p))"
  "unmarshal_member layout (''new_value'', raw) p = map_option (\<lambda>v. p\<lparr>np_new_value := v\<rparr>) (unmarshal_string raw (np_new_value p))"
  "unmarshal_member layout (''changed_by'', raw) p = map_option (\<lambda>v. p\<lparr>np_changed_by := v\<rparr>) (unmarshal_string raw (np_changed_by p))"
  "unmarshal_member layout (''changed_at'', raw) p = map_option (\<lambda>v. p\<lparr>np_changed_at := v\<rparr>) (unmarshal_time layout raw (np_changed_at p))"
  by (simp_all add: unmarshal_member_def folded_names)

text \<open>Reading back what was marshalled replaces malformed bytes and changes nothing else.\<close>

lemma unmarshal_payload_json:
  assumes "time_rfc3339 (np_changed_at p) \<noteq> None"
  shows "payload_unmarshal layout (payload_json p) = Some (cleaned p)"
proof -
  obtain t where t: "time_rfc3339 (np_changed_at p) = Some t" using assms by blast
  define lit where "lit = CHR 0x22 # t @ [CHR 0x22]"
  define ms where "ms = [(''namespace'', marshal_string (np_namespace p)), (''key'', marshal_string (np_key p)),
           (''old_value'', marshal_string (np_old_value p)), (''new_value'', marshal_string (np_new_value p)),
           (''changed_by'', marshal_string (np_changed_by p)), (''changed_at'', lit)]"
  have "literal_of lit t" using literal_plain [OF plain_time [OF t]] by (simp add: literal_of_def lit_def)
  then have "list_all (\<lambda>m. \<exists>v. literal_of (snd m) v) ms" using literal_marshal by (auto simp: ms_def)
  then have "json_object (payload_json p) = Some (map (\<lambda>(k, raw). (utf8_string (runes_of k), raw)) ms)"
    using object_read [of ms] by (simp add: payload_json_def t ms_def lit_def)
  moreover have str: "unmarshal_string (marshal_string s) old = Some (utf8_clean s)" for s old
    using marshal_string_read [of s "[]"] by (simp add: unmarshal_string_def marshal_string_def utf8_clean_def)
  moreover have "unmarshal_time layout lit old = Some (np_changed_at p)" for old
    by (simp add: unmarshal_time_def lit_def parse_time_rfc3339 [OF t])
  ultimately show ?thesis
    by (simp add: payload_unmarshal_def ms_def clean_names unmarshal_named cleaned_def zero_payload_def)
qed

text \<open>Whatever runs on ASCII strings and times of this millennium is read back as it was.\<close>

lemma unmarshal_ascii:
  assumes "ascii (np_namespace p)" "ascii (np_key p)" "ascii (np_old_value p)" "ascii (np_new_value p)"
    "ascii (np_changed_by p)" "0 \<le> np_changed_at p" "np_changed_at p < 10 ^ 18"
  shows "payload_unmarshal layout (payload_json p) = Some p"
  using unmarshal_payload_json [OF time_in_range] assms clean_valid [OF ascii_valid]
  by (cases p) (simp add: cleaned_def)

text \<open>C35: The payload of a notification survives its text. For every time in the years 0 to 9999 and
  all strings whatsoever, \<open>payload_unmarshal\<close> reads what \<open>payload_json\<close> writes as the same
  payload, with the time to the nanosecond, and with each byte of a string that is not UTF-8
  replaced by \<open>U+FFFD\<close>; strings that are UTF-8 come back unchanged.\<close>

theorem payload_round_trip:
  assumes "- 62167219200 * 10 ^ 9 \<le> np_changed_at p" "np_changed_at p < 253402300800 * 10 ^ 9"
  shows "payload_unmarshal layout (payload_json p) = Some (cleaned p)
     \<and> (valid_utf8 (np_namespace p) \<and> valid_utf8 (np_key p) \<and> valid_utf8 (np_old_value p)
          \<and> valid_utf8 (np_new_value p) \<and> valid_utf8 (np_changed_by p) \<longrightarrow> cleaned p = p)"
  using unmarshal_payload_json [OF time_in_range [OF assms]] by (simp add: cleaned_def)

theorem payload_round_trip_witness:
  "payload_unmarshal (\<lambda>s. None) (payload_json \<lparr>np_namespace = ''default'', np_key = ''a<b'', np_old_value = [CHR 0xFF],
     np_new_value = [CHR 0x22, CHR 0x0A], np_changed_by = ''op'', np_changed_at = 1709210096789012000\<rparr>)
   = Some \<lparr>np_namespace = ''default'', np_key = ''a<b'', np_old_value = [CHR 0xEF, CHR 0xBF, CHR 0xBD],
     np_new_value = [CHR 0x22, CHR 0x0A], np_changed_by = ''op'', np_changed_at = 1709210096789012000\<rparr>"
proof -
  let ?p = "\<lparr>np_namespace = ''default'', np_key = ''a<b'', np_old_value = [CHR 0xFF], np_new_value = [CHR 0x22, CHR 0x0A],
     np_changed_by = ''op'', np_changed_at = 1709210096789012000\<rparr>"
  have "decode_rune [CHR 0xFF] = (rune_error, 1)" by (simp add: decode_rune_def)
  then have "utf8_clean [CHR 0xFF] = encode_rune rune_error"
    by (simp add: utf8_clean_def runes_of.simps utf8_string_def)
  also have "\<dots> = [CHR 0xEF, CHR 0xBF, CHR 0xBD]"
    by (simp add: encode_rune_def rune_error_def valid_rune_def) code_simp
  finally have bad: "utf8_clean [CHR 0xFF] = [CHR 0xEF, CHR 0xBF, CHR 0xBD]" .
  have "ascii ''default''" "ascii ''a<b''" "ascii [CHR 0x22, CHR 0x0A]" "ascii ''op''" by (simp_all add: ascii_def)
  note good = this [THEN ascii_valid, THEN clean_valid]
  from payload_round_trip [of ?p "\<lambda>s. None"] show ?thesis by (simp add: cleaned_def good bad)
qed

end
