(* ===== verification/Pg_Listen.thy ===== *)
theory Pg_Listen
  imports Pg_Payload Store_Api Channels
begin

text \<open>
  The listener of the Postgres store (\<open>Watch\<close> and \<open>listenLoop\<close> of
  \<^verbatim>\<open>pgstore/store.go\<close>) as a step relation. The driver's connection is a number, or
  \<open>None\<close> for the nil pointer \<^verbatim>\<open>pgx.ConnectConfig\<close> returns with an error; its methods read
  the fields of the connection, so the call of one on nil panics: the deferred
  \<^verbatim>\<open>close(ch)\<close> runs, the loop is \<open>Panicked\<close>, and the runtime ends the process, for nothing
  recovers (until it has ended, the context can be cancelled and the channel read). The driver decides what a wait, a
  connection attempt and a \<^verbatim>\<open>LISTEN\<close> give; \<open>layout\<close> is the parameter of
  \<open>payload_unmarshal\<close>. Backoffs are 64-bit nanoseconds and wrap like Go's.
\<close>

subsection \<open>States\<close>

datatype listen_pc =
    Waiting
  | BackingOff
  | Connecting
  | Listening
  | Delivering change_event
  | Returned
  | Panicked

record listener =
  li_pc :: listen_pc
  li_conn :: "nat option"
  li_open :: bool
  li_backoff :: int
  li_chan :: "change_event gochan"
  li_done :: bool

text \<open>\<open>li_open\<close> says whether the connection is still open; a closed one fails to wait.\<close>

definition wrap64 :: "int \<Rightarrow> int" where
  "wrap64 i = signed_take_bit 63 i"

text \<open>\<open>Watch\<close> after the connection and the \<^verbatim>\<open>LISTEN\<close> succeeded.\<close>

definition listen_start :: "nat \<Rightarrow> listener" where
  "listen_start conn = \<lparr>li_pc = Waiting, li_conn = Some conn, li_open = True,
     li_backoff = initial_backoff, li_chan = make_chan 64, li_done = False\<rparr>"

text \<open>\<open>Watch\<close>: the connection attempt (an error or a connection), then the \<^verbatim>\<open>LISTEN\<close> (an error
  closes the connection).\<close>

definition pg_watch :: "string + nat \<Rightarrow> string option \<Rightarrow> string + listener" where
  "pg_watch connect listen =
     (case connect of
        Inl e \<Rightarrow> Inl (''pgstore: open listen conn: '' @ e)
      | Inr conn \<Rightarrow>
          (case listen of
             Some e \<Rightarrow> Inl (''pgstore: LISTEN: '' @ e)
           | None \<Rightarrow> Inr (listen_start conn)))"

text \<open>Leaving the loop, by a return or by the panic: the deferred \<^verbatim>\<open>close(ch)\<close>.\<close>

definition listen_return :: "listener \<Rightarrow> listener" where
  "listen_return s = s\<lparr>li_pc := Returned, li_chan := (li_chan s)\<lparr>closed := True\<rparr>\<rparr>"

definition on_nil_call :: "listener \<Rightarrow> listener" where
  "on_nil_call s = s\<lparr>li_pc := Panicked, li_chan := (li_chan s)\<lparr>closed := True\<rparr>\<rparr>"

text \<open>What happens with a notification: reset the backoff, unmarshal, filter, deliver.\<close>

definition on_notification ::
  "(string \<Rightarrow> go_time option) \<Rightarrow> string \<Rightarrow> string \<Rightarrow> listener \<Rightarrow> listener" where
  "on_notification layout namespace payload s =
     (let s' = s\<lparr>li_backoff := initial_backoff\<rparr> in
      case payload_unmarshal layout payload of
        None \<Rightarrow> s'
      | Some p \<Rightarrow> if np_namespace p \<noteq> namespace then s' else s'\<lparr>li_pc := Delivering (payload_event p)\<rparr>)"

text \<open>A failed wait: close the connection; return when the context is done.\<close>

definition on_wait_error :: "listener \<Rightarrow> listener" where
  "on_wait_error s =
     (let s' = s\<lparr>li_open := False\<rparr> in
      if li_done s then listen_return s' else s'\<lparr>li_pc := BackingOff\<rparr>)"

definition on_backoff_over :: "int \<Rightarrow> listener \<Rightarrow> listener" where
  "on_backoff_over max_backoff s =
     s\<lparr>li_backoff := min (wrap64 (li_backoff s * 2)) max_backoff, li_pc := Connecting\<rparr>"

text \<open>\<open>conn, err = ConnectConfig(...)\<close>: the variable is assigned also when it fails.\<close>

definition on_connect :: "nat option \<Rightarrow> listener \<Rightarrow> listener" where
  "on_connect outcome s =
     (case outcome of
        None \<Rightarrow> s\<lparr>li_conn := None, li_open := False, li_pc := Waiting\<rparr>
      | Some c \<Rightarrow> s\<lparr>li_conn := Some c, li_open := True, li_pc := Listening\<rparr>)"

definition on_listen :: "bool \<Rightarrow> listener \<Rightarrow> listener" where
  "on_listen success s =
     (if success then s\<lparr>li_backoff := initial_backoff, li_pc := Waiting\<rparr>
      else s\<lparr>li_open := False, li_pc := Waiting\<rparr>)"

datatype listen_label =
    Notified string
  | WaitFailed
  | Slept int
  | Connected "nat option"
  | Listened bool
  | Delivered
  | Stopped
  | NilCall
  | Cancelled
  | Taken change_event

inductive listen_step ::
  "(string \<Rightarrow> go_time option) \<Rightarrow> string \<Rightarrow> int \<Rightarrow> listener \<Rightarrow> listen_label \<Rightarrow> listener \<Rightarrow> bool"
  for layout namespace max_backoff where
  ls_nil: "li_pc s = Waiting \<Longrightarrow> li_conn s = None \<Longrightarrow>
      listen_step layout namespace max_backoff s NilCall (on_nil_call s)"
| ls_notified: "li_pc s = Waiting \<Longrightarrow> li_conn s \<noteq> None \<Longrightarrow> li_open s \<Longrightarrow>
      listen_step layout namespace max_backoff s (Notified payload) (on_notification layout namespace payload s)"
| ls_wait_failed: "li_pc s = Waiting \<Longrightarrow> li_conn s \<noteq> None \<Longrightarrow>
      listen_step layout namespace max_backoff s WaitFailed (on_wait_error s)"
| ls_backoff_done: "li_pc s = BackingOff \<Longrightarrow> li_done s \<Longrightarrow>
      listen_step layout namespace max_backoff s Stopped (listen_return s)"
| ls_backoff_over: "li_pc s = BackingOff \<Longrightarrow>
      listen_step layout namespace max_backoff s (Slept (li_backoff s)) (on_backoff_over max_backoff s)"
| ls_connect: "li_pc s = Connecting \<Longrightarrow>
      listen_step layout namespace max_backoff s (Connected outcome) (on_connect outcome s)"
| ls_listen: "li_pc s = Listening \<Longrightarrow>
      listen_step layout namespace max_backoff s (Listened success) (on_listen success s)"
| ls_deliver: "li_pc s = Delivering event \<Longrightarrow> has_room (li_chan s) \<Longrightarrow>
      listen_step layout namespace max_backoff s Delivered
        (s\<lparr>li_pc := Waiting, li_chan := (li_chan s)\<lparr>buf := buf (li_chan s) @ [event]\<rparr>\<rparr>)"
| ls_deliver_done: "li_pc s = Delivering event \<Longrightarrow> li_done s \<Longrightarrow>
      listen_step layout namespace max_backoff s Stopped (listen_return (s\<lparr>li_open := False\<rparr>))"
| ls_cancel: "listen_step layout namespace max_backoff s Cancelled (s\<lparr>li_done := True\<rparr>)"
| ls_recv: "buf (li_chan s) = event # es \<Longrightarrow>
      listen_step layout namespace max_backoff s (Taken event) (s\<lparr>li_chan := (li_chan s)\<lparr>buf := es\<rparr>\<rparr>)"

inductive_cases listen_step_elim: "listen_step layout namespace max_backoff s l s'"

text \<open>Runs from a successful \<open>Watch\<close>, with their labels, oldest first.\<close>

inductive listen_run ::
  "(string \<Rightarrow> go_time option) \<Rightarrow> string \<Rightarrow> int \<Rightarrow> listen_label list \<Rightarrow> listener \<Rightarrow> bool"
  for layout namespace max_backoff where
  lr_start: "listen_run layout namespace max_backoff [] (listen_start conn)"
| lr_step: "listen_run layout namespace max_backoff ls s \<Longrightarrow>
      listen_step layout namespace max_backoff s l s' \<Longrightarrow>
      listen_run layout namespace max_backoff (ls @ [l]) s'"

text \<open>The steps the loop makes itself.\<close>

fun own_label :: "listen_label \<Rightarrow> bool" where
  "own_label Cancelled = False"
| "own_label (Taken e) = False"
| "own_label l = True"

lemma listen_run_snoc_elim:
  assumes "listen_run layout namespace max_backoff (ls @ [l]) s'"
  obtains s where "listen_run layout namespace max_backoff ls s" "listen_step layout namespace max_backoff s l s'"
  using assms by cases auto

subsection \<open>Invariant\<close>

text \<open>Failed attempts to listen since the last success: how often the backoff was doubled.\<close>

fun doublings :: "listen_label list \<Rightarrow> nat" where
  "doublings [] = 0"
| "doublings (Slept d # ls) = Suc (doublings ls)"
| "doublings (Notified p # ls) = 0"
| "doublings (Listened True # ls) = 0"
| "doublings (l # ls) = doublings ls"

definition backoff_after :: "int \<Rightarrow> nat \<Rightarrow> int" where
  "backoff_after max_backoff n = (if n = 0 then initial_backoff else min (2 ^ n * initial_backoff) max_backoff)"

definition listen_inv :: "string \<Rightarrow> int \<Rightarrow> listen_label list \<Rightarrow> listener \<Rightarrow> bool" where
  "listen_inv namespace max_backoff ls s \<longleftrightarrow>
     li_backoff s = backoff_after max_backoff (doublings (rev ls))
     \<and> (closed (li_chan s) \<longleftrightarrow> li_pc s = Returned \<or> li_pc s = Panicked)
     \<and> chan_ok (li_chan s) \<and> cap (li_chan s) = 64
     \<and> (\<forall>e \<in> set (buf (li_chan s)). ce_namespace e = namespace)
     \<and> (\<forall>e. li_pc s = Delivering e \<longrightarrow> ce_namespace e = namespace)
     \<and> (li_conn s = None \<longrightarrow> li_pc s = Waiting \<or> li_pc s = Panicked)"

lemma wrap64_id: "- (2 ^ 63) \<le> i \<Longrightarrow> i < 2 ^ 63 \<Longrightarrow> wrap64 i = i"
  by (simp add: wrap64_def signed_take_bit_int_eq_self)

lemma backoff_after_bounds:
  assumes "0 < max_backoff"
  shows "0 < backoff_after max_backoff n \<and> backoff_after max_backoff n \<le> max initial_backoff max_backoff"
  using assms by (auto simp: backoff_after_def initial_backoff_def)

lemma backoff_after_Suc:
  assumes "0 < max_backoff" "max_backoff < 2 ^ 62"
  shows "min (wrap64 (backoff_after max_backoff n * 2)) max_backoff = backoff_after max_backoff (Suc n)"
proof -
  have b: "0 < backoff_after max_backoff n" "backoff_after max_backoff n \<le> max initial_backoff max_backoff"
    using backoff_after_bounds [OF assms(1)] by auto
  moreover have "max initial_backoff max_backoff < 2 ^ 62"
    using assms(2) by (simp add: initial_backoff_def)
  ultimately have "backoff_after max_backoff n < 2 ^ 62" by linarith
  with b(1) have "wrap64 (backoff_after max_backoff n * 2) = backoff_after max_backoff n * 2"
    by (intro wrap64_id) simp_all
  then show ?thesis using assms(1) by (auto simp: backoff_after_def min_def)
qed

lemma listen_inv_notified:
  assumes "listen_inv namespace max_backoff ls s" "li_pc s = Waiting" "li_conn s \<noteq> None"
  shows "listen_inv namespace max_backoff (ls @ [Notified payload]) (on_notification layout namespace payload s)"
  using assms
  by (auto simp: listen_inv_def on_notification_def Let_def backoff_after_def split: option.split)

lemma listen_inv_step:
  assumes "0 < max_backoff" "max_backoff < 2 ^ 62"
    and "listen_inv namespace max_backoff ls s" "listen_step layout namespace max_backoff s l s'"
  shows "listen_inv namespace max_backoff (ls @ [l]) s'"
  using assms(4)
proof (cases rule: listen_step.cases)
  case ls_notified
  with listen_inv_notified assms(3) show ?thesis by simp
next
  case ls_backoff_over
  with assms(3) backoff_after_Suc [OF assms(1,2)] show ?thesis
    by (auto simp: listen_inv_def on_backoff_over_def)
next
  case ls_connect
  with assms(3) show ?thesis
    by (auto simp: listen_inv_def on_connect_def split: option.split)
next
  case (ls_listen success)
  with assms(3) show ?thesis
    by (cases success) (auto simp: listen_inv_def on_listen_def backoff_after_def)
next
  case ls_deliver
  with assms(3) show ?thesis
    by (auto simp: listen_inv_def chan_ok_def has_room_def)
next
  case ls_recv
  with assms(3) show ?thesis by (auto simp: listen_inv_def chan_ok_def)
qed (use assms(3) in \<open>auto simp: listen_inv_def on_wait_error_def listen_return_def on_nil_call_def chan_ok_def Let_def\<close>)

lemma listen_inv_run:
  assumes "listen_run layout namespace max_backoff ls s" "0 < max_backoff" "max_backoff < 2 ^ 62"
  shows "listen_inv namespace max_backoff ls s"
  using assms(1)
proof induction
  case (lr_start conn)
  then show ?case
    by (simp add: listen_inv_def listen_start_def backoff_after_def) (simp add: make_chan_def)
next
  case (lr_step ls s l s')
  then show ?case using listen_inv_step [OF assms(2,3)] by blast
qed

subsection \<open>Properties\<close>

text \<open>C38: The wait before a reconnect doubles with each failed attempt from two seconds up to the
  maximal backoff, and starts again from two seconds after a notification or a successful
  \<^verbatim>\<open>LISTEN\<close>: after \<open>n\<close> waits in a row it is \<open>2 ^ n\<close> times two seconds, capped (the very
  first wait is two seconds even when the maximum is smaller), for every maximum below
  \<open>2 ^ 62\<close> nanoseconds.\<close>

theorem backoff_doubles_to_max:
  assumes "listen_run layout namespace max_backoff ls s" "0 < max_backoff" "max_backoff < 2 ^ 62"
    and "listen_step layout namespace max_backoff s (Slept d) s'"
  shows "d = backoff_after max_backoff (doublings (rev ls)) \<and> 0 < d \<and> d \<le> max initial_backoff max_backoff"
proof -
  have "d = li_backoff s" using assms(4) by (auto elim: listen_step_elim)
  also have "\<dots> = backoff_after max_backoff (doublings (rev ls))"
    using listen_inv_run [OF assms(1-3)] by (simp add: listen_inv_def)
  finally show ?thesis using backoff_after_bounds [OF assms(2)] by simp
qed

lemma listen_lost:
  "listen_run layout namespace max_backoff [WaitFailed] ((listen_start 0)\<lparr>li_open := False, li_pc := BackingOff\<rparr>)"
proof -
  have "listen_step layout namespace max_backoff (listen_start 0) WaitFailed
      ((listen_start 0)\<lparr>li_open := False, li_pc := BackingOff\<rparr>)"
    using ls_wait_failed [of "listen_start 0"] by (simp add: listen_start_def on_wait_error_def)
  from lr_step [OF lr_start this] show ?thesis by simp
qed

lemma listen_slept:
  "listen_step layout namespace max_backoff ((listen_start 0)\<lparr>li_open := False, li_pc := BackingOff\<rparr>)
     (Slept initial_backoff)
     (on_backoff_over max_backoff ((listen_start 0)\<lparr>li_open := False, li_pc := BackingOff\<rparr>))"
  using ls_backoff_over [of "(listen_start 0)\<lparr>li_open := False, li_pc := BackingOff\<rparr>"]
  by (simp add: listen_start_def)

theorem backoff_doubles_to_max_witness:
  "initial_backoff = backoff_after 1000000000 (doublings (rev [WaitFailed])) \<and> (1000000000 :: int) < initial_backoff"
  using backoff_doubles_to_max [OF listen_lost _ _ listen_slept, of 1000000000]
  by (simp add: initial_backoff_def)

lemma listen_closed:
  "listen_run layout namespace max_backoff ls s \<Longrightarrow> closed (li_chan s) \<longleftrightarrow> li_pc s = Returned \<or> li_pc s = Panicked"
proof (induction rule: listen_run.induct)
  case (lr_step ls s l s')
  from lr_step.hyps(2) lr_step.IH show ?case
    by cases (auto simp: on_notification_def on_wait_error_def on_backoff_over_def on_connect_def
      on_listen_def listen_return_def on_nil_call_def Let_def split: option.splits)
qed (simp add: listen_start_def make_chan_def)

text \<open>What a failed reconnect leaves: the loop waits on the nil connection or has panicked there.\<close>

lemma nil_conn_kept:
  assumes "listen_step layout namespace max_backoff s l s'" "li_conn s = None"
    and "li_pc s = Waiting \<or> li_pc s = Panicked"
  shows "li_conn s' = None \<and> (if own_label l then l = NilCall \<and> li_pc s = Waiting \<and> li_pc s' = Panicked else li_pc s' = li_pc s)"
  using assms by cases (auto simp: on_nil_call_def)

lemma nil_conn_run:
  "listen_run layout namespace max_backoff (us @ Connected None # ms) s \<Longrightarrow>
     li_conn s = None \<and> ((li_pc s = Waiting \<and> filter own_label ms = [])
        \<or> (li_pc s = Panicked \<and> filter own_label ms = [NilCall]))"
proof (induction ms arbitrary: s rule: rev_induct)
  case Nil
  then obtain s1 where "listen_step layout namespace max_backoff s1 (Connected None) s"
    by (auto elim: listen_run_snoc_elim)
  then show ?case by cases (simp add: on_connect_def)
next
  case (snoc l ms)
  from snoc.prems have "listen_run layout namespace max_backoff ((us @ Connected None # ms) @ [l]) s" by simp
  then obtain s1 where s1: "listen_run layout namespace max_backoff (us @ Connected None # ms) s1"
    "listen_step layout namespace max_backoff s1 l s" by (rule listen_run_snoc_elim)
  from snoc.IH [OF s1(1)] nil_conn_kept [OF s1(2)] show ?case by (auto split: if_splits)
qed

text \<open>C37: One failed reconnect attempt ends the listener by a panic. Once
  \<^verbatim>\<open>pgx.ConnectConfig\<close> has failed the connection variable is nil for the rest of every run,
  and the loop goes back to the wait without a backoff: whatever the driver would answer,
  and also when the context is cancelled, the only step it makes from there on is the one call
  of \<^verbatim>\<open>WaitForNotification\<close> on the nil connection. Until it makes it, it can and nothing
  else of its own can happen, with the channel open; once made, the loop has panicked
  with the channel closed by the deferred call and makes no step any more. So there is no
  further reconnect attempt and no event is delivered; the backoff never gets a second
  try to space out.\<close>

theorem failed_reconnect_is_final:
  assumes "listen_run layout namespace max_backoff (us @ Connected None # ms) s"
  shows "li_conn s = None
     \<and> ((li_pc s = Waiting \<and> \<not> closed (li_chan s) \<and> filter own_label ms = []
          \<and> (\<exists>s2. listen_step layout namespace max_backoff s NilCall s2 \<and> li_pc s2 = Panicked \<and> closed (li_chan s2)))
        \<or> (li_pc s = Panicked \<and> closed (li_chan s) \<and> filter own_label ms = [NilCall]
          \<and> (\<forall>l s2. listen_step layout namespace max_backoff s l s2 \<longrightarrow> \<not> own_label l)))"
proof -
  have nil: "li_conn s = None" "(li_pc s = Waiting \<and> filter own_label ms = []) \<or> (li_pc s = Panicked \<and> filter own_label ms = [NilCall])"
    using nil_conn_run [OF assms] by auto
  have "listen_step layout namespace max_backoff s NilCall (on_nil_call s)" if "li_pc s = Waiting"
    by (rule ls_nil [OF that nil(1)])
  moreover have "\<not> own_label l" if "li_pc s = Panicked" "listen_step layout namespace max_backoff s l s2" for l s2
    using nil_conn_kept [OF that(2) nil(1)] that(1) by (auto split: if_splits)
  ultimately show ?thesis using nil listen_closed [OF assms] by (auto simp: on_nil_call_def)
qed

text \<open>In the example the wait fails, the loop backs off, the reconnect fails, and the context is cancelled.\<close>

theorem failed_reconnect_is_final_witness:
  "\<exists>s. listen_run (\<lambda>p. None) ''default'' default_max_backoff
       [WaitFailed, Slept initial_backoff, Connected None, Cancelled] s \<and> li_done s
     \<and> (\<exists>s2. listen_step (\<lambda>p. None) ''default'' default_max_backoff s NilCall s2
          \<and> li_pc s2 = Panicked \<and> closed (li_chan s2))"
proof -
  let ?s = "on_backoff_over default_max_backoff ((listen_start 0)\<lparr>li_open := False, li_pc := BackingOff\<rparr>)"
  have "listen_run (\<lambda>p. None) ''default'' default_max_backoff ([WaitFailed] @ [Slept initial_backoff]) ?s"
    by (rule lr_step [OF listen_lost listen_slept])
  from lr_step [OF this ls_connect [of _ _ _ _ None]]
  have "listen_run (\<lambda>p. None) ''default'' default_max_backoff ([WaitFailed, Slept initial_backoff] @ [Connected None])
      (on_connect None ?s)" by (simp add: on_backoff_over_def)
  from lr_step [OF this ls_cancel]
  have run: "listen_run (\<lambda>p. None) ''default'' default_max_backoff
      ([WaitFailed, Slept initial_backoff] @ Connected None # [Cancelled]) ((on_connect None ?s)\<lparr>li_done := True\<rparr>)" by simp
  with failed_reconnect_is_final [OF run] show ?thesis
    by (rule_tac x = "(on_connect None ?s)\<lparr>li_done := True\<rparr>" in exI) (auto simp: on_connect_def)
qed

text \<open>Only events of the watched namespace are delivered, never more than 64 are buffered, and
  the channel is closed exactly when the loop has returned or panicked, so nothing is sent on a closed
  channel and it is closed once.\<close>

theorem listener_delivers_namespace:
  assumes "listen_run layout namespace max_backoff ls s" "0 < max_backoff" "max_backoff < 2 ^ 62"
  shows "list_all (\<lambda>e. ce_namespace e = namespace) (buf (li_chan s)) \<and> length (buf (li_chan s)) \<le> 64
     \<and> closed (li_chan s) = (li_pc s = Returned \<or> li_pc s = Panicked)"
  using listen_inv_run [OF assms] by (auto simp: listen_inv_def chan_ok_def list_all_iff)

theorem listener_delivers_namespace_witness:
  "closed (li_chan ((listen_start 0)\<lparr>li_open := False, li_pc := BackingOff\<rparr>)) = False"
  using listener_delivers_namespace [OF listen_lost, of 1000000000] by simp

end
