(* ===== verification/Pg_Store.thy ===== *)
theory Pg_Store
  imports Pg_Config Store_Api
begin

text \<open>
  The operations of the Postgres store (\<^verbatim>\<open>pgstore/store.go\<close>) as programs over the
  database: an operation is a tree of commands, each continued by the database's answer.
  The database is a parameter, a handler of commands on a world of any type; the locale
  \<open>pg_database\<close> states what the code relies on of it (documented behaviour of a
  transaction, of the five statements and of the trigger the schema installs), and the
  theory \<open>Pg_Tables\<close> gives a handler that has these properties.
\<close>

subsection \<open>Commands and programs\<close>

text \<open>The statements the code sends, by their texts; the names are the store's own.\<close>

datatype stmt =
    SelectValue string string string
  | Upsert string string string string string go_time
  | InsertAudit string string string string string string go_time
  | DeleteReturning string string string
  | PgNotify string notify_payload
  | SelectNamespace string string
  | SelectHistory string string string int int
  | Ddl string

datatype cmd = Begin | Query stmt | Exec stmt | Commit | Rollback

text \<open>An answer: done, no row, one text value, rows, or an error.\<close>

datatype resp =
    Done
  | NoRows
  | Value string
  | Rows "(string \<times> string) list"
  | Audits "audit_entry list"
  | Failed string

datatype 'a prog = Ret 'a | Do cmd "resp \<Rightarrow> 'a prog"

primrec run_prog :: "(cmd \<Rightarrow> 'w \<Rightarrow> resp \<times> 'w) \<Rightarrow> 'a prog \<Rightarrow> 'w \<Rightarrow> 'a \<times> 'w" where
  "run_prog h (Ret x) w = (x, w)"
| "run_prog h (Do c k) w = (let (r, w') = h c w in run_prog h (k r) w')"

primrec bind_prog :: "'a prog \<Rightarrow> ('a \<Rightarrow> 'b prog) \<Rightarrow> 'b prog" where
  "bind_prog (Ret x) f = f x"
| "bind_prog (Do c k) f = Do c (\<lambda>r. bind_prog (k r) f)"

text \<open>A function body with \<^verbatim>\<open>defer tx.Rollback(ctx)\<close>: the rollback comes last on every path.\<close>

definition with_deferred_rollback :: "'a prog \<Rightarrow> 'a prog" where
  "with_deferred_rollback body = bind_prog body (\<lambda>x. Do Rollback (\<lambda>_. Ret x))"

text \<open>\<open>begin_tx\<close> starts the transaction; the deferred rollback is only set up when it started.\<close>

definition begin_tx :: "(string \<Rightarrow> 'e) \<Rightarrow> ('e + 'a) prog \<Rightarrow> ('e + 'a) prog" where
  "begin_tx wrap body =
     Do Begin (\<lambda>r. case r of
       Failed e \<Rightarrow> Ret (Inl (wrap e))
     | _ \<Rightarrow> with_deferred_rollback body)"

datatype pg_error =
    BeginFailed string
  | ReadOldFailed string
  | UpsertFailed string
  | AuditFailed string
  | DeleteFailed string
  | NotifyFailed string
  | CommitFailed string
  | GetFailed string
  | ListFailed string
  | HistoryFailed string
  | MigrateFailed string

definition exec_or :: "stmt \<Rightarrow> (string \<Rightarrow> 'e) \<Rightarrow> ('e + 'a) prog \<Rightarrow> ('e + 'a) prog" where
  "exec_or st wrap k = Do (Exec st) (\<lambda>r. case r of Failed e \<Rightarrow> Ret (Inl (wrap e)) | _ \<Rightarrow> k)"

definition commit_tx :: "(pg_error + unit) prog" where
  "commit_tx = Do Commit (\<lambda>r. case r of Failed e \<Rightarrow> Ret (Inl (CommitFailed e)) | _ \<Rightarrow> Ret (Inr ()))"

subsection \<open>Operations\<close>

definition pg_migrate :: "pg_store \<Rightarrow> (pg_error + unit) prog" where
  "pg_migrate s =
     begin_tx MigrateFailed
       (exec_or (Ddl (build_ddl (pg_table s) (pg_audit_table s) (pg_notify_channel s))) MigrateFailed
          (Do Commit (\<lambda>r. case r of Failed e \<Rightarrow> Ret (Inl (MigrateFailed e)) | _ \<Rightarrow> Ret (Inr ()))))"

definition pg_get :: "pg_store \<Rightarrow> string \<Rightarrow> string \<Rightarrow> (pg_error + (string \<times> bool)) prog" where
  "pg_get s namespace key =
     Do (Query (SelectValue (pg_table s) namespace key)) (\<lambda>r. case r of
       NoRows \<Rightarrow> Ret (Inr ([], False))
     | Failed e \<Rightarrow> Ret (Inl (GetFailed e))
     | Value v \<Rightarrow> Ret (Inr (v, True))
     | _ \<Rightarrow> Ret (Inr ([], True)))"

text \<open>The rows are put into a map one by one, later ones over earlier ones.\<close>

definition pg_list :: "pg_store \<Rightarrow> string \<Rightarrow> (pg_error + (string \<rightharpoonup> string)) prog" where
  "pg_list s namespace =
     Do (Query (SelectNamespace (pg_table s) namespace)) (\<lambda>r. case r of
       Failed e \<Rightarrow> Ret (Inl (ListFailed e))
     | Rows kvs \<Rightarrow> Ret (Inr (map_of_rev kvs))
     | _ \<Rightarrow> Ret (Inr Map.empty))"

definition pg_set :: "pg_store \<Rightarrow> set_entry \<Rightarrow> go_time \<Rightarrow> (pg_error + unit) prog" where
  "pg_set s entry now =
     begin_tx BeginFailed
       (Do (Query (SelectValue (pg_table s) (se_namespace entry) (se_key entry))) (\<lambda>r. case r of
          Failed e \<Rightarrow> Ret (Inl (ReadOldFailed e))
        | _ \<Rightarrow>
            (let old_value = (case r of Value v \<Rightarrow> v | _ \<Rightarrow> []) in
             exec_or (Upsert (pg_table s) (se_namespace entry) (se_key entry) (se_value entry) (se_by entry) now)
               UpsertFailed
               (exec_or (InsertAudit (pg_audit_table s) (se_namespace entry) (se_key entry) old_value
                    (se_value entry) (se_by entry) now) AuditFailed
                  commit_tx))))"

definition pg_delete :: "pg_store \<Rightarrow> string \<Rightarrow> string \<Rightarrow> string \<Rightarrow> go_time \<Rightarrow> (pg_error + unit) prog" where
  "pg_delete s namespace key by_who now =
     begin_tx BeginFailed
       (Do (Query (DeleteReturning (pg_table s) namespace key)) (\<lambda>r. case r of
          NoRows \<Rightarrow> commit_tx
        | Failed e \<Rightarrow> Ret (Inl (DeleteFailed e))
        | _ \<Rightarrow>
            (let old_value = (case r of Value v \<Rightarrow> v | _ \<Rightarrow> []) in
             exec_or (InsertAudit (pg_audit_table s) namespace key old_value [] by_who now) AuditFailed
               (exec_or (PgNotify (pg_notify_channel s)
                    \<lparr>np_namespace = namespace, np_key = key, np_old_value = old_value, np_new_value = [],
                     np_changed_by = by_who, np_changed_at = now\<rparr>) NotifyFailed
                  commit_tx))))"

definition pg_history :: "pg_store \<Rightarrow> string \<Rightarrow> string \<Rightarrow> history_options \<Rightarrow> (pg_error + audit_entry list) prog" where
  "pg_history s namespace key opts =
     (let o1 = normalised opts in
      Do (Query (SelectHistory (pg_audit_table s) namespace key (ho_limit o1) (ho_offset o1))) (\<lambda>r. case r of
        Failed e \<Rightarrow> Ret (Inl (HistoryFailed e))
      | Audits as \<Rightarrow> Ret (Inr as)
      | _ \<Rightarrow> Ret (Inr [])))"

definition pg_close :: "pg_store \<Rightarrow> pg_store" where
  "pg_close s = s"

subsection \<open>The database the code relies on\<close>

text \<open>The committed contents: values, audit records (oldest first), notifications sent.\<close>

record tables =
  tb_values :: kv
  tb_audit :: "audit_entry list"
  tb_notes :: "notify_payload list"

text \<open>The outcome of a transaction: it failed and nothing is committed (when the commit itself
  failed, the answer may have been lost and all of it be committed), or it succeeded and
  \<open>good\<close> holds of what is committed.\<close>

definition settled ::
  "('w \<Rightarrow> tables) \<Rightarrow> 'w \<Rightarrow> (tables \<Rightarrow> bool) \<Rightarrow> (pg_error + unit) \<times> 'w \<Rightarrow> bool" where
  "settled committed w good out \<longleftrightarrow>
     (case fst out of
        Inl e \<Rightarrow> committed (snd out) = committed w \<or> (\<exists>c. e = CommitFailed c) \<and> good (committed (snd out))
      | Inr u \<Rightarrow> good (committed (snd out)))"

text \<open>What the code promises of a write: the new value, one audit record, one notification.\<close>

definition wrote :: "store_op \<Rightarrow> tables \<Rightarrow> tables \<Rightarrow> bool" where
  "wrote op1 old new \<longleftrightarrow>
     tb_values new = kv_step op1 (tb_values old)
     \<and> (if op_effective (tb_values old) op1
        then (\<exists>a n. tb_audit new = tb_audit old @ [a] \<and> op_record (tb_values old) op1 a
                \<and> tb_notes new = tb_notes old @ [n] \<and> (np_namespace n, np_key n) = op_target op1
                \<and> np_old_value n = ae_old a \<and> np_new_value n = ae_new a \<and> np_changed_by n = ae_by a)
        else new = old)"

text \<open>
  \<open>committed\<close> is what other sessions see, \<open>working\<close> the contents inside the open
  transaction. A failed answer leaves the committed contents alone, except that a commit may
  have taken effect although its answer was lost; the rollback ends the transaction. The
  trigger of the schema adds a notification to every upsert; its time is the transaction's,
  not the entry's.
\<close>

locale pg_database =
  fixes h :: "cmd \<Rightarrow> 'w \<Rightarrow> resp \<times> 'w"
    and committed :: "'w \<Rightarrow> tables"
    and working :: "'w \<Rightarrow> tables option"
  assumes begin_ok: "h Begin w = (Done, w') \<Longrightarrow> committed w' = committed w \<and> working w' = Some (committed w)"
    and begin_answer: "h Begin w = (r, w') \<Longrightarrow> r = Done \<or> (\<exists>e. r = Failed e)"
    and select_value: "h (Query (SelectValue t ns k)) w = (r, w') \<Longrightarrow> working w = Some b \<Longrightarrow>
      (\<exists>e. r = Failed e) \<or> working w' = Some b \<and>
      r = (case tb_values b ns k of None \<Rightarrow> NoRows | Some v \<Rightarrow> Value v)"
    and upsert: "h (Exec (Upsert t ns k v by_who now)) w = (r, w') \<Longrightarrow> working w = Some b \<Longrightarrow>
      (\<exists>e. r = Failed e) \<or> r = Done \<and> (\<exists>at. working w' = Some (b\<lparr>
        tb_values := (tb_values b)(ns := (tb_values b ns)(k \<mapsto> v)),
        tb_notes := tb_notes b @ [\<lparr>np_namespace = ns, np_key = k,
          np_old_value = str_or_empty (tb_values b ns k), np_new_value = v, np_changed_by = by_who, np_changed_at = at\<rparr>]\<rparr>))"
    and insert_audit: "h (Exec (InsertAudit t ns k ov nv by_who now)) w = (r, w') \<Longrightarrow> working w = Some b \<Longrightarrow>
      (\<exists>e. r = Failed e) \<or> r = Done \<and> (\<exists>i. working w' = Some (b\<lparr>
        tb_audit := tb_audit b @ [\<lparr>ae_id = i, ae_namespace = ns, ae_key = k, ae_old = ov, ae_new = nv,
          ae_by = by_who, ae_at = now\<rparr>]\<rparr>))"
    and delete_returning: "h (Query (DeleteReturning t ns k)) w = (r, w') \<Longrightarrow> working w = Some b \<Longrightarrow>
      (\<exists>e. r = Failed e) \<or>
      (case tb_values b ns k of
         None \<Rightarrow> r = NoRows \<and> working w' = Some b
       | Some v \<Rightarrow> r = Value v \<and>
           working w' = Some (b\<lparr>tb_values := (tb_values b)(ns := (tb_values b ns)(k := None))\<rparr>))"
    and pg_notify: "h (Exec (PgNotify c event)) w = (r, w') \<Longrightarrow> working w = Some b \<Longrightarrow>
      (\<exists>e. r = Failed e) \<or> r = Done \<and> working w' = Some (b\<lparr>tb_notes := tb_notes b @ [event]\<rparr>)"
    and commit: "h Commit w = (r, w') \<Longrightarrow> working w = Some b \<Longrightarrow>
      (\<exists>e. r = Failed e) \<and> (committed w' = committed w \<or> committed w' = b) \<or> r = Done \<and> committed w' = b"
    and inside: "h (Query st) w = (r, w') \<or> h (Exec st) w = (r, w') \<Longrightarrow> committed w' = committed w"
    and begin_failed: "h Begin w = (Failed e, w') \<Longrightarrow> committed w' = committed w \<and> working w' = working w"
    and rollback: "h Rollback w = (r, w') \<Longrightarrow> committed w' = committed w \<and> working w' = None"
begin

lemma run_deferred:
  "run_prog h (with_deferred_rollback b) v =
     (fst (run_prog h b v), snd (h Rollback (snd (run_prog h b v))))"
  by (induction b arbitrary: v) (simp_all add: with_deferred_rollback_def split_beta)

lemma after_rollback:
  "committed (snd (h Rollback v)) = committed v" "working (snd (h Rollback v)) = None"
  using rollback [of v "fst (h Rollback v)" "snd (h Rollback v)"] by simp_all

lemma run_bind_Rollback:
  "settled committed w good (run_prog h body w1) \<Longrightarrow> settled committed w good (run_prog h (with_deferred_rollback body) w1)"
  by (auto simp: settled_def run_deferred after_rollback split: sum.splits)

text \<open>An operation in a transaction leaves no transaction open.\<close>

lemma begin_tx_idle:
  assumes "working w = None"
  shows "working (snd (run_prog h (begin_tx wrap body) w)) = None"
proof -
  obtain r w1 where r: "h Begin w = (r, w1)" by fastforce
  from begin_answer [OF r] r begin_failed assms show ?thesis
    by (auto simp: begin_tx_def run_deferred after_rollback)
qed

text \<open>A whole transaction, from its body run on the working copy.\<close>

lemma settled_begin:
  assumes "\<And>w1. committed w1 = committed w \<Longrightarrow> working w1 = Some (committed w) \<Longrightarrow>
      settled committed w good (run_prog h body w1)"
  shows "settled committed w good (run_prog h (begin_tx wrap body) w)"
proof -
  obtain r w1 where r: "h Begin w = (r, w1)" by fastforce
  from begin_answer [OF r] show ?thesis
  proof
    assume "r = Done"
    with begin_ok r assms [of w1] run_bind_Rollback show ?thesis by (simp add: begin_tx_def)
  next
    assume "\<exists>e. r = Failed e"
    then show ?thesis using begin_failed r by (auto simp: begin_tx_def settled_def)
  qed
qed

lemma settled_commit:
  assumes "committed w1 = committed w" "working w1 = Some b" "good b"
  shows "settled committed w good (run_prog h commit_tx w1)"
proof -
  obtain r w2 where r: "h Commit w1 = (r, w2)" by fastforce
  from commit [OF r assms(2)] assms r show ?thesis
    by (auto simp: commit_tx_def settled_def)
qed

lemma settled_exec:
  assumes "committed w1 = committed w"
    and "\<And>r w2. h (Exec st) w1 = (r, w2) \<Longrightarrow> \<forall>e. r \<noteq> Failed e \<Longrightarrow> committed w2 = committed w \<Longrightarrow>
      settled committed w good (run_prog h k w2)"
  shows "settled committed w good (run_prog h (exec_or st wrap k) w1)"
proof -
  obtain r w2 where r: "h (Exec st) w1 = (r, w2)" by fastforce
  have c: "committed w2 = committed w" using inside r assms(1) by metis
  show ?thesis
  proof (cases "\<exists>e. r = Failed e")
    case True
    then show ?thesis using r c by (auto simp: exec_or_def settled_def)
  next
    case False
    with assms(2) [OF r _ c] r show ?thesis by (cases r) (simp_all add: exec_or_def)
  qed
qed

lemma pg_set_settled: "settled committed w (wrote (OpSet e now) (committed w)) (run_prog h (pg_set s e now) w)"
  unfolding pg_set_def
proof (rule settled_begin)
  let ?T = "committed w" and ?ns = "se_namespace e" and ?k = "se_key e"
  fix w1 assume w1: "committed w1 = committed w" "working w1 = Some ?T"
  obtain r w2 where r: "h (Query (SelectValue (pg_table s) ?ns ?k)) w1 = (r, w2)" by fastforce
  have c2: "committed w2 = committed w" using inside r w1 by metis
  define ov where "ov = (case r of Value v \<Rightarrow> v | _ \<Rightarrow> [])"
  let ?rest = "exec_or (Upsert (pg_table s) ?ns ?k (se_value e) (se_by e) now) UpsertFailed
     (exec_or (InsertAudit (pg_audit_table s) ?ns ?k ov (se_value e) (se_by e) now) AuditFailed commit_tx)"
  have rest: "settled committed w (wrote (OpSet e now) ?T) (run_prog h ?rest w2)" if nf: "\<forall>x. r \<noteq> Failed x"
  proof (rule settled_exec [OF c2])
    have w2: "working w2 = Some ?T" "ov = str_or_empty (tb_values ?T ?ns ?k)"
      using select_value [OF r w1(2)] nf by (auto simp: ov_def split: option.splits)
    fix r3 w3 assume r3: "h (Exec (Upsert (pg_table s) ?ns ?k (se_value e) (se_by e) now)) w2 = (r3, w3)"
      "\<forall>x. r3 \<noteq> Failed x" and c3: "committed w3 = committed w"
    then obtain at where w3: "working w3 = Some (?T\<lparr>
        tb_values := (tb_values ?T)(?ns := (tb_values ?T ?ns)(?k \<mapsto> se_value e)),
        tb_notes := tb_notes ?T @ [\<lparr>np_namespace = ?ns, np_key = ?k, np_old_value = ov, np_new_value = se_value e,
          np_changed_by = se_by e, np_changed_at = at\<rparr>]\<rparr>)"
      using upsert [OF r3(1) w2(1)] w2(2) by auto
    show "settled committed w (wrote (OpSet e now) ?T)
        (run_prog h (exec_or (InsertAudit (pg_audit_table s) ?ns ?k ov (se_value e) (se_by e) now) AuditFailed commit_tx) w3)"
    proof (rule settled_exec [OF c3])
      fix r4 w4 assume r4: "h (Exec (InsertAudit (pg_audit_table s) ?ns ?k ov (se_value e) (se_by e) now)) w3 = (r4, w4)"
        "\<forall>x. r4 \<noteq> Failed x" and c4: "committed w4 = committed w"
      with insert_audit [OF r4(1) w3] w2(2) show "settled committed w (wrote (OpSet e now) ?T) (run_prog h commit_tx w4)"
        by (auto intro!: settled_commit simp: wrote_def op_effective_def op_record_def op_target_def op_result_def)
    qed
  qed
  show "settled committed w (wrote (OpSet e now) ?T) (run_prog h (Do (Query (SelectValue (pg_table s) ?ns ?k)) (\<lambda>r. case r of
          Failed e \<Rightarrow> Ret (Inl (ReadOldFailed e))
        | _ \<Rightarrow> (let old_value = (case r of Value v \<Rightarrow> v | _ \<Rightarrow> []) in
             exec_or (Upsert (pg_table s) ?ns ?k (se_value e) (se_by e) now) UpsertFailed
               (exec_or (InsertAudit (pg_audit_table s) ?ns ?k old_value (se_value e) (se_by e) now) AuditFailed
                  commit_tx)))) w1)"
    using r c2 rest by (cases r) (simp_all add: settled_def ov_def)
qed

lemma pg_delete_settled:
  "settled committed w (wrote (OpDelete ns k b now) (committed w)) (run_prog h (pg_delete s ns k b now) w)"
  unfolding pg_delete_def
proof (rule settled_begin)
  let ?T = "committed w" and ?good = "wrote (OpDelete ns k b now) (committed w)"
  fix w1 assume w1: "committed w1 = committed w" "working w1 = Some ?T"
  obtain r w2 where r: "h (Query (DeleteReturning (pg_table s) ns k)) w1 = (r, w2)" by fastforce
  have c2: "committed w2 = committed w" using inside r w1 by metis
  let ?n = "\<lambda>v. \<lparr>np_namespace = ns, np_key = k, np_old_value = v, np_new_value = [], np_changed_by = b, np_changed_at = now\<rparr>"
  have row: "settled committed w ?good (run_prog h
      (exec_or (InsertAudit (pg_audit_table s) ns k v [] b now) AuditFailed
        (exec_or (PgNotify (pg_notify_channel s) (?n v)) NotifyFailed commit_tx)) w2)"
    if v: "r = Value v" for v
  proof (rule settled_exec [OF c2])
    have t: "tb_values ?T ns k = Some v"
      "working w2 = Some (?T\<lparr>tb_values := (tb_values ?T)(ns := (tb_values ?T ns)(k := None))\<rparr>)"
      using delete_returning [OF r w1(2)] v by (auto split: option.splits)
    fix r3 w3 assume r3: "h (Exec (InsertAudit (pg_audit_table s) ns k v [] b now)) w2 = (r3, w3)"
      "\<forall>x. r3 \<noteq> Failed x" and c3: "committed w3 = committed w"
    obtain i where w3: "working w3 = Some (?T\<lparr>tb_values := (tb_values ?T)(ns := (tb_values ?T ns)(k := None)),
        tb_audit := tb_audit ?T @ [\<lparr>ae_id = i, ae_namespace = ns, ae_key = k, ae_old = v, ae_new = [],
          ae_by = b, ae_at = now\<rparr>]\<rparr>)"
      using insert_audit [OF r3(1) t(2)] r3(2) by auto
    show "settled committed w ?good
        (run_prog h (exec_or (PgNotify (pg_notify_channel s) (?n v)) NotifyFailed commit_tx) w3)"
    proof (rule settled_exec [OF c3])
      fix r4 w4 assume r4: "h (Exec (PgNotify (pg_notify_channel s) (?n v))) w3 = (r4, w4)"
        "\<forall>x. r4 \<noteq> Failed x" and c4: "committed w4 = committed w"
      have "working w4 = Some (?T\<lparr>tb_values := (tb_values ?T)(ns := (tb_values ?T ns)(k := None)),
          tb_audit := tb_audit ?T @ [\<lparr>ae_id = i, ae_namespace = ns, ae_key = k, ae_old = v, ae_new = [],
          ae_by = b, ae_at = now\<rparr>], tb_notes := tb_notes ?T @ [?n v]\<rparr>)"
        using pg_notify [OF r4(1) w3] r4(2) by auto
      then show "settled committed w ?good (run_prog h commit_tx w4)"
        by (rule settled_commit [OF c4])
           (simp add: wrote_def op_effective_def op_record_def op_target_def op_result_def t(1))
    qed
  qed
  have none: "settled committed w ?good (run_prog h commit_tx w2)" if "r = NoRows"
  proof -
    have "tb_values ?T ns k = None" "working w2 = Some ?T"
      using delete_returning [OF r w1(2)] that by (auto split: option.splits)
    then show ?thesis
      by (intro settled_commit [OF c2]) (auto simp: wrote_def op_effective_def fun_eq_iff)
  qed
  have failed: "settled committed w ?good (Inl e, w2)" for e by (simp add: settled_def c2)
  have "r = NoRows \<or> (\<exists>v. r = Value v) \<or> (\<exists>e. r = Failed e)"
    using delete_returning [OF r w1(2)] by (auto split: option.splits)
  then show "settled committed w ?good (run_prog h (Do (Query (DeleteReturning (pg_table s) ns k)) (\<lambda>r. case r of
          NoRows \<Rightarrow> commit_tx
        | Failed e \<Rightarrow> Ret (Inl (DeleteFailed e))
        | _ \<Rightarrow> (let old_value = (case r of Value v \<Rightarrow> v | _ \<Rightarrow> []) in
             exec_or (InsertAudit (pg_audit_table s) ns k old_value [] b now) AuditFailed
               (exec_or (PgNotify (pg_notify_channel s) (?n old_value)) NotifyFailed commit_tx)))) w1)"
    using r row none failed by (elim disjE exE) (simp_all add: Let_def)
qed

end

end
