(* ===== verification/Pg_Contract.thy ===== *)
theory Pg_Contract
  imports Pg_Store
begin

text \<open>
  The Postgres store as a store: what \<open>Get\<close>, \<open>List\<close> and \<open>History\<close> answer on a database
  whose queries read the committed tables, and what any sequence of writes leaves there,
  whichever of them fail. The sequence refines the abstract key-value store on the
  operations that took effect, and the audit trail of every key stays linked.
\<close>

subsection \<open>Reading\<close>

text \<open>Outside a transaction a query reads the committed contents and changes nothing.\<close>

locale pg_queries = pg_database h committed working
  for h :: "cmd \<Rightarrow> 'w \<Rightarrow> resp \<times> 'w"
    and committed :: "'w \<Rightarrow> tables"
    and working :: "'w \<Rightarrow> tables option" +
  assumes idle: "h (Query st) w = (r, w') \<Longrightarrow> working w = None \<Longrightarrow> working w' = None"
    and read_value: "h (Query (SelectValue t ns k)) w = (r, w') \<Longrightarrow> working w = None \<Longrightarrow>
      (\<exists>e. r = Failed e) \<or> r = (case tb_values (committed w) ns k of None \<Rightarrow> NoRows | Some v \<Rightarrow> Value v)"
    and read_namespace: "h (Query (SelectNamespace t ns)) w = (r, w') \<Longrightarrow> working w = None \<Longrightarrow>
      (\<exists>e. r = Failed e) \<or>
      (\<exists>kvs. r = Rows kvs \<and> distinct (map fst kvs) \<and> map_of kvs = tb_values (committed w) ns)"
    and read_history: "h (Query (SelectHistory t ns k limit offset)) w = (r, w') \<Longrightarrow> working w = None \<Longrightarrow>
      (\<exists>e. r = Failed e) \<or>
      r = Audits (take (nat limit) (drop (nat offset)
        (rev (filter (\<lambda>a. ae_namespace a = ns \<and> ae_key a = k) (tb_audit (committed w))))))"
begin

lemma pg_get_answer:
  assumes "working w = None" "run_prog h (pg_get s ns k) w = (r, w')"
  shows "committed w' = committed w \<and> working w' = None
     \<and> ((\<exists>e. r = Inl (GetFailed e)) \<or>
        r = Inr (case tb_values (committed w) ns k of None \<Rightarrow> ([], False) | Some v \<Rightarrow> (v, True)))"
proof -
  obtain a w1 where a: "h (Query (SelectValue (pg_table s) ns k)) w = (a, w1)" by fastforce
  with assms(2) have "w' = w1" by (auto simp: pg_get_def split: resp.splits)
  with a read_value [OF a assms(1)] idle [OF a assms(1)] inside [of "SelectValue (pg_table s) ns k" w a w1] assms(2)
  show ?thesis by (auto simp: pg_get_def split: option.splits)
qed

lemma pg_list_answer:
  assumes "working w = None" "run_prog h (pg_list s ns) w = (r, w')"
  shows "committed w' = committed w \<and> working w' = None
     \<and> ((\<exists>e. r = Inl (ListFailed e)) \<or> r = Inr (tb_values (committed w) ns))"
proof -
  obtain a w1 where a: "h (Query (SelectNamespace (pg_table s) ns)) w = (a, w1)" by fastforce
  with assms(2) have "w' = w1" by (auto simp: pg_list_def split: resp.splits)
  with a read_namespace [OF a assms(1)] idle [OF a assms(1)] inside [of "SelectNamespace (pg_table s) ns" w a w1] assms(2)
  show ?thesis by (auto simp: pg_list_def map_of_rev_distinct)
qed

lemma pg_history_answer:
  assumes "working w = None" "run_prog h (pg_history s ns k opts) w = (r, w')"
  shows "committed w' = committed w \<and> working w' = None
     \<and> ((\<exists>e. r = Inl (HistoryFailed e)) \<or>
        r = Inr (page opts (rev (filter (\<lambda>a. ae_namespace a = ns \<and> ae_key a = k) (tb_audit (committed w))))))"
proof -
  let ?q = "SelectHistory (pg_audit_table s) ns k (ho_limit (normalised opts)) (ho_offset (normalised opts))"
  obtain a w1 where a: "h (Query ?q) w = (a, w1)" by fastforce
  with assms(2) have "w' = w1" by (auto simp: pg_history_def Let_def split: resp.splits)
  with a read_history [OF a assms(1)] idle [OF a assms(1)] inside [of ?q w a w1] assms(2)
  show ?thesis by (auto simp: pg_history_def page_def Let_def)
qed

end

subsection \<open>Sequences of writes\<close>

definition pg_op :: "pg_store \<Rightarrow> store_op \<Rightarrow> (pg_error + unit) prog" where
  "pg_op s op1 = (case op1 of OpSet e now \<Rightarrow> pg_set s e now
                  | OpDelete ns k by_who now \<Rightarrow> pg_delete s ns k by_who now)"

text \<open>The operations with their results, and the database afterwards.\<close>

fun pg_run ::
  "(cmd \<Rightarrow> 'w \<Rightarrow> resp \<times> 'w) \<Rightarrow> pg_store \<Rightarrow> store_op list \<Rightarrow> 'w
     \<Rightarrow> (store_op \<times> (pg_error + unit)) list \<times> 'w" where
  "pg_run h s [] w = ([], w)"
| "pg_run h s (op1 # ops) w =
     (let (r, w1) = run_prog h (pg_op s op1) w; (rs, w2) = pg_run h s ops w1 in ((op1, r) # rs, w2))"

text \<open>Which operations took effect: those that succeeded, and possibly some whose commit failed.\<close>

inductive took_effect :: "(store_op \<times> (pg_error + unit)) list \<Rightarrow> store_op list \<Rightarrow> bool" where
  te_nil: "took_effect [] []"
| te_done: "took_effect rs ops \<Longrightarrow> took_effect ((op1, Inr u) # rs) (op1 # ops)"
| te_maybe: "took_effect rs ops \<Longrightarrow> took_effect ((op1, Inl (CommitFailed e)) # rs) (op1 # ops)"
| te_failed: "took_effect rs ops \<Longrightarrow> took_effect ((op1, Inl e) # rs) ops"

text \<open>Every key's audit records are linked and end in its value.\<close>

definition key_audit :: "string \<Rightarrow> string \<Rightarrow> tables \<Rightarrow> audit_entry list" where
  "key_audit ns k b = filter (\<lambda>a. ae_namespace a = ns \<and> ae_key a = k) (tb_audit b)"

definition tables_linked :: "tables \<Rightarrow> bool" where
  "tables_linked b \<longleftrightarrow> (\<forall>ns k. linked [] (key_audit ns k b)
     \<and> trail_value [] (key_audit ns k b) = str_or_empty (tb_values b ns k))"

lemma wrote_values: "wrote op1 old new \<Longrightarrow> tb_values new = kv_step op1 (tb_values old)"
  by (simp add: wrote_def)

lemma wrote_linked:
  assumes "wrote op1 old new" "tables_linked old"
  shows "tables_linked new"
proof (cases "op_effective (tb_values old) op1")
  case True
  then obtain a where a: "tb_audit new = tb_audit old @ [a]" "op_record (tb_values old) op1 a"
    using assms(1) by (auto simp: wrote_def)
  then have "key_audit ns k new =
      (if op_target op1 = (ns, k) then key_audit ns k old @ [a] else key_audit ns k old)" for ns k
    by (auto simp: key_audit_def op_record_def)
  with a(2) assms(2) wrote_values [OF assms(1)] show ?thesis
    by (auto simp: tables_linked_def linked_snoc trail_value_snoc kv_step_eq op_record_def
        simp del: kv_step.simps)
qed (use assms in \<open>auto simp: wrote_def\<close>)

context pg_database begin

lemma pg_op_settled: "settled committed w (wrote op1 (committed w)) (run_prog h (pg_op s op1) w)"
  by (cases op1) (simp_all add: pg_op_def pg_set_settled pg_delete_settled)

lemma pg_op_idle: "working w = None \<Longrightarrow> working (snd (run_prog h (pg_op s op1) w)) = None"
  by (cases op1) (simp_all add: pg_op_def pg_set_def pg_delete_def begin_tx_idle)

lemma pg_run_effect:
  assumes "pg_run h s ops w = (rs, w')" "working w = None"
  shows "working w' = None \<and> map fst rs = ops
     \<and> (\<exists>eff. took_effect rs eff \<and> tb_values (committed w') = kv_run eff (tb_values (committed w)))
     \<and> (tables_linked (committed w) \<longrightarrow> tables_linked (committed w'))"
  using assms
proof (induction ops arbitrary: w rs)
  case Nil
  then show ?case by (auto simp: kv_run_def intro: te_nil)
next
  case (Cons op1 ops)
  obtain r w1 where r: "run_prog h (pg_op s op1) w = (r, w1)" by fastforce
  obtain rs1 where rs1: "pg_run h s ops w1 = (rs1, w')" "rs = (op1, r) # rs1"
    using Cons.prems(1) r by (auto split: prod.splits)
  have "working w1 = None" using pg_op_idle [OF Cons.prems(2), of s op1] r by simp
  from Cons.IH [OF rs1(1) this] obtain eff where
    eff: "took_effect rs1 eff" "tb_values (committed w') = kv_run eff (tb_values (committed w1))"
    and rest: "working w' = None" "map fst rs1 = ops"
      "tables_linked (committed w1) \<longrightarrow> tables_linked (committed w')" by blast
  have "settled committed w (wrote op1 (committed w)) (r, w1)"
    using pg_op_settled [of w op1 s] r by simp
  then consider (skipped) e where "r = Inl e" "committed w1 = committed w"
    | (applied) "wrote op1 (committed w) (committed w1)" "(\<exists>u. r = Inr u) \<or> (\<exists>e. r = Inl (CommitFailed e))"
    by (auto simp: settled_def split: sum.splits)
  then show ?case
  proof cases
    case skipped
    with eff rest rs1(2) show ?thesis by (auto intro: te_failed)
  next
    case applied
    have "took_effect rs (op1 # eff)"
      using applied(2) eff(1) rs1(2) by (auto intro: te_done te_maybe)
    moreover have "tb_values (committed w') = kv_run (op1 # eff) (tb_values (committed w))"
      using eff(2) wrote_values [OF applied(1)] by (simp add: kv_run_def)
    ultimately show ?thesis using rest rs1(2) wrote_linked [OF applied(1)] by auto
  qed
qed

end

end
