(* ===== verification/Pg_Tables.thy ===== *)
theory Pg_Tables
  imports Pg_Contract "HOL-Library.DAList"
begin

text \<open>
  A database with the behaviour \<open>pg_database\<close> and \<open>pg_queries\<close> ask for: rows under the
  unique key (namespace, key), an audit table, one open transaction, and a script that says
  which commands fail and which commits lose their answer. It shows that the laws can hold
  together, and the properties of the Postgres store are evaluated on it.
\<close>

text \<open>An association list with distinct keys is a table with a unique constraint.\<close>

record pg_rows =
  pr_values :: "(string \<times> string, string) alist"
  pr_audit :: "audit_entry list"
  pr_notes :: "notify_payload list"

definition tables_of :: "pg_rows \<Rightarrow> tables" where
  "tables_of d = \<lparr>tb_values = (\<lambda>ns k. DAList.lookup (pr_values d) (ns, k)),
     tb_audit = pr_audit d, tb_notes = pr_notes d\<rparr>"

datatype fault = Fine | Fault | LostAnswer

record pg_world =
  pw_committed :: pg_rows
  pw_working :: "pg_rows option"
  pw_faults :: "fault list"

definition upsert_row :: "string \<Rightarrow> string \<Rightarrow> string \<Rightarrow> string \<Rightarrow> go_time \<Rightarrow> pg_rows \<Rightarrow> pg_rows" where
  "upsert_row ns k v by_who at b =
     b\<lparr>pr_values := DAList.update (ns, k) v (pr_values b),
       pr_notes := pr_notes b @ [\<lparr>np_namespace = ns, np_key = k,
         np_old_value = str_or_empty (DAList.lookup (pr_values b) (ns, k)), np_new_value = v, np_changed_by = by_who, np_changed_at = at\<rparr>]\<rparr>"

definition audit_row ::
  "string \<Rightarrow> string \<Rightarrow> string \<Rightarrow> string \<Rightarrow> string \<Rightarrow> go_time \<Rightarrow> pg_rows \<Rightarrow> pg_rows" where
  "audit_row ns k ov nv by_who now b =
     b\<lparr>pr_audit := pr_audit b @ [\<lparr>ae_id = int (length (pr_audit b)) + 1, ae_namespace = ns, ae_key = k,
         ae_old = ov, ae_new = nv, ae_by = by_who, ae_at = now\<rparr>]\<rparr>"

definition delete_row :: "string \<Rightarrow> string \<Rightarrow> pg_rows \<Rightarrow> pg_rows" where
  "delete_row ns k b = b\<lparr>pr_values := DAList.delete (ns, k) (pr_values b)\<rparr>"

definition namespace_rows :: "string \<Rightarrow> ((string \<times> string) \<times> string) list \<Rightarrow> (string \<times> string) list" where
  "namespace_rows ns rows = map (\<lambda>r. (snd (fst r), snd r)) (filter (\<lambda>r. fst (fst r) = ns) rows)"

fun query_tables :: "stmt \<Rightarrow> pg_rows \<Rightarrow> resp \<times> pg_rows" where
  "query_tables (SelectValue t ns k) b =
     ((case DAList.lookup (pr_values b) (ns, k) of None \<Rightarrow> NoRows | Some v \<Rightarrow> Value v), b)"
| "query_tables (DeleteReturning t ns k) b =
     (case DAList.lookup (pr_values b) (ns, k) of
        None \<Rightarrow> (NoRows, b) | Some v \<Rightarrow> (Value v, delete_row ns k b))"
| "query_tables (SelectNamespace t ns) b = (Rows (namespace_rows ns (DAList.impl_of (pr_values b))), b)"
| "query_tables (SelectHistory t ns k limit offset) b =
     (Audits (take (nat limit) (drop (nat offset)
        (rev (filter (\<lambda>a. ae_namespace a = ns \<and> ae_key a = k) (pr_audit b))))), b)"
| "query_tables st b = (Failed ''no query'', b)"

fun exec_tables :: "stmt \<Rightarrow> pg_rows \<Rightarrow> pg_rows" where
  "exec_tables (Upsert t ns k v by_who now) b = upsert_row ns k v by_who now b"
| "exec_tables (InsertAudit t ns k ov nv by_who now) b = audit_row ns k ov nv by_who now b"
| "exec_tables (PgNotify c event) b = b\<lparr>pr_notes := pr_notes b @ [event]\<rparr>"
| "exec_tables st b = b"

text \<open>Outside a transaction a query only reads.\<close>

fun run_cmd :: "cmd \<Rightarrow> pg_world \<Rightarrow> resp \<times> pg_world" where
  "run_cmd Begin w = (Done, w\<lparr>pw_working := Some (pw_committed w)\<rparr>)"
| "run_cmd (Query st) w =
     (case pw_working w of
        None \<Rightarrow> (fst (query_tables st (pw_committed w)), w)
      | Some b \<Rightarrow> (let (r, b') = query_tables st b in (r, w\<lparr>pw_working := Some b'\<rparr>)))"
| "run_cmd (Exec st) w =
     (case pw_working w of
        None \<Rightarrow> (Failed ''no transaction'', w)
      | Some b \<Rightarrow> (Done, w\<lparr>pw_working := Some (exec_tables st b)\<rparr>))"
| "run_cmd Commit w =
     (case pw_working w of
        None \<Rightarrow> (Failed ''no transaction'', w)
      | Some b \<Rightarrow> (Done, w\<lparr>pw_committed := b, pw_working := None\<rparr>))"
| "run_cmd Rollback w = (Done, w\<lparr>pw_working := None\<rparr>)"

text \<open>The script: a command fails when its entry says so; a commit can succeed and lose its
  answer; a rollback ends the transaction whatever it answers.\<close>

definition pg_handler :: "cmd \<Rightarrow> pg_world \<Rightarrow> resp \<times> pg_world" where
  "pg_handler c w =
     (case pw_faults w of
        [] \<Rightarrow> run_cmd c w
      | f # fs \<Rightarrow>
          (let w' = w\<lparr>pw_faults := fs\<rparr> in
           if f = Fine then run_cmd c w'
           else if c = Commit \<and> f = LostAnswer then (Failed ''script'', snd (run_cmd c w'))
           else if c = Rollback then (Failed ''script'', w'\<lparr>pw_working := None\<rparr>)
           else (Failed ''script'', w')))"

lemma lookup_impl_of: "DAList.lookup al = map_of (DAList.impl_of al)"
  by (simp add: lookup.rep_eq)

lemma tables_of_writes [simp]:
  "tables_of (delete_row ns k b) = (tables_of b)\<lparr>tb_values :=
     (tb_values (tables_of b))(ns := (tb_values (tables_of b) ns)(k := None))\<rparr>"
  "tables_of (upsert_row ns k v by_who at b) = (tables_of b)\<lparr>
     tb_values := (tb_values (tables_of b))(ns := (tb_values (tables_of b) ns)(k \<mapsto> v)),
     tb_notes := tb_notes (tables_of b) @ [\<lparr>np_namespace = ns, np_key = k,
       np_old_value = str_or_empty (tb_values (tables_of b) ns k), np_new_value = v, np_changed_by = by_who, np_changed_at = at\<rparr>]\<rparr>"
  "tables_of (audit_row ns k ov nv by_who now b) = (tables_of b)\<lparr>
     tb_audit := tb_audit (tables_of b) @ [\<lparr>ae_id = int (length (pr_audit b)) + 1, ae_namespace = ns,
       ae_key = k, ae_old = ov, ae_new = nv, ae_by = by_who, ae_at = now\<rparr>]\<rparr>"
  "tables_of (b\<lparr>pr_notes := ns2\<rparr>) = (tables_of b)\<lparr>tb_notes := ns2\<rparr>"
  by (auto simp: tables_of_def delete_row_def upsert_row_def audit_row_def lookup_update fun_eq_iff)

lemma tables_of_sel [simp]:
  "tb_values (tables_of b) ns k = DAList.lookup (pr_values b) (ns, k)"
  "tb_audit (tables_of b) = pr_audit b" "tb_notes (tables_of b) = pr_notes b"
  by (simp_all add: tables_of_def)

lemma namespace_rows_simps [simp]:
  "namespace_rows ns [] = []"
  "namespace_rows ns (r # rows) =
     (if fst (fst r) = ns then (snd (fst r), snd r) # namespace_rows ns rows else namespace_rows ns rows)"
  by (simp_all add: namespace_rows_def)

lemma namespace_rows_keys: "fst ` set (namespace_rows ns rows) = {k. (ns, k) \<in> fst ` set rows}"
  by (force simp: namespace_rows_def)

lemma namespace_rows_map:
  "distinct (map fst rows) \<Longrightarrow> distinct (map fst (namespace_rows ns rows))
     \<and> map_of (namespace_rows ns rows) k = map_of rows (ns, k)"
proof (induction rows)
  case (Cons r rows)
  obtain n key v where r: "r = ((n, key), v)" by (metis prod.exhaust)
  with Cons namespace_rows_keys [of ns rows] show ?case by auto
qed simp

text \<open>The abstract contents of a world.\<close>

definition pg_committed :: "pg_world \<Rightarrow> tables" where
  "pg_committed w = tables_of (pw_committed w)"

definition pg_working :: "pg_world \<Rightarrow> tables option" where
  "pg_working w = map_option tables_of (pw_working w)"

lemma pg_working_Some: "pg_working w = Some b \<Longrightarrow> \<exists>d. pw_working w = Some d \<and> b = tables_of d"
  by (auto simp: pg_working_def)

interpretation pg_tables: pg_queries pg_handler pg_committed pg_working
proof unfold_locales
  note defs = pg_handler_def pg_committed_def pg_working_def Let_def
  fix w w' r b st
  show "pg_handler (Query st) w = (r, w') \<or> pg_handler (Exec st) w = (r, w') \<Longrightarrow>
      pg_committed w' = pg_committed w"
    by (auto simp: defs split: list.splits if_splits option.splits prod.splits)
  show "pg_handler (Query (DeleteReturning t ns k)) w = (r, w') \<Longrightarrow> pg_working w = Some b \<Longrightarrow>
      (\<exists>e. r = Failed e) \<or>
      (case tb_values b ns k of
         None \<Rightarrow> r = NoRows \<and> pg_working w' = Some b
       | Some v \<Rightarrow> r = Value v \<and>
           pg_working w' = Some (b\<lparr>tb_values := (tb_values b)(ns := (tb_values b ns)(k := None))\<rparr>))" for t ns k
    by (auto dest!: pg_working_Some simp: defs split: list.splits if_splits option.splits)
  show "pg_handler (Query (SelectValue t ns k)) w = (r, w') \<Longrightarrow> pg_working w = Some b \<Longrightarrow>
      (\<exists>e. r = Failed e) \<or> pg_working w' = Some b \<and>
      r = (case tb_values b ns k of None \<Rightarrow> NoRows | Some v \<Rightarrow> Value v)" for t ns k
    by (auto dest!: pg_working_Some simp: defs split: list.splits if_splits)
  show "pg_handler (Query (SelectNamespace t ns)) w = (r, w') \<Longrightarrow> pg_working w = None \<Longrightarrow>
      (\<exists>e. r = Failed e) \<or>
      (\<exists>kvs. r = Rows kvs \<and> distinct (map fst kvs) \<and> map_of kvs = tb_values (pg_committed w) ns)" for t ns
    using namespace_rows_map [OF impl_of_distinct]
    by (auto simp: defs lookup_impl_of fun_eq_iff split: list.splits if_splits)
qed (auto dest!: pg_working_Some simp: pg_handler_def pg_committed_def pg_working_def Let_def
      split: list.splits if_splits option.splits prod.splits)

subsection \<open>Properties of the transactions\<close>

text \<open>C30: \<open>Set\<close> and \<open>Delete\<close> of the Postgres store are atomic on every database that behaves as
  \<open>pg_database\<close> says, whichever commands fail: on an error nothing is committed (after a
  failed commit either nothing or all of it is); on success the value is written or removed together with one audit record, which has the
  old and the new value, and one notification of the same change; and the deletion of a
  missing key commits nothing new.\<close>

theorem pg_writes_atomic:
  assumes "pg_database h committed working"
  shows "settled committed w (wrote (OpSet e now) (committed w)) (run_prog h (pg_set s e now) w)
     \<and> settled committed w (wrote (OpDelete ns k b now) (committed w)) (run_prog h (pg_delete s ns k b now) w)"
  using pg_database.pg_set_settled [OF assms] pg_database.pg_delete_settled [OF assms] by blast

definition pg_default :: pg_store where
  "pg_default = \<lparr>pg_table = default_table, pg_audit_table = default_audit_table,
     pg_notify_channel = default_notify_channel, pg_logger = default_logger,
     pg_max_backoff = default_max_backoff\<rparr>"

definition sample_world :: "fault list \<Rightarrow> pg_world" where
  "sample_world fs = \<lparr>pw_committed = \<lparr>pr_values = DAList.empty, pr_audit = [], pr_notes = []\<rparr>,
     pw_working = None, pw_faults = fs\<rparr>"

lemma sample_set:
  "fst (run_prog pg_handler (pg_set pg_default \<lparr>se_namespace = ''a'', se_key = ''k'', se_value = ''x'', se_by = ''u''\<rparr> 7)
     (sample_world [])) = Inr ()"
  by (simp add: pg_set_def begin_tx_def pg_handler_def sample_world_def with_deferred_rollback_def
      exec_or_def commit_tx_def)

theorem pg_writes_atomic_witness:
  "tb_values (pg_committed (snd (run_prog pg_handler
      (pg_set pg_default \<lparr>se_namespace = ''a'', se_key = ''k'', se_value = ''x'', se_by = ''u''\<rparr> 7) (sample_world []))))
     ''a'' ''k'' = Some ''x''"
  using pg_writes_atomic [OF pg_tables.pg_database_axioms, of "sample_world []"
      "\<lparr>se_namespace = ''a'', se_key = ''k'', se_value = ''x'', se_by = ''u''\<rparr>" 7 pg_default "''a''" "''k''" "''u''"]
    sample_set
  by (simp add: settled_def wrote_def)

text \<open>A write, and a second one whose audit record fails: Begin, read, upsert, then the fault.\<close>

definition sample_ops :: "store_op list" where
  "sample_ops = [OpSet \<lparr>se_namespace = ''a'', se_key = ''k'', se_value = ''x'', se_by = ''u''\<rparr> 7,
     OpSet \<lparr>se_namespace = ''a'', se_key = ''k'', se_value = ''y'', se_by = ''v''\<rparr> 8]"

definition sample_faults :: "fault list" where
  "sample_faults = [Fine, Fine, Fine, Fine, Fine, Fine, Fine, Fine, Fine, Fault]"

lemmas pg_eval = pg_run.simps pg_op_def pg_set_def pg_get_def pg_list_def pg_history_def begin_tx_def pg_handler_def
  sample_world_def with_deferred_rollback_def exec_or_def commit_tx_def sample_ops_def
  sample_faults_def upsert_row_def audit_row_def Let_def

lemma sample_run:
  "fst (pg_run pg_handler pg_default sample_ops (sample_world sample_faults)) =
     [(sample_ops ! 0, Inr ()), (sample_ops ! 1, Inl (AuditFailed ''script''))]"
  by (simp add: pg_eval)

text \<open>C31: The Postgres store refines the abstract store. After any sequence of writes and
  deletions, whichever commands of the database fail, \<open>Get\<close> and \<open>List\<close> fail or answer what
  the abstract map holds after the operations that took effect: all that succeeded, none
  that failed, except that one whose commit failed may count.\<close>

theorem pg_store_refines:
  assumes "pg_queries h committed working" "working w = None" "pg_run h s ops w = (rs, w')"
    and "run_prog h (pg_get s ns k) w' = (r, w1)" "run_prog h (pg_list s ns) w' = (l, w2)"
  shows "\<exists>eff. map fst rs = ops \<and> took_effect rs eff
     \<and> ((\<exists>e. r = Inl (GetFailed e)) \<or>
        r = Inr (case kv_run eff (tb_values (committed w)) ns k of None \<Rightarrow> ([], False) | Some v \<Rightarrow> (v, True)))
     \<and> ((\<exists>e. l = Inl (ListFailed e)) \<or> l = Inr (kv_run eff (tb_values (committed w)) ns))"
proof -
  have db: "pg_database h committed working" using assms(1) by (simp add: pg_queries_def)
  from pg_database.pg_run_effect [OF db assms(3,2)] obtain eff where
    eff: "working w' = None" "map fst rs = ops" "took_effect rs eff"
      "tb_values (committed w') = kv_run eff (tb_values (committed w))" by blast
  with pg_queries.pg_get_answer [OF assms(1) eff(1) assms(4)]
    pg_queries.pg_list_answer [OF assms(1) eff(1) assms(5)] show ?thesis by auto
qed

theorem pg_store_refines_witness:
  "\<exists>eff. took_effect [(sample_ops ! 0, Inr ()), (sample_ops ! 1, Inl (AuditFailed ''script''))] eff
     \<and> kv_run eff (\<lambda>ns k. None) ''a'' ''k'' = Some ''x''"
proof -
  let ?w = "snd (pg_run pg_handler pg_default sample_ops (sample_world sample_faults))"
  have run: "pg_run pg_handler pg_default sample_ops (sample_world sample_faults) =
      ([(sample_ops ! 0, Inr ()), (sample_ops ! 1, Inl (AuditFailed ''script''))], ?w)"
    by (rule prod_eqI) (simp_all only: sample_run fst_conv snd_conv)
  have idle: "pg_working (sample_world sample_faults) = None" by (simp add: pg_working_def sample_world_def)
  have get: "run_prog pg_handler (pg_get pg_default ''a'' ''k'') ?w = (Inr (''x'', True), ?w)"
    by (simp add: pg_eval)
  obtain l w2 where l: "run_prog pg_handler (pg_list pg_default ''a'') ?w = (l, w2)" by fastforce
  have none: "tb_values (pg_committed (sample_world sample_faults)) = (\<lambda>ns k. None)"
    by (simp add: pg_committed_def sample_world_def fun_eq_iff)
  from pg_store_refines [OF pg_tables.pg_queries_axioms idle run get l] none
  show ?thesis by (auto split: option.splits)
qed

text \<open>C32: \<open>History\<close> of the Postgres store pages a trail that can be replayed: after any sequence
  of writes and deletions, whichever commands fail, it fails or answers the page, newest
  first, of the key's audit records, each of which starts from the value the one before it
  left, the last ending in the key's stored value.\<close>

theorem pg_history_replays:
  assumes "pg_queries h committed working" "working w = None" "pg_run h s ops w = (rs, w')"
    and "tables_linked (committed w)" "run_prog h (pg_history s ns k opts) w' = (r, w1)"
  shows "((\<exists>e. r = Inl (HistoryFailed e)) \<or> r = Inr (page opts (rev (key_audit ns k (committed w')))))
     \<and> linked [] (key_audit ns k (committed w'))
     \<and> trail_value [] (key_audit ns k (committed w')) = str_or_empty (tb_values (committed w') ns k)"
proof -
  have db: "pg_database h committed working" using assms(1) by (simp add: pg_queries_def)
  from pg_database.pg_run_effect [OF db assms(3,2)] assms(4)
  have eff: "working w' = None" "tables_linked (committed w')" by simp_all
  with pg_queries.pg_history_answer [OF assms(1) eff(1) assms(5)] show ?thesis
    by (auto simp: tables_linked_def key_audit_def)
qed

theorem pg_history_replays_witness:
  "linked [] (key_audit ''a'' ''k''
     (pg_committed (snd (pg_run pg_handler pg_default sample_ops (sample_world sample_faults)))))"
proof -
  let ?w = "snd (pg_run pg_handler pg_default sample_ops (sample_world sample_faults))"
  obtain rs where run: "pg_run pg_handler pg_default sample_ops (sample_world sample_faults) = (rs, ?w)"
    by (metis prod.collapse)
  have idle: "pg_working (sample_world sample_faults) = None" by (simp add: pg_working_def sample_world_def)
  have linked0: "tables_linked (pg_committed (sample_world sample_faults))"
    by (simp add: tables_linked_def key_audit_def pg_committed_def sample_world_def)
  obtain r w1 where "run_prog pg_handler (pg_history pg_default ''a'' ''k'' \<lparr>ho_limit = 10, ho_offset = 0\<rparr>) ?w = (r, w1)"
    by fastforce
  from pg_history_replays [OF pg_tables.pg_queries_axioms idle run linked0 this] show ?thesis by simp
qed

end
