(* ===== verification/Pg_Race.thy ===== *)
theory Pg_Race
  imports Pg_Contract
begin

text \<open>
  Concurrent writers of the Postgres store. Each runs its program in a session of its own;
  a schedule says whose command comes next. The locale \<open>pg_read_committed\<close> states what the
  default isolation level of the database promises: a statement sees the committed contents
  with the session's own writes on top, and a commit makes these writes permanent. The
  store's transactions rely on the isolation level for the old value they record, and read
  committed is not enough.
\<close>

subsection \<open>Sessions\<close>

fun run_schedule ::
  "(nat \<Rightarrow> cmd \<Rightarrow> 'w \<Rightarrow> resp \<times> 'w) \<Rightarrow> nat list \<Rightarrow> (nat \<Rightarrow> 'a prog) \<Rightarrow> 'w \<Rightarrow> (nat \<Rightarrow> 'a prog) \<times> 'w" where
  "run_schedule h [] ps w = (ps, w)"
| "run_schedule h (i # is) ps w =
     (case ps i of
        Ret x \<Rightarrow> run_schedule h is ps w
      | Do c k \<Rightarrow> (let (r, w') = h i c w in run_schedule h is (ps(i := k r)) w'))"

text \<open>What an upsert (with the notification of the trigger) and an audit insert add.\<close>

definition with_upsert :: "string \<Rightarrow> string \<Rightarrow> string \<Rightarrow> notify_payload \<Rightarrow> tables \<Rightarrow> tables" where
  "with_upsert ns k v n b = b\<lparr>tb_values := (tb_values b)(ns := (tb_values b ns)(k \<mapsto> v)),
     tb_notes := tb_notes b @ [n]\<rparr>"

definition with_audit :: "audit_entry \<Rightarrow> tables \<Rightarrow> tables" where
  "with_audit a b = b\<lparr>tb_audit := tb_audit b @ [a]\<rparr>"

locale pg_read_committed =
  fixes h :: "nat \<Rightarrow> cmd \<Rightarrow> 'w \<Rightarrow> resp \<times> 'w"
    and committed :: "'w \<Rightarrow> tables"
    and writes :: "nat \<Rightarrow> 'w \<Rightarrow> (tables \<Rightarrow> tables) option"
  assumes others: "h i c w = (r, w') \<Longrightarrow> j \<noteq> i \<Longrightarrow> writes j w' = writes j w"
    and uncommitted: "h i c w = (r, w') \<Longrightarrow> c \<noteq> Commit \<Longrightarrow> committed w' = committed w"
    and begin_session: "h i Begin w = (r, w') \<Longrightarrow> (\<exists>e. r = Failed e) \<or> r = Done \<and> writes i w' = Some (\<lambda>b. b)"
    and select_session: "h i (Query (SelectValue t ns k)) w = (r, w') \<Longrightarrow> writes i w = Some f \<Longrightarrow>
      (\<exists>e. r = Failed e) \<or> writes i w' = Some f \<and>
      r = (case tb_values (f (committed w)) ns k of None \<Rightarrow> NoRows | Some v \<Rightarrow> Value v)"
    and upsert_session: "h i (Exec (Upsert t ns k v by_who now)) w = (r, w') \<Longrightarrow> writes i w = Some f \<Longrightarrow>
      (\<exists>e. r = Failed e) \<or> r = Done \<and> (\<exists>n. writes i w' = Some (with_upsert ns k v n \<circ> f))"
    and audit_session: "h i (Exec (InsertAudit t ns k ov nv by_who now)) w = (r, w') \<Longrightarrow> writes i w = Some f \<Longrightarrow>
      (\<exists>e. r = Failed e) \<or> r = Done \<and> (\<exists>id1. writes i w' = Some (with_audit \<lparr>ae_id = id1, ae_namespace = ns,
        ae_key = k, ae_old = ov, ae_new = nv, ae_by = by_who, ae_at = now\<rparr> \<circ> f))"
    and commit_session: "h i Commit w = (r, w') \<Longrightarrow> writes i w = Some f \<Longrightarrow>
      (\<exists>e. r = Failed e) \<or> r = Done \<and> committed w' = f (committed w)"

subsection \<open>The stages of Set\<close>

text \<open>What is left of \<open>Set\<close> after each command that was answered without an error.\<close>

definition set_stage4 :: "(pg_error + unit) prog" where
  "set_stage4 = with_deferred_rollback commit_tx"

definition set_stage3 :: "pg_store \<Rightarrow> set_entry \<Rightarrow> go_time \<Rightarrow> string \<Rightarrow> (pg_error + unit) prog" where
  "set_stage3 s e now ov = with_deferred_rollback
     (exec_or (InsertAudit (pg_audit_table s) (se_namespace e) (se_key e) ov (se_value e) (se_by e) now)
        AuditFailed commit_tx)"

definition set_stage2 :: "pg_store \<Rightarrow> set_entry \<Rightarrow> go_time \<Rightarrow> string \<Rightarrow> (pg_error + unit) prog" where
  "set_stage2 s e now ov = with_deferred_rollback
     (exec_or (Upsert (pg_table s) (se_namespace e) (se_key e) (se_value e) (se_by e) now) UpsertFailed
        (exec_or (InsertAudit (pg_audit_table s) (se_namespace e) (se_key e) ov (se_value e) (se_by e) now)
           AuditFailed commit_tx))"

definition set_stage1 :: "pg_store \<Rightarrow> set_entry \<Rightarrow> go_time \<Rightarrow> (pg_error + unit) prog" where
  "set_stage1 s e now = with_deferred_rollback
     (Do (Query (SelectValue (pg_table s) (se_namespace e) (se_key e))) (\<lambda>r. case r of
          Failed e \<Rightarrow> Ret (Inl (ReadOldFailed e))
        | _ \<Rightarrow>
            (let old_value = (case r of Value v \<Rightarrow> v | _ \<Rightarrow> []) in
             exec_or (Upsert (pg_table s) (se_namespace e) (se_key e) (se_value e) (se_by e) now)
               UpsertFailed
               (exec_or (InsertAudit (pg_audit_table s) (se_namespace e) (se_key e) old_value
                    (se_value e) (se_by e) now) AuditFailed
                  commit_tx))))"

lemmas stage_defs = set_stage1_def set_stage2_def set_stage3_def set_stage4_def
  with_deferred_rollback_def exec_or_def commit_tx_def

text \<open>A program that can only fail any more never succeeds.\<close>

definition doomed :: "('e + unit) prog \<Rightarrow> bool" where
  "doomed p \<longleftrightarrow> (\<exists>e. p = Ret (Inl e) \<or> p = Do Rollback (\<lambda>_. Ret (Inl e)))"

lemma doomed_stays:
  "run_schedule h is ps w = (ps', w') \<Longrightarrow> doomed (ps i) \<Longrightarrow> ps' i \<noteq> Ret (Inr ())"
proof (induction "is" arbitrary: ps w)
  case (Cons j js)
  show ?case
  proof (cases "ps j")
    case (Do c k)
    obtain r w1 where r: "h j c w = (r, w1)" by fastforce
    with Cons.prems(1) Do have "run_schedule h js (ps(j := k r)) w1 = (ps', w')" by simp
    moreover have "doomed ((ps(j := k r)) i)" using Cons.prems(2) Do by (auto simp: doomed_def)
    ultimately show ?thesis by (rule Cons.IH)
  qed (use Cons in auto)
qed (auto simp: doomed_def)

lemma all_option: "(\<forall>ov. P ov) \<longleftrightarrow> P None \<and> (\<forall>v. P (Some v))"
  by (metis option.exhaust)

lemma doomed_simps [simp]: "doomed (Ret (Inl e))" "doomed (Do Rollback (\<lambda>_. Ret (Inl e)))"
  by (auto simp: doomed_def)

text \<open>The stages: the next command, what follows its success, and that a failure dooms it.\<close>

lemma set_stages:
  "\<exists>k. pg_set s e now = Do Begin k \<and> k Done = set_stage1 s e now \<and> (\<forall>x. doomed (k (Failed x)))"
  "\<exists>k. set_stage1 s e now = Do (Query (SelectValue (pg_table s) (se_namespace e) (se_key e))) k
     \<and> (\<forall>ov. k (case ov of None \<Rightarrow> NoRows | Some v \<Rightarrow> Value v) = set_stage2 s e now (str_or_empty ov))
     \<and> (\<forall>x. doomed (k (Failed x)))"
  "\<exists>k. set_stage2 s e now ov = Do (Exec (Upsert (pg_table s) (se_namespace e) (se_key e) (se_value e) (se_by e) now)) k
     \<and> k Done = set_stage3 s e now ov \<and> (\<forall>x. doomed (k (Failed x)))"
  "\<exists>k. set_stage3 s e now ov = Do (Exec (InsertAudit (pg_audit_table s) (se_namespace e) (se_key e) ov
       (se_value e) (se_by e) now)) k
     \<and> k Done = set_stage4 \<and> (\<forall>x. doomed (k (Failed x)))"
  "\<exists>k. set_stage4 = Do Commit k \<and> k Done = Do Rollback (\<lambda>_. Ret (Inr ())) \<and> (\<forall>x. doomed (k (Failed x)))"
proof -
  show "\<exists>k. pg_set s e now = Do Begin k \<and> k Done = set_stage1 s e now \<and> (\<forall>x. doomed (k (Failed x)))"
    by (simp add: pg_set_def begin_tx_def set_stage1_def)
  show "\<exists>k. set_stage1 s e now = Do (Query (SelectValue (pg_table s) (se_namespace e) (se_key e))) k
     \<and> (\<forall>ov. k (case ov of None \<Rightarrow> NoRows | Some v \<Rightarrow> Value v) = set_stage2 s e now (str_or_empty ov))
     \<and> (\<forall>x. doomed (k (Failed x)))"
    by (simp add: set_stage1_def set_stage2_def with_deferred_rollback_def Let_def all_option)
qed (simp_all add: stage_defs)

lemma advance:
  assumes "run_schedule h (i # is) ps w = (ps', w')" "ps' i = Ret (Inr ())"
    and "ps i = Do c k" "\<forall>x. doomed (k (Failed x))"
  obtains r w1 where "h i c w = (r, w1)" "\<And>x. r \<noteq> Failed x" "run_schedule h is (ps(i := k r)) w1 = (ps', w')"
proof -
  obtain r w1 where r: "h i c w = (r, w1)" by fastforce
  with assms(1,3) have run: "run_schedule h is (ps(i := k r)) w1 = (ps', w')" by simp
  have "r \<noteq> Failed x" for x using doomed_stays [OF run, of i] assms(2,4) by auto
  with that r run show ?thesis by blast
qed

context pg_read_committed begin

lemma set_begins:
  assumes "run_schedule h (i # is) ps w = (ps', w')" "ps' i = Ret (Inr ())" "ps i = pg_set s e now"
  obtains w1 where "run_schedule h is (ps(i := set_stage1 s e now)) w1 = (ps', w')"
    "committed w1 = committed w" "writes i w1 = Some (\<lambda>b. b)" "\<And>j. j \<noteq> i \<Longrightarrow> writes j w1 = writes j w"
proof -
  from set_stages(1) obtain k where k: "ps i = Do Begin k" "k Done = set_stage1 s e now"
    "\<forall>x. doomed (k (Failed x))" using assms(3) by metis
  from advance [OF assms(1,2) k(1,3)] obtain r w1 where
    r: "h i Begin w = (r, w1)" "\<And>x. r \<noteq> Failed x" "run_schedule h is (ps(i := k r)) w1 = (ps', w')" by blast
  from begin_session [OF r(1)] r(2) have "r = Done" "writes i w1 = Some (\<lambda>b. b)" by auto
  with that r k(2) uncommitted [OF r(1)] others [OF r(1)] show ?thesis by auto
qed

lemma set_reads:
  assumes "run_schedule h (i # is) ps w = (ps', w')" "ps' i = Ret (Inr ())" "ps i = set_stage1 s e now"
    and "writes i w = Some f"
  obtains w1 where "run_schedule h is (ps(i := set_stage2 s e now
      (str_or_empty (tb_values (f (committed w)) (se_namespace e) (se_key e))))) w1 = (ps', w')"
    "committed w1 = committed w" "writes i w1 = Some f" "\<And>j. j \<noteq> i \<Longrightarrow> writes j w1 = writes j w"
proof -
  let ?c = "Query (SelectValue (pg_table s) (se_namespace e) (se_key e))"
  from set_stages(2) obtain k where k: "ps i = Do ?c k"
    "\<forall>ov. k (case ov of None \<Rightarrow> NoRows | Some v \<Rightarrow> Value v) = set_stage2 s e now (str_or_empty ov)"
    "\<forall>x. doomed (k (Failed x))" using assms(3) by metis
  from advance [OF assms(1,2) k(1,3)] obtain r w1 where
    r: "h i ?c w = (r, w1)" "\<And>x. r \<noteq> Failed x" "run_schedule h is (ps(i := k r)) w1 = (ps', w')" by blast
  from select_session [OF r(1) assms(4)] r(2) have "writes i w1 = Some f"
    "r = (case tb_values (f (committed w)) (se_namespace e) (se_key e) of None \<Rightarrow> NoRows | Some v \<Rightarrow> Value v)" by auto
  with that r(3) k(2) uncommitted [OF r(1)] others [OF r(1)] show ?thesis by auto
qed

text \<open>Starting a write: the transaction and its read.\<close>

lemma set_opens:
  assumes "run_schedule h (i # i # is) ps w = (ps', w')" "ps' i = Ret (Inr ())" "ps i = pg_set s e now"
  obtains w1 where "run_schedule h is (ps(i := set_stage2 s e now
      (str_or_empty (tb_values (committed w) (se_namespace e) (se_key e))))) w1 = (ps', w')"
    "committed w1 = committed w" "writes i w1 = Some (\<lambda>b. b)" "\<And>j. j \<noteq> i \<Longrightarrow> writes j w1 = writes j w"
proof -
  from set_begins [OF assms] obtain w2 where
    w2: "run_schedule h (i # is) (ps(i := set_stage1 s e now)) w2 = (ps', w')"
      "committed w2 = committed w" "writes i w2 = Some (\<lambda>b. b)" "\<And>j. j \<noteq> i \<Longrightarrow> writes j w2 = writes j w" by blast
  obtain w3 where
    "run_schedule h is (ps(i := set_stage2 s e now
        (str_or_empty (tb_values (committed w) (se_namespace e) (se_key e))))) w3 = (ps', w')"
    "committed w3 = committed w" "writes i w3 = Some (\<lambda>b. b)" "\<And>j. j \<noteq> i \<Longrightarrow> writes j w3 = writes j w2"
    by (rule set_reads [OF w2(1) assms(2) fun_upd_same w2(3), unfolded fun_upd_upd w2(2)]) (rule that)
  then show ?thesis by - (rule that [of w3], simp_all add: w2(4))
qed

lemma set_upserts:
  assumes "run_schedule h (i # is) ps w = (ps', w')" "ps' i = Ret (Inr ())" "ps i = set_stage2 s e now ov"
    and "writes i w = Some f"
  obtains w1 n where "run_schedule h is (ps(i := set_stage3 s e now ov)) w1 = (ps', w')"
    "committed w1 = committed w" "writes i w1 = Some (with_upsert (se_namespace e) (se_key e) (se_value e) n \<circ> f)"
    "\<And>j. j \<noteq> i \<Longrightarrow> writes j w1 = writes j w"
proof -
  let ?c = "Exec (Upsert (pg_table s) (se_namespace e) (se_key e) (se_value e) (se_by e) now)"
  from set_stages(3) obtain k where k: "ps i = Do ?c k" "k Done = set_stage3 s e now ov"
    "\<forall>x. doomed (k (Failed x))" using assms(3) by metis
  from advance [OF assms(1,2) k(1,3)] obtain r w1 where
    r: "h i ?c w = (r, w1)" "\<And>x. r \<noteq> Failed x" "run_schedule h is (ps(i := k r)) w1 = (ps', w')" by blast
  from upsert_session [OF r(1) assms(4)] r(2) obtain n where "r = Done"
    "writes i w1 = Some (with_upsert (se_namespace e) (se_key e) (se_value e) n \<circ> f)" by auto
  with that r(3) k(2) uncommitted [OF r(1)] others [OF r(1)] show ?thesis by auto
qed

lemma set_audits:
  assumes "run_schedule h (i # is) ps w = (ps', w')" "ps' i = Ret (Inr ())" "ps i = set_stage3 s e now ov"
    and "writes i w = Some f"
  obtains w1 id1 where "run_schedule h is (ps(i := set_stage4)) w1 = (ps', w')"
    "committed w1 = committed w" "writes i w1 = Some (with_audit \<lparr>ae_id = id1, ae_namespace = se_namespace e,
        ae_key = se_key e, ae_old = ov, ae_new = se_value e, ae_by = se_by e, ae_at = now\<rparr> \<circ> f)"
    "\<And>j. j \<noteq> i \<Longrightarrow> writes j w1 = writes j w"
proof -
  let ?c = "Exec (InsertAudit (pg_audit_table s) (se_namespace e) (se_key e) ov (se_value e) (se_by e) now)"
  from set_stages(4) obtain k where k: "ps i = Do ?c k" "k Done = set_stage4"
    "\<forall>x. doomed (k (Failed x))" using assms(3) by metis
  from advance [OF assms(1,2) k(1,3)] obtain r w1 where
    r: "h i ?c w = (r, w1)" "\<And>x. r \<noteq> Failed x" "run_schedule h is (ps(i := k r)) w1 = (ps', w')" by blast
  from audit_session [OF r(1) assms(4)] r(2) obtain id1 where "r = Done"
    "writes i w1 = Some (with_audit \<lparr>ae_id = id1, ae_namespace = se_namespace e,
        ae_key = se_key e, ae_old = ov, ae_new = se_value e, ae_by = se_by e, ae_at = now\<rparr> \<circ> f)" by auto
  with that r(3) k(2) uncommitted [OF r(1)] others [OF r(1)] show ?thesis by auto
qed

lemma set_commits:
  assumes "run_schedule h (i # i # is) ps w = (ps', w')" "ps' i = Ret (Inr ())" "ps i = set_stage4"
    and "writes i w = Some f"
  obtains w1 where "run_schedule h is (ps(i := Ret (Inr ()))) w1 = (ps', w')"
    "committed w1 = f (committed w)" "\<And>j. j \<noteq> i \<Longrightarrow> writes j w1 = writes j w"
proof -
  from set_stages(5) obtain k where k: "ps i = Do Commit k" "k Done = Do Rollback (\<lambda>_. Ret (Inr ()))"
    "\<forall>x. doomed (k (Failed x))" using assms(3) by metis
  from advance [OF assms(1,2) k(1,3)] obtain r w1 where
    r: "h i Commit w = (r, w1)" "\<And>x. r \<noteq> Failed x" "run_schedule h (i # is) (ps(i := k r)) w1 = (ps', w')" by blast
  obtain r2 w2 where r2: "h i Rollback w1 = (r2, w2)" by fastforce
  from commit_session [OF r(1) assms(4)] r(2) have d: "r = Done" "committed w1 = f (committed w)" by auto
  with r(3) r2 k(2) have "run_schedule h is (ps(i := Ret (Inr ()))) w2 = (ps', w')" by simp
  moreover have "committed w2 = f (committed w)" using uncommitted [OF r2] d(2) by simp
  moreover have "writes j w2 = writes j w" if "j \<noteq> i" for j
    using others [OF r(1) that] others [OF r2 that] by simp
  ultimately show ?thesis using that by blast
qed

text \<open>A whole write of one session that has already read, while nobody else acts.\<close>

lemma set_finishes:
  assumes "run_schedule h (i # i # i # i # is) ps w = (ps', w')" "ps' i = Ret (Inr ())"
    and "ps i = set_stage2 s e now ov" "writes i w = Some f"
  obtains w1 id1 n where "run_schedule h is (ps(i := Ret (Inr ()))) w1 = (ps', w')"
    "committed w1 = with_audit \<lparr>ae_id = id1, ae_namespace = se_namespace e, ae_key = se_key e, ae_old = ov,
        ae_new = se_value e, ae_by = se_by e, ae_at = now\<rparr>
      (with_upsert (se_namespace e) (se_key e) (se_value e) n (f (committed w)))"
    "\<And>j. j \<noteq> i \<Longrightarrow> writes j w1 = writes j w"
proof -
  let ?up = "with_upsert (se_namespace e) (se_key e) (se_value e)"
  let ?au = "\<lambda>id1. with_audit \<lparr>ae_id = id1, ae_namespace = se_namespace e, ae_key = se_key e, ae_old = ov,
      ae_new = se_value e, ae_by = se_by e, ae_at = now\<rparr>"
  from set_upserts [OF assms] obtain w2 n where
    w2: "run_schedule h (i # i # i # is) (ps(i := set_stage3 s e now ov)) w2 = (ps', w')" "committed w2 = committed w"
      "writes i w2 = Some (?up n \<circ> f)" "\<And>j. j \<noteq> i \<Longrightarrow> writes j w2 = writes j w" by blast
  from set_audits [OF w2(1) assms(2) fun_upd_same w2(3), unfolded fun_upd_upd] obtain w3 id1 where
    w3: "run_schedule h (i # i # is) (ps(i := set_stage4)) w3 = (ps', w')" "committed w3 = committed w2"
      "writes i w3 = Some (?au id1 \<circ> (?up n \<circ> f))" "\<And>j. j \<noteq> i \<Longrightarrow> writes j w3 = writes j w2" by blast
  from set_commits [OF w3(1) assms(2) fun_upd_same w3(3), unfolded fun_upd_upd] obtain w4 where
    w4: "run_schedule h is (ps(i := Ret (Inr ()))) w4 = (ps', w')"
    "committed w4 = (?au id1 \<circ> (?up n \<circ> f)) (committed w3)" "\<And>j. j \<noteq> i \<Longrightarrow> writes j w4 = writes j w3" by blast
  have "committed w4 = ?au id1 (?up n (f (committed w)))" using w4(2) w3(2) w2(2) by simp
  moreover have "writes j w4 = writes j w" if "j \<noteq> i" for j using w2(4) w3(4) w4(3) that by simp
  ultimately show ?thesis using that w4(1) by blast
qed

end

subsection \<open>A database with sessions\<close>

record md_world =
  md_committed :: tables
  md_writes :: "nat \<Rightarrow> (tables \<Rightarrow> tables) option"

fun md_exec :: "stmt \<Rightarrow> tables \<Rightarrow> (tables \<Rightarrow> tables) option" where
  "md_exec (Upsert t ns k v by_who now) b =
     Some (with_upsert ns k v \<lparr>np_namespace = ns, np_key = k, np_old_value = str_or_empty (tb_values b ns k),
       np_new_value = v, np_changed_by = by_who, np_changed_at = now\<rparr>)"
| "md_exec (InsertAudit t ns k ov nv by_who now) b =
     Some (with_audit \<lparr>ae_id = int (length (tb_audit b)) + 1, ae_namespace = ns, ae_key = k, ae_old = ov,
       ae_new = nv, ae_by = by_who, ae_at = now\<rparr>)"
| "md_exec st b = None"

fun md_query :: "stmt \<Rightarrow> tables \<Rightarrow> resp" where
  "md_query (SelectValue t ns k) b = (case tb_values b ns k of None \<Rightarrow> NoRows | Some v \<Rightarrow> Value v)"
| "md_query st b = Failed ''not answered''"

fun md_handler :: "nat \<Rightarrow> cmd \<Rightarrow> md_world \<Rightarrow> resp \<times> md_world" where
  "md_handler i Begin w = (Done, w\<lparr>md_writes := (md_writes w)(i := Some (\<lambda>b. b))\<rparr>)"
| "md_handler i (Query st) w =
     (case md_writes w i of
        None \<Rightarrow> (Failed ''no transaction'', w) | Some f \<Rightarrow> (md_query st (f (md_committed w)), w))"
| "md_handler i (Exec st) w =
     (case md_writes w i of
        None \<Rightarrow> (Failed ''no transaction'', w)
      | Some f \<Rightarrow> (case md_exec st (f (md_committed w)) of
           None \<Rightarrow> (Failed ''not answered'', w)
         | Some g \<Rightarrow> (Done, w\<lparr>md_writes := (md_writes w)(i := Some (g \<circ> f))\<rparr>)))"
| "md_handler i Commit w =
     (case md_writes w i of
        None \<Rightarrow> (Failed ''no transaction'', w)
      | Some f \<Rightarrow> (Done, w\<lparr>md_committed := f (md_committed w), md_writes := (md_writes w)(i := None)\<rparr>))"
| "md_handler i Rollback w = (Done, w\<lparr>md_writes := (md_writes w)(i := None)\<rparr>)"

interpretation pg_sessions: pg_read_committed md_handler md_committed "\<lambda>i w. md_writes w i"
proof unfold_locales
  fix i c w r w'
  show "md_handler i c w = (r, w') \<Longrightarrow> j \<noteq> i \<Longrightarrow> md_writes w' j = md_writes w j" for j
    by (cases c) (auto split: option.splits)
  show "md_handler i c w = (r, w') \<Longrightarrow> c \<noteq> Commit \<Longrightarrow> md_committed w' = md_committed w"
    by (cases c) (auto split: option.splits)
qed (auto split: option.splits)

subsection \<open>Two writers of one key\<close>

text \<open>Both read, then the first writes and commits, then the second; no command has to wait
  for the other session's row lock.\<close>

definition race_schedule :: "nat list" where
  "race_schedule = [0, 0, 1, 1, 0, 0, 0, 0, 1, 1, 1, 1]"

definition race_programs :: "pg_store \<Rightarrow> set_entry \<Rightarrow> go_time \<Rightarrow> set_entry \<Rightarrow> go_time \<Rightarrow> nat \<Rightarrow> (pg_error + unit) prog" where
  "race_programs s e0 t0 e1 t1 = (\<lambda>i. if i = 0 then pg_set s e0 t0 else pg_set s e1 t1)"

text \<open>C33: Concurrent writes break the audit trail. When two \<open>Set\<close> calls of the same key both read
  before either writes, on a database with the read committed isolation the store runs at,
  both can succeed, the later one's value is stored, and both audit records carry the same
  old value: the record of the second does not start from the value the first one left, so
  a trail that could be replayed before no longer can.\<close>

theorem concurrent_sets_share_old_value:
  assumes "pg_read_committed h committed writes"
    and "se_namespace e1 = se_namespace e0" "se_key e1 = se_key e0"
    and "run_schedule h race_schedule (race_programs s e0 t0 e1 t1) w = (ps', w')"
    and "ps' 0 = Ret (Inr ())" "ps' 1 = Ret (Inr ())"
    and "v = str_or_empty (tb_values (committed w) (se_namespace e0) (se_key e0))"
  shows "\<exists>a0 a1. tb_audit (committed w') = tb_audit (committed w) @ [a0, a1]
     \<and> ae_old a0 = v \<and> ae_new a0 = se_value e0 \<and> ae_old a1 = v \<and> ae_new a1 = se_value e1
     \<and> tb_values (committed w') (se_namespace e0) (se_key e0) = Some (se_value e1)
     \<and> (tables_linked (committed w) \<and> se_value e0 \<noteq> v \<longrightarrow> \<not> tables_linked (committed w'))"
proof -
  let ?ns = "se_namespace e0" and ?k = "se_key e0" and ?ps = "race_programs s e0 t0 e1 t1"
  note set_opens = pg_read_committed.set_opens [OF assms(1)]
  note set_finishes = pg_read_committed.set_finishes [OF assms(1)]
  have p: "?ps 0 = pg_set s e0 t0" "?ps 1 = pg_set s e1 t1" by (simp_all add: race_programs_def)
  have p2: "(?ps(0 := x)) 1 = pg_set s e1 t1" for x using p(2) by simp
  from set_opens [OF assms(4) [unfolded race_schedule_def] assms(5) p(1), folded assms(7)] obtain w2 where
    w2: "run_schedule h [1, 1, 0, 0, 0, 0, 1, 1, 1, 1] (?ps(0 := set_stage2 s e0 t0 v)) w2 = (ps', w')"
      "committed w2 = committed w" "writes 0 w2 = Some (\<lambda>b. b)" by blast
  from set_opens [OF w2(1) assms(6) p2, unfolded assms(2,3) w2(2), folded assms(7)] obtain w4 where
    w4: "run_schedule h [0, 0, 0, 0, 1, 1, 1, 1] (?ps(0 := set_stage2 s e0 t0 v, 1 := set_stage2 s e1 t1 v)) w4 = (ps', w')"
      "committed w4 = committed w" "writes 1 w4 = Some (\<lambda>b. b)" "\<And>j. j \<noteq> 1 \<Longrightarrow> writes j w4 = writes j w2" by blast
  have i4: "writes 0 w4 = Some (\<lambda>b. b)" using w4(4) [of 0] w2(3) by simp
  have p4: "(?ps(0 := set_stage2 s e0 t0 v, 1 := x)) 0 = set_stage2 s e0 t0 v" for x by simp
  from set_finishes [OF w4(1) assms(5) p4 i4] obtain w5 id0 n0 where
    w5: "run_schedule h [1, 1, 1, 1] (?ps(0 := set_stage2 s e0 t0 v, 1 := set_stage2 s e1 t1 v, 0 := Ret (Inr ()))) w5 = (ps', w')"
      "committed w5 = with_audit \<lparr>ae_id = id0, ae_namespace = ?ns, ae_key = ?k, ae_old = v,
         ae_new = se_value e0, ae_by = se_by e0, ae_at = t0\<rparr> (with_upsert ?ns ?k (se_value e0) n0 (committed w))"
      "\<And>j. j \<noteq> 0 \<Longrightarrow> writes j w5 = writes j w4" unfolding w4(2) by blast
  have i5: "writes 1 w5 = Some (\<lambda>b. b)" using w5(3) [of 1] w4(3) by simp
  have p5: "(?ps(0 := y, 1 := set_stage2 s e1 t1 v, 0 := x)) 1 = set_stage2 s e1 t1 v" for x y by simp
  obtain w6 id1 n1 where
    w6: "run_schedule h [] (?ps(0 := set_stage2 s e0 t0 v, 1 := set_stage2 s e1 t1 v, 0 := Ret (Inr ()), 1 := Ret (Inr ()))) w6 = (ps', w')"
      "committed w6 = with_audit \<lparr>ae_id = id1, ae_namespace = ?ns, ae_key = ?k, ae_old = v,
         ae_new = se_value e1, ae_by = se_by e1, ae_at = t1\<rparr> (with_upsert ?ns ?k (se_value e1) n1 (committed w5))"
      "\<And>j. j \<noteq> 1 \<Longrightarrow> writes j w6 = writes j w5"
    by (rule set_finishes [OF w5(1) assms(6) p5 i5, unfolded assms(2,3)]) (rule that)
  let ?a0 = "\<lparr>ae_id = id0, ae_namespace = ?ns, ae_key = ?k, ae_old = v, ae_new = se_value e0, ae_by = se_by e0, ae_at = t0\<rparr>"
  let ?a1 = "\<lparr>ae_id = id1, ae_namespace = ?ns, ae_key = ?k, ae_old = v, ae_new = se_value e1, ae_by = se_by e1, ae_at = t1\<rparr>"
  have audit: "tb_audit (committed w') = tb_audit (committed w) @ [?a0, ?a1]"
    and val: "tb_values (committed w') ?ns ?k = Some (se_value e1)"
    using w6 w5(2) by (auto simp: with_audit_def with_upsert_def)
  have key: "key_audit ?ns ?k (committed w') = (key_audit ?ns ?k (committed w) @ [?a0]) @ [?a1]"
    by (simp add: key_audit_def audit)
  have "v = se_value e0" if "tables_linked (committed w')"
  proof -
    from that have "linked [] ((key_audit ?ns ?k (committed w) @ [?a0]) @ [?a1])"
      unfolding tables_linked_def key [symmetric] by blast
    then show ?thesis unfolding linked_snoc trail_value_snoc by auto
  qed
  with audit val show ?thesis by (intro exI [of _ ?a0] exI [of _ ?a1]) auto
qed

definition race_store :: pg_store where
  "race_store = \<lparr>pg_table = default_table, pg_audit_table = default_audit_table,
     pg_notify_channel = default_notify_channel, pg_logger = default_logger,
     pg_max_backoff = default_max_backoff\<rparr>"

definition race_world :: md_world where
  "race_world = \<lparr>md_committed = \<lparr>tb_values = (\<lambda>ns k. None), tb_audit = [], tb_notes = []\<rparr>,
     md_writes = (\<lambda>i. None)\<rparr>"

theorem concurrent_sets_share_old_value_witness:
  "let e0 = \<lparr>se_namespace = ''a'', se_key = ''k'', se_value = ''x'', se_by = ''u''\<rparr>;
       e1 = \<lparr>se_namespace = ''a'', se_key = ''k'', se_value = ''y'', se_by = ''v''\<rparr>;
       w' = snd (run_schedule md_handler race_schedule (race_programs race_store e0 7 e1 8) race_world)
   in map ae_old (tb_audit (md_committed w')) = [[], []]
      \<and> map ae_new (tb_audit (md_committed w')) = [''x'', ''y''] \<and> \<not> tables_linked (md_committed w')"
proof -
  let ?e0 = "\<lparr>se_namespace = ''a'', se_key = ''k'', se_value = ''x'', se_by = ''u''\<rparr>"
  let ?e1 = "\<lparr>se_namespace = ''a'', se_key = ''k'', se_value = ''y'', se_by = ''v''\<rparr>"
  let ?run = "run_schedule md_handler race_schedule (race_programs race_store ?e0 7 ?e1 8) race_world"
  have run: "?run = (fst ?run, snd ?run)" by simp
  have fin: "fst ?run 0 = Ret (Inr ())" "fst ?run 1 = Ret (Inr ())"
    by (simp_all add: race_schedule_def race_programs_def race_world_def pg_set_def begin_tx_def stage_defs)
  have "tables_linked (md_committed race_world)" "tb_audit (md_committed race_world) = []"
    by (simp_all add: race_world_def tables_linked_def key_audit_def)
  with concurrent_sets_share_old_value [OF pg_sessions.pg_read_committed_axioms _ _ run fin refl]
  show ?thesis by (auto simp: race_world_def Let_def)
qed

end
