(* ===== verification/Pg_Feed.thy ===== *)
theory Pg_Feed
  imports Pg_Listen "HOL-Library.Sublist"
begin

text \<open>
  From commits to consumers: the notifications the database sends when a write commits, the
  listener's connection that queues their payloads while it is subscribed, and the listener
  that unmarshals and delivers them. \<open>encode\<close> gives the payload of a notification: that of a
  \<open>Delete\<close> is \<open>payload_json\<close>, that of a \<open>Set\<close> comes from the trigger in the database, so the
  results take any texts that \<open>payload_unmarshal\<close> reads as what was published. What
  consumers get is, in the order of the commits, what was published in their namespace,
  complete while the connection lasts.
\<close>

subsection \<open>The pipeline\<close>

record feed =
  fd_listener :: listener
  fd_queue :: "string list"

text \<open>The connection gets notifications from its \<^verbatim>\<open>LISTEN\<close> until it is closed.\<close>

definition subscribed :: "listener \<Rightarrow> bool" where
  "subscribed s \<longleftrightarrow> li_open s \<and> li_pc s \<noteq> Listening"

datatype feed_label = Published notify_payload | Fed listen_label

inductive feed_step ::
  "(notify_payload \<Rightarrow> string) \<Rightarrow> (string \<Rightarrow> go_time option) \<Rightarrow> string \<Rightarrow> int
     \<Rightarrow> feed \<Rightarrow> feed_label \<Rightarrow> feed \<Rightarrow> bool"
  for encode layout namespace max_backoff where
  fs_publish: "feed_step encode layout namespace max_backoff f (Published e)
      (f\<lparr>fd_queue := (if subscribed (fd_listener f) then fd_queue f @ [encode e] else fd_queue f)\<rparr>)"
| fs_notified: "fd_queue f = payload # q \<Longrightarrow>
      listen_step layout namespace max_backoff (fd_listener f) (Notified payload) s' \<Longrightarrow>
      feed_step encode layout namespace max_backoff f (Fed (Notified payload)) (f\<lparr>fd_listener := s', fd_queue := q\<rparr>)"
| fs_other: "listen_step layout namespace max_backoff (fd_listener f) l s' \<Longrightarrow> (\<And>payload. l \<noteq> Notified payload) \<Longrightarrow>
      feed_step encode layout namespace max_backoff f (Fed l)
        (f\<lparr>fd_listener := s', fd_queue := (if subscribed s' then fd_queue f else [])\<rparr>)"

inductive feed_run ::
  "(notify_payload \<Rightarrow> string) \<Rightarrow> (string \<Rightarrow> go_time option) \<Rightarrow> string \<Rightarrow> int \<Rightarrow> feed_label list \<Rightarrow> feed \<Rightarrow> bool"
  for encode layout namespace max_backoff where
  fr_start: "feed_run encode layout namespace max_backoff [] \<lparr>fd_listener = listen_start conn, fd_queue = []\<rparr>"
| fr_step: "feed_run encode layout namespace max_backoff ls f \<Longrightarrow>
      feed_step encode layout namespace max_backoff f l f' \<Longrightarrow>
      feed_run encode layout namespace max_backoff (ls @ [l]) f'"

subsection \<open>What was published and what was taken\<close>

definition events_in :: "string \<Rightarrow> notify_payload list \<Rightarrow> change_event list" where
  "events_in namespace ps = map payload_event (filter (\<lambda>p. np_namespace p = namespace) ps)"

definition published_in :: "string \<Rightarrow> feed_label list \<Rightarrow> change_event list" where
  "published_in namespace ls = events_in namespace
     (concat (map (\<lambda>l. case l of Published e \<Rightarrow> [e] | Fed _ \<Rightarrow> []) ls))"

definition taken_of :: "feed_label list \<Rightarrow> change_event list" where
  "taken_of ls = concat (map (\<lambda>l. case l of Fed (Taken e) \<Rightarrow> [e] | _ \<Rightarrow> []) ls)"

definition delivering :: "listener \<Rightarrow> change_event list" where
  "delivering s = buf (li_chan s) @ (case li_pc s of Delivering e \<Rightarrow> [e] | _ \<Rightarrow> [])"

text \<open>The connection was lost, or the listener stopped with an event in its hands.\<close>

definition interrupted :: "feed_label list \<Rightarrow> bool" where
  "interrupted ls \<longleftrightarrow> Fed WaitFailed \<in> set ls \<or> Fed Stopped \<in> set ls"

definition feed_inv :: "(notify_payload \<Rightarrow> string) \<Rightarrow> string \<Rightarrow> feed_label list \<Rightarrow> feed \<Rightarrow> bool" where
  "feed_inv encode namespace ls f \<longleftrightarrow> (\<exists>es. fd_queue f = map encode es \<and> (\<forall>e \<in> set es. Published e \<in> set ls)
     \<and> (let got = taken_of ls @ delivering (fd_listener f) @ events_in namespace es in
        subseq got (published_in namespace ls)
        \<and> (interrupted ls \<or> subscribed (fd_listener f) \<and> li_pc (fd_listener f) \<noteq> BackingOff
             \<and> li_pc (fd_listener f) \<noteq> Connecting \<and> li_conn (fd_listener f) \<noteq> None
             \<and> got = published_in namespace ls)))"

lemma label_lists [simp]:
  "events_in namespace [] = []"
  "events_in namespace (p # ps) = (if np_namespace p = namespace then [payload_event p] else []) @ events_in namespace ps"
  "events_in namespace (ps @ qs) = events_in namespace ps @ events_in namespace qs"
  "published_in namespace [] = []" "taken_of [] = []" "\<not> interrupted []"
  "published_in namespace (ls @ [Published e]) =
     published_in namespace ls @ (if np_namespace e = namespace then [payload_event e] else [])"
  "published_in namespace (ls @ [Fed l]) = published_in namespace ls"
  "taken_of (ls @ [Published e]) = taken_of ls"
  "taken_of (ls @ [Fed l]) = taken_of ls @ (case l of Taken e \<Rightarrow> [e] | _ \<Rightarrow> [])"
  "interrupted (ls @ [m]) \<longleftrightarrow> interrupted ls \<or> m = Fed WaitFailed \<or> m = Fed Stopped"
  by (auto simp: published_in_def taken_of_def interrupted_def events_in_def)

lemma subseq_drop_tail: "subseq (xs @ ys) ws \<Longrightarrow> subseq xs ws"
  by (metis subseq_order.order_trans subseq_rev_drop_many subseq_order.order_refl)

lemma feed_inv_publish:
  assumes "feed_inv encode namespace ls f"
  shows "feed_inv encode namespace (ls @ [Published e])
     (f\<lparr>fd_queue := (if subscribed (fd_listener f) then fd_queue f @ [encode e] else fd_queue f)\<rparr>)"
proof -
  obtain es where es: "fd_queue f = map encode es" "\<forall>e \<in> set es. Published e \<in> set ls"
    "subseq (taken_of ls @ delivering (fd_listener f) @ events_in namespace es) (published_in namespace ls)"
    "interrupted ls \<or> subscribed (fd_listener f) \<and> li_pc (fd_listener f) \<noteq> BackingOff
       \<and> li_pc (fd_listener f) \<noteq> Connecting \<and> li_conn (fd_listener f) \<noteq> None
       \<and> taken_of ls @ delivering (fd_listener f) @ events_in namespace es = published_in namespace ls"
    using assms by (auto simp: feed_inv_def Let_def)
  have grow: "subseq (xs @ ys) (zs @ ys)" if "subseq xs zs" for xs ys zs :: "change_event list"
    using that by simp
  show ?thesis
  proof (cases "subscribed (fd_listener f)")
    case True
    with es grow [OF es(3), of "if np_namespace e = namespace then [payload_event e] else []"] show ?thesis
      unfolding feed_inv_def Let_def by (intro exI [of _ "es @ [e]"]) (auto simp: )
  next
    case False
    with es show ?thesis
      unfolding feed_inv_def Let_def by (intro exI [of _ es]) (auto intro: subseq_rev_drop_many)
  qed
qed

lemma feed_inv_notified:
  assumes "feed_inv encode namespace ls f" "\<And>e. Published e \<in> set ls \<Longrightarrow> payload_unmarshal layout (encode e) = Some e"
    and "fd_queue f = payload # q" "li_pc (fd_listener f) = Waiting" "li_open (fd_listener f)" "li_conn (fd_listener f) \<noteq> None"
  shows "feed_inv encode namespace (ls @ [Fed (Notified payload)])
     (f\<lparr>fd_listener := on_notification layout namespace payload (fd_listener f), fd_queue := q\<rparr>)"
proof -
  obtain es where es: "fd_queue f = map encode es" "\<forall>e \<in> set es. Published e \<in> set ls"
    "subseq (taken_of ls @ delivering (fd_listener f) @ events_in namespace es) (published_in namespace ls)"
    "interrupted ls \<or> taken_of ls @ delivering (fd_listener f) @ events_in namespace es = published_in namespace ls"
    using assms(1) by (auto simp: feed_inv_def Let_def)
  from es(1) assms(3) obtain e es' where e: "es = e # es'" "payload = encode e" "q = map encode es'"
    by (cases es) auto
  with es(2) assms(2) have "payload_unmarshal layout payload = Some e" by simp
  with e es assms(4,5,6) show ?thesis
    unfolding feed_inv_def Let_def
    by (intro exI [of _ es']) (auto simp: on_notification_def delivering_def subscribed_def Let_def)
qed

lemma feed_inv_other:
  assumes "feed_inv encode namespace ls f" "listen_step layout namespace max_backoff (fd_listener f) l s'"
    and "\<And>payload. l \<noteq> Notified payload"
  shows "feed_inv encode namespace (ls @ [Fed l])
     (f\<lparr>fd_listener := s', fd_queue := (if subscribed s' then fd_queue f else [])\<rparr>)"
proof -
  obtain es where queued: "\<forall>e \<in> set es. Published e \<in> set ls" and es: "fd_queue f = map encode es"
    "subseq (taken_of ls @ delivering (fd_listener f) @ events_in namespace es) (published_in namespace ls)"
    "interrupted ls \<or> subscribed (fd_listener f) \<and> li_pc (fd_listener f) \<noteq> BackingOff
       \<and> li_pc (fd_listener f) \<noteq> Connecting \<and> li_conn (fd_listener f) \<noteq> None
       \<and> taken_of ls @ delivering (fd_listener f) @ events_in namespace es = published_in namespace ls"
    using assms(1) by (auto simp: feed_inv_def Let_def)
  define es2 where "es2 = (if subscribed s' then es else [])"
  have less: "subseq (taken_of ls @ delivering (fd_listener f)) (published_in namespace ls)"
    "subseq (taken_of ls @ buf (li_chan (fd_listener f))) (published_in namespace ls)"
    using es(2) subseq_drop_tail [of "taken_of ls @ delivering (fd_listener f)"]
      subseq_drop_tail [of "taken_of ls @ buf (li_chan (fd_listener f))"]
    by (simp_all add: delivering_def)
  from assms(2) have "subseq (taken_of (ls @ [Fed l]) @ delivering s' @ events_in namespace es2) (published_in namespace ls)
      \<and> (interrupted (ls @ [Fed l]) \<or> subscribed s' \<and> li_pc s' \<noteq> BackingOff \<and> li_pc s' \<noteq> Connecting
          \<and> li_conn s' \<noteq> None
          \<and> taken_of (ls @ [Fed l]) @ delivering s' @ events_in namespace es2 = published_in namespace ls)"
  proof cases
    case ls_deliver
    with es less show ?thesis by (auto simp: es2_def delivering_def subscribed_def)
  next
    case ls_recv
    with es less show ?thesis by (auto simp: es2_def delivering_def subscribed_def)
  next
    case ls_notified
    with assms(3) show ?thesis by blast
  qed (use es less in \<open>auto simp: es2_def delivering_def subscribed_def on_wait_error_def on_backoff_over_def
      on_connect_def on_listen_def listen_return_def on_nil_call_def Let_def split: option.splits\<close>)
  then show ?thesis
    unfolding feed_inv_def Let_def by (intro exI [of _ es2]) (use queued in \<open>auto simp: es2_def es(1)\<close>)
qed

lemma feed_inv_run:
  assumes "feed_run encode layout namespace max_backoff ls f" "\<And>e. Published e \<in> set ls \<Longrightarrow> payload_unmarshal layout (encode e) = Some e"
  shows "feed_inv encode namespace ls f"
  using assms
proof (induction rule: feed_run.induct)
  case (fr_start conn)
  show ?case by (simp add: feed_inv_def delivering_def listen_start_def make_chan_def subscribed_def)
next
  case (fr_step ls f l f')
  have read: "payload_unmarshal layout (encode e) = Some e" if "Published e \<in> set ls" for e
    using that fr_step.prems by simp
  note IH = fr_step.IH [OF read]
  from fr_step.hyps(2) show ?case
  proof cases
    case fs_publish
    with feed_inv_publish [OF IH] show ?thesis by simp
  next
    case (fs_notified payload q s')
    from fs_notified(4) show ?thesis
      using feed_inv_notified [OF IH read fs_notified(3)] fs_notified(1,2)
      by cases auto
  next
    case (fs_other l s')
    with feed_inv_other [OF IH] show ?thesis by simp
  qed
qed

subsection \<open>Properties\<close>

text \<open>C34: What a consumer of the listener's channel gets is what the store published in its namespace,
  in the order of the commits: in every run, whatever the connection does, the events taken so
  far followed by those under way form a subsequence of the published ones (nothing is
  invented, reordered, or delivered twice), and while the connection has not been lost they
  are all of them, up to the payloads still queued at the connection. It rests on payloads
  that \<open>payload_unmarshal\<close> reads as what was published.\<close>

theorem feed_follows_commits:
  assumes "feed_run encode layout namespace max_backoff ls f" "\<And>e. Published e \<in> set ls \<Longrightarrow> payload_unmarshal layout (encode e) = Some e"
  shows "subseq (taken_of ls @ delivering (fd_listener f)) (published_in namespace ls)
     \<and> (\<not> interrupted ls \<longrightarrow> (\<exists>es. fd_queue f = map encode es \<and>
          taken_of ls @ delivering (fd_listener f) @ events_in namespace es
            = published_in namespace ls))"
proof -
  from feed_inv_run [OF assms] obtain es where es: "fd_queue f = map encode es"
    "subseq (taken_of ls @ delivering (fd_listener f) @ events_in namespace es) (published_in namespace ls)"
    "interrupted ls \<or> taken_of ls @ delivering (fd_listener f) @ events_in namespace es
       = published_in namespace ls"
    by (auto simp: feed_inv_def Let_def)
  with subseq_drop_tail [of "taken_of ls @ delivering (fd_listener f)"] show ?thesis by auto
qed

text \<open>For examples: payloads in the text of \<^verbatim>\<open>json.Marshal\<close>, and no lenient parser of times.\<close>

definition strict_times :: "string \<Rightarrow> go_time option" where
  "strict_times s = None"

definition example_payload :: "string \<Rightarrow> string \<Rightarrow> notify_payload" where
  "example_payload ns v = \<lparr>np_namespace = ns, np_key = ''k'', np_old_value = [], np_new_value = v, np_changed_by = ''u'', np_changed_at = 0\<rparr>"

lemma example_reads: "ascii ns \<Longrightarrow> ascii v \<Longrightarrow> payload_unmarshal strict_times (payload_json (example_payload ns v)) = Some (example_payload ns v)"
  by (rule unmarshal_ascii) (simp_all add: example_payload_def, simp_all add: ascii_def)

definition example_labels :: "feed_label list" where
  "example_labels = [Published (example_payload ''a'' ''1''), Published (example_payload ''b'' ''2''),
     Fed (Notified (payload_json (example_payload ''a'' ''1'')))]"

definition example_feed :: feed where
  "example_feed = \<lparr>fd_listener = (listen_start 0)\<lparr>li_pc := Delivering (payload_event (example_payload ''a'' ''1''))\<rparr>,
     fd_queue = [payload_json (example_payload ''b'' ''2'')]\<rparr>"

lemma example_run: "feed_run payload_json strict_times ''a'' default_max_backoff example_labels example_feed"
proof -
  let ?step = "feed_step payload_json strict_times ''a'' default_max_backoff"
  let ?run = "feed_run payload_json strict_times ''a'' default_max_backoff"
  let ?a = "example_payload ''a'' ''1''" and ?b = "example_payload ''b'' ''2''"
  let ?f0 = "\<lparr>fd_listener = listen_start 0, fd_queue = []\<rparr> :: feed"
  let ?f2 = "?f0\<lparr>fd_queue := [payload_json ?a, payload_json ?b]\<rparr>"
  have sub: "subscribed (listen_start 0)" by (simp add: subscribed_def listen_start_def)
  have publish: "?step f (Published e) (f\<lparr>fd_queue := fd_queue f @ [payload_json e]\<rparr>)"
    if "subscribed (fd_listener f)" for f e
    using fs_publish [where f = f and e = e and encode = payload_json] that by simp
  have 1: "?run ([] @ [Published ?a]) (?f0\<lparr>fd_queue := [payload_json ?a]\<rparr>)"
    using publish [of ?f0 ?a] sub by (intro fr_step [OF fr_start]) simp
  have 2: "?run ([Published ?a] @ [Published ?b]) ?f2"
    using publish [of "?f0\<lparr>fd_queue := [payload_json ?a]\<rparr>" ?b] sub 1 by (intro fr_step) auto
  have "listen_step strict_times ''a'' default_max_backoff (fd_listener ?f2) (Notified (payload_json ?a))
      (on_notification strict_times ''a'' (payload_json ?a) (fd_listener ?f2))"
    by (rule ls_notified) (simp_all add: listen_start_def)
  moreover have "on_notification strict_times ''a'' (payload_json ?a) (listen_start 0)
      = (listen_start 0)\<lparr>li_pc := Delivering (payload_event ?a)\<rparr>"
    using example_reads [of "''a''" "''1''"]
    by (simp add: on_notification_def ascii_def listen_start_def) (simp add: example_payload_def)
  ultimately have "?step ?f2 (Fed (Notified (payload_json ?a))) example_feed"
    using fs_notified [of ?f2 "payload_json ?a" "[payload_json ?b]"] by (simp add: example_feed_def)
  from fr_step [OF 2 this] show ?thesis by (simp add: example_labels_def)
qed

theorem feed_follows_commits_witness:
  "subseq (taken_of example_labels @ delivering (fd_listener example_feed)) (published_in ''a'' example_labels)
     \<and> (\<exists>es. fd_queue example_feed = map payload_json es)"
proof -
  have "payload_unmarshal strict_times (payload_json e) = Some e" if "Published e \<in> set example_labels" for e
    using that example_reads by (auto simp: example_labels_def ascii_def)
  from feed_follows_commits [OF example_run this] show ?thesis
    by (auto simp: example_labels_def interrupted_def)
qed

end
