(* ===== verification/Pg_Shutdown.thy ===== *)
theory Pg_Shutdown
  imports Pg_Listen
begin

text \<open>
  The end of the Postgres listener: once its context is cancelled, the loop's own steps come
  to an end, each wait that the driver still answers with a notification buying two more;
  where none is left the loop has returned, with its connection and its channel closed, or
  has panicked in the call on the nil connection that a failed reconnect leads to.
\<close>

subsection \<open>Counting the loop's own steps\<close>

fun is_notified :: "listen_label \<Rightarrow> bool" where
  "is_notified (Notified payload) = True"
| "is_notified l = False"

text \<open>How many steps are left at most when every wait fails.\<close>

fun steps_left :: "listen_pc \<Rightarrow> nat" where
  "steps_left BackingOff = 4"
| "steps_left Connecting = 3"
| "steps_left Listening = 2"
| "steps_left (Delivering e) = 2"
| "steps_left Waiting = 1"
| "steps_left Returned = 0"
| "steps_left Panicked = 0"

lemma steps_left_bound: "steps_left pc \<le> 4"
  by (cases pc) simp_all

text \<open>What cancellation and a failed reconnect leave behind, and when the connection is closed.\<close>

definition shutdown_inv :: "listen_label list \<Rightarrow> listener \<Rightarrow> bool" where
  "shutdown_inv ls s \<longleftrightarrow>
     (Cancelled \<in> set ls \<longrightarrow> li_done s)
     \<and> (li_conn s = None \<longrightarrow> Connected None \<in> set ls) \<and> (li_pc s = Panicked \<longrightarrow> li_conn s = None)
     \<and> (li_conn s = None \<or> li_pc s \<in> {BackingOff, Connecting, Returned} \<longrightarrow> \<not> li_open s)"

lemma shutdown_inv_run: "listen_run layout namespace max_backoff ls s \<Longrightarrow> shutdown_inv ls s"
proof (induction rule: listen_run.induct)
  case (lr_step ls s l s')
  from lr_step.hyps(2) lr_step.IH show ?case
    by cases (auto simp: shutdown_inv_def on_notification_def on_wait_error_def on_backoff_over_def
      on_connect_def on_listen_def listen_return_def on_nil_call_def Let_def split: option.splits if_splits)
qed (simp add: shutdown_inv_def listen_start_def)

lemma own_step_left:
  assumes "listen_step layout namespace max_backoff s l s'" "li_done s"
  shows "(if own_label l then 1 else 0) + steps_left (li_pc s')
    \<le> steps_left (li_pc s) + (if is_notified l then 2 else 0)"
  using assms
  by cases (auto simp: on_notification_def on_wait_error_def on_backoff_over_def on_connect_def on_listen_def
    listen_return_def on_nil_call_def Let_def split: option.splits)

lemma own_steps_bounded:
  "listen_run layout namespace max_backoff (us @ Cancelled # ms) s \<Longrightarrow>
     length (filter own_label ms) + steps_left (li_pc s) \<le> 4 + 2 * length (filter is_notified ms)"
proof (induction ms arbitrary: s rule: rev_induct)
  case Nil
  show ?case by (simp add: steps_left_bound)
next
  case (snoc l ms)
  from snoc.prems have "listen_run layout namespace max_backoff ((us @ Cancelled # ms) @ [l]) s" by simp
  then obtain s1 where s1: "listen_run layout namespace max_backoff (us @ Cancelled # ms) s1"
    "listen_step layout namespace max_backoff s1 l s" by (rule listen_run_snoc_elim)
  have "li_done s1" using shutdown_inv_run [OF s1(1)] by (simp add: shutdown_inv_def)
  from own_step_left [OF s1(2) this] snoc.IH [OF s1(1)] show ?case by (auto split: if_splits)
qed

text \<open>A cancelled loop that has neither returned nor panicked can go on.\<close>

lemma cancelled_can_step:
  assumes "li_done s" "\<And>l s'. own_label l \<Longrightarrow> \<not> listen_step layout namespace max_backoff s l s'"
  shows "li_pc s = Returned \<or> li_pc s = Panicked"
proof -
  have stuck: "\<not> listen_step layout namespace max_backoff s NilCall s'"
    "\<not> listen_step layout namespace max_backoff s WaitFailed s'"
    "\<not> listen_step layout namespace max_backoff s Stopped s'"
    "\<not> listen_step layout namespace max_backoff s (Connected outcome) s'"
    "\<not> listen_step layout namespace max_backoff s (Listened success) s'" for s' outcome success
    using assms(2) by simp_all
  show ?thesis
  proof (cases "li_pc s")
    case Waiting
    with stuck(1,2) ls_nil ls_wait_failed show ?thesis by blast
  next
    case BackingOff
    with stuck(3) ls_backoff_done assms(1) show ?thesis by blast
  next
    case Connecting
    with stuck(4) ls_connect show ?thesis by blast
  next
    case Listening
    with stuck(5) ls_listen show ?thesis by blast
  next
    case (Delivering e)
    with stuck(3) ls_deliver_done assms(1) show ?thesis by blast
  qed simp_all
qed

subsection \<open>The property\<close>

text \<open>C36: A cancelled listener ends. In every run, after its context has been cancelled the loop
  makes at most four steps of its own and two more for every notification the driver still
  hands out; and where it can make none, it has returned, with its channel and its
  connection closed, unless a reconnect has failed in that run, in which case it may also
  have panicked in the call on the nil connection, with its channel closed.\<close>

theorem cancelled_listener_ends:
  assumes "listen_run layout namespace max_backoff (us @ Cancelled # ms) s"
  shows "length (filter own_label ms) \<le> 4 + 2 * length (filter is_notified ms)
     \<and> ((\<forall>l s'. own_label l \<longrightarrow> \<not> listen_step layout namespace max_backoff s l s') \<longrightarrow>
          (li_pc s = Returned \<and> closed (li_chan s) \<and> \<not> li_open s)
          \<or> (li_pc s = Panicked \<and> closed (li_chan s) \<and> Connected None \<in> set (us @ ms)))"
proof -
  have inv: "shutdown_inv (us @ Cancelled # ms) s" by (rule shutdown_inv_run [OF assms])
  then have stop: "li_done s" by (simp add: shutdown_inv_def)
  have "(li_pc s = Returned \<and> closed (li_chan s) \<and> \<not> li_open s) \<or> (li_pc s = Panicked \<and> closed (li_chan s) \<and> Connected None \<in> set (us @ ms))"
    if "\<And>l s'. own_label l \<Longrightarrow> \<not> listen_step layout namespace max_backoff s l s'"
    using cancelled_can_step [OF stop that] listen_closed [OF assms] inv by (auto simp: shutdown_inv_def)
  with own_steps_bounded [OF assms] show ?thesis by auto
qed

text \<open>In the example the connection is lost, the context is cancelled, and the loop stops in its backoff.\<close>

theorem cancelled_listener_ends_witness:
  "\<exists>s. listen_run (\<lambda>p. None) ''default'' default_max_backoff [WaitFailed, Cancelled, Stopped] s
     \<and> li_pc s = Returned \<and> closed (li_chan s) \<and> \<not> li_open s
     \<and> length (filter own_label [Stopped]) \<le> 4"
proof -
  let ?s1 = "(listen_start 0)\<lparr>li_open := False, li_pc := BackingOff\<rparr>"
  let ?s2 = "?s1\<lparr>li_done := True\<rparr>"
  have r2: "listen_run (\<lambda>p. None) ''default'' default_max_backoff ([WaitFailed] @ [Cancelled]) ?s2"
    by (rule lr_step [OF listen_lost ls_cancel])
  have "listen_step (\<lambda>p. None) ''default'' default_max_backoff ?s2 Stopped (listen_return ?s2)"
    by (rule ls_backoff_done) simp_all
  from lr_step [OF r2 this]
  have run: "listen_run (\<lambda>p. None) ''default'' default_max_backoff ([WaitFailed] @ Cancelled # [Stopped]) (listen_return ?s2)"
    by simp
  have "\<not> listen_step (\<lambda>p. None) ''default'' default_max_backoff (listen_return ?s2) l s'" if "own_label l" for l s'
    using that by (auto simp: listen_return_def elim: listen_step_elim)
  with cancelled_listener_ends [OF run] run show ?thesis
    by (intro exI [of _ "listen_return ?s2"]) simp
qed

end
