(* ===== verification/System_Pg.thy ===== *)
theory System_Pg
  imports Loop_Client Pg_Feed Pg_Tables
begin

text \<open>
  A provider on the Postgres store: commits of writes, each with its notification, the
  connection and the listener of \<open>Pg_Feed\<close>, and the provider's event loop, which lists the
  committed overrides again on each event. The model begins when \<open>New\<close> returns, with a
  first snapshot of what was committed then.
\<close>

subsection \<open>Steps\<close>

text \<open>\<open>gs_values\<close> are the committed overrides of the provider's namespace.\<close>

record pg_system =
  gs_values :: "string \<rightharpoonup> string"
  gs_feed :: feed
  gs_prov :: provider
  gs_pc :: loop_pc

datatype pg_label = Fed_on feed_label | Loop_moved move | Loop_ended

text \<open>
  A write commits with its notification: \<open>Set\<close> with the value that the trigger reports,
  \<open>Delete\<close> with an empty one. The listener's context is the provider's.
\<close>

inductive pg_step ::
  "(notify_payload \<Rightarrow> string) \<Rightarrow> (string \<Rightarrow> go_time option) \<Rightarrow> int
     \<Rightarrow> pg_system \<Rightarrow> pg_label \<Rightarrow> pg_system \<Rightarrow> bool"
  for encode layout max_backoff where
  gs_set: "np_namespace n = p_ns (gs_prov s) \<Longrightarrow>
      feed_step encode layout (p_ns (gs_prov s)) max_backoff (gs_feed s) (Published n) f \<Longrightarrow>
      pg_step encode layout max_backoff s (Fed_on (Published n))
        (s\<lparr>gs_feed := f, gs_values := (gs_values s)(np_key n \<mapsto> np_new_value n)\<rparr>)"
| gs_delete: "np_namespace n = p_ns (gs_prov s) \<Longrightarrow> np_new_value n = [] \<Longrightarrow>
      feed_step encode layout (p_ns (gs_prov s)) max_backoff (gs_feed s) (Published n) f \<Longrightarrow>
      pg_step encode layout max_backoff s (Fed_on (Published n))
        (s\<lparr>gs_feed := f, gs_values := (gs_values s)(np_key n := None)\<rparr>)"
| gs_other_namespace: "np_namespace n \<noteq> p_ns (gs_prov s) \<Longrightarrow>
      feed_step encode layout (p_ns (gs_prov s)) max_backoff (gs_feed s) (Published n) f \<Longrightarrow>
      pg_step encode layout max_backoff s (Fed_on (Published n)) (s\<lparr>gs_feed := f\<rparr>)"
| gs_listener: "feed_step encode layout (p_ns (gs_prov s)) max_backoff (gs_feed s) (Fed l) f \<Longrightarrow>
      (\<And>e. l \<noteq> Taken e) \<Longrightarrow> pg_step encode layout max_backoff s (Fed_on (Fed l)) (s\<lparr>gs_feed := f\<rparr>)"
| gs_event: "gs_pc s = PSelect \<Longrightarrow>
      feed_step encode layout (p_ns (gs_prov s)) max_backoff (gs_feed s) (Fed (Taken e)) f \<Longrightarrow>
      pg_step encode layout max_backoff s (Fed_on (Fed (Taken e))) (s\<lparr>gs_feed := f, gs_pc := PList (OnEvent e)\<rparr>)"
| gs_loop: "loop_move (gs_values s) (gs_prov s) (gs_pc s) m p pc \<Longrightarrow>
      pg_step encode layout max_backoff s (Loop_moved m) (s\<lparr>gs_prov := p, gs_pc := pc\<rparr>)"
| gs_done: "gs_pc s = PSelect \<Longrightarrow> li_done (fd_listener (gs_feed s)) \<Longrightarrow>
      pg_step encode layout max_backoff s Loop_ended (s\<lparr>gs_pc := PReturned\<rparr>)"
| gs_closed: "gs_pc s = PSelect \<Longrightarrow> recv (li_chan (fd_listener (gs_feed s))) = (Drained, c) \<Longrightarrow>
      pg_step encode layout max_backoff s Loop_ended (s\<lparr>gs_pc := PReturned\<rparr>)"

text \<open>Runs of a provider that \<open>New\<close> made when \<open>m0\<close> was committed, from its \<open>Watch\<close> on.\<close>

inductive pg_system_run ::
  "(notify_payload \<Rightarrow> string) \<Rightarrow> (string \<Rightarrow> go_time option) \<Rightarrow> int \<Rightarrow> gtype \<Rightarrow> gval list \<Rightarrow> gval
     \<Rightarrow> provider_option list \<Rightarrow> (string \<rightharpoonup> string) \<Rightarrow> pg_label list \<Rightarrow> pg_system \<Rightarrow> bool"
  for encode layout max_backoff t h base opts m0 where
  gr_start: "new_provider (Some t) h base opts now (Inr m0) None = Inr (Inr p) \<Longrightarrow>
      pg_system_run encode layout max_backoff t h base opts m0 []
        \<lparr>gs_values = m0, gs_feed = \<lparr>fd_listener = listen_start conn, fd_queue = []\<rparr>, gs_prov = p, gs_pc = PSelect\<rparr>"
| gr_step: "pg_system_run encode layout max_backoff t h base opts m0 ls s \<Longrightarrow>
      pg_step encode layout max_backoff s l s' \<Longrightarrow>
      pg_system_run encode layout max_backoff t h base opts m0 (ls @ [l]) s'"

definition feed_part :: "pg_label list \<Rightarrow> feed_label list" where
  "feed_part ls = concat (map (\<lambda>l. case l of Fed_on m \<Rightarrow> [m] | _ \<Rightarrow> []) ls)"

definition move_part :: "pg_label list \<Rightarrow> move list" where
  "move_part ls = concat (map (\<lambda>l. case l of Loop_moved m \<Rightarrow> [m] | _ \<Rightarrow> []) ls)"

lemma parts_snoc [simp]:
  "feed_part [] = []" "move_part [] = []"
  "feed_part (ls @ [l]) = feed_part ls @ (case l of Fed_on m \<Rightarrow> [m] | _ \<Rightarrow> [])"
  "move_part (ls @ [l]) = move_part ls @ (case l of Loop_moved m \<Rightarrow> [m] | _ \<Rightarrow> [])"
  by (simp_all add: feed_part_def move_part_def)

subsection \<open>The parts of a run\<close>

lemma loop_move_ns: "loop_move store p pc m p' pc' \<Longrightarrow> p_ns p' = p_ns p"
  by (induction rule: loop_move.induct)
     (auto simp: request_refresh_def subscribe_def Let_def notify_subscribers_def bind_res_Inr_iff dest: refresh_same)

lemma pg_step_ns: "pg_step encode layout max_backoff s l s' \<Longrightarrow> p_ns (gs_prov s') = p_ns (gs_prov s)"
  by (induction rule: pg_step.induct) (simp_all add: loop_move_ns)

lemma pg_system_feed:
  "pg_system_run encode layout max_backoff t h base opts m0 ls s \<Longrightarrow>
     feed_run encode layout (p_ns (gs_prov s)) max_backoff (feed_part ls) (gs_feed s)"
proof (induction rule: pg_system_run.induct)
  case (gr_start now p conn)
  then show ?case by (simp add: fr_start)
next
  case (gr_step ls s l s')
  note ns = pg_step_ns [OF gr_step.hyps(2)]
  from gr_step.hyps(2) show ?case
    unfolding ns by cases (use gr_step.IH in \<open>auto intro: fr_step\<close>)
qed

lemma pg_system_snapshot:
  assumes "pg_system_run encode layout max_backoff t h base opts m0 ls s"
    and "build_catalog (Some t) = Inr cat" "flat_config t cat"
  shows "snapshot_is base cat (installed m0 (move_part ls)) (gs_prov s)"
  using assms(1)
proof induction
  case (gr_start now p conn)
  with snapshot_is_new [OF assms(2,3)] show ?case by simp
next
  case (gr_step ls s l s')
  from gr_step.hyps(2) show ?case
    by cases (use gr_step.IH snapshot_is_move in auto)
qed

lemma published_part [simp]: "Published n \<in> set (feed_part ls) \<longleftrightarrow> Fed_on (Published n) \<in> set ls"
  by (force simp: feed_part_def split: pg_label.splits)

text \<open>An event is on its way when not all that was published has been taken.\<close>

lemma pg_system_caught_up:
  assumes "pg_system_run encode layout max_backoff t h base opts m0 ls s" "\<And>n. Fed_on (Published n) \<in> set ls \<Longrightarrow> payload_unmarshal layout (encode n) = Some n"
    and "\<not> interrupted (feed_part ls)" "\<forall>err. Loop_moved (RefreshFailed err) \<notin> set ls"
  shows "caught_up (\<lambda>m. m \<noteq> gs_values s)
     (taken_of (feed_part ls) \<noteq> published_in (p_ns (gs_prov s)) (feed_part ls))
     (installed m0 (move_part ls)) (gs_pc s)"
  using assms
proof induction
  case (gr_start now p conn)
  show ?case by (simp add: caught_up_def)
next
  case (gr_step ls s l s')
  let ?ns = "p_ns (gs_prov s)" and ?fl = "feed_part ls"
  note ns = pg_step_ns [OF gr_step.hyps(2)]
  have read: "payload_unmarshal layout (encode n) = Some n" if "Fed_on (Published n) \<in> set ls" for n
    using that gr_step.prems(1) by simp
  have inter: "\<not> interrupted ?fl" using gr_step.prems(2) by (cases l) simp_all
  with gr_step.IH [OF read] gr_step.prems(3) have IH:
    "caught_up (\<lambda>m. m \<noteq> gs_values s) (taken_of ?fl \<noteq> published_in ?ns ?fl) (installed m0 (move_part ls)) (gs_pc s)"
    by simp
  have "feed_inv encode ?ns ?fl (gs_feed s)"
    by (rule feed_inv_run [OF pg_system_feed [OF gr_step.hyps(1)]]) (simp add: read)
  with inter obtain rest where "taken_of ?fl @ rest = published_in ?ns ?fl"
    by (auto simp: feed_inv_def Let_def)
  then have more: "taken_of ?fl \<noteq> published_in ?ns ?fl @ [e]" for e
    by (metis append_assoc append_self_conv not_Cons_self2 append_is_Nil_conv)
  from gr_step.hyps(2) have "caught_up (\<lambda>m. m \<noteq> gs_values s')
      (taken_of (feed_part (ls @ [l])) \<noteq> published_in ?ns (feed_part (ls @ [l])))
      (installed m0 (move_part (ls @ [l]))) (gs_pc s')"
  proof cases
    case gs_set
    with more show ?thesis by (simp add: caught_up_waiting)
  next
    case gs_delete
    with more show ?thesis by (simp add: caught_up_waiting)
  next
    case gs_other_namespace
    with IH show ?thesis by simp
  next
    case (gs_listener l')
    with IH show ?thesis by (cases l') auto
  next
    case gs_event
    then show ?thesis by (simp add: caught_up_taken)
  next
    case (gs_loop m p pc)
    with caught_up_move [OF IH gs_loop(3)] gr_step.prems(3) show ?thesis by auto
  qed (use IH in \<open>simp_all add: caught_up_def\<close>)
  then show ?case by (simp only: ns)
qed

subsection \<open>Properties\<close>

text \<open>Nothing is under way: no payload at the connection, no event in the listener's hands or in
  its channel, and the loop waits.\<close>

definition pg_quiet :: "pg_system \<Rightarrow> bool" where
  "pg_quiet s \<longleftrightarrow> fd_queue (gs_feed s) = [] \<and> delivering (fd_listener (gs_feed s)) = [] \<and> gs_pc s = PSelect"


subsection \<open>The store's programs as steps\<close>

text \<open>The state after notifications \<open>ns\<close> have been sent and \<open>m\<close> committed.\<close>

definition after_commits :: "(notify_payload \<Rightarrow> string) \<Rightarrow> notify_payload list \<Rightarrow> (string \<rightharpoonup> string) \<Rightarrow> pg_system \<Rightarrow> pg_system" where
  "after_commits encode ns m s = s\<lparr>gs_values := m, gs_feed := (gs_feed s)\<lparr>fd_queue :=
     (if subscribed (fd_listener (gs_feed s)) then fd_queue (gs_feed s) @ map encode ns else fd_queue (gs_feed s))\<rparr>\<rparr>"

lemma after_commits_simps [simp]:
  "gs_prov (after_commits encode ns m s) = gs_prov s" "gs_values (after_commits encode ns m s) = m"
  "after_commits encode [] (gs_values s) s = s"
  "after_commits encode ns' m' (after_commits encode ns m s) = after_commits encode (ns @ ns') m' s"
  by (simp_all add: after_commits_def)

lemma wrote_is_step:
  assumes "wrote op1 old new" "gs_values g = tb_values old (p_ns (gs_prov g))"
  shows "(new = old) \<or> (\<exists>n. tb_notes new = tb_notes old @ [n]
     \<and> pg_step encode layout max_backoff g (Fed_on (Published n))
         (after_commits encode [n] (tb_values new (p_ns (gs_prov g))) g))"
proof (cases "op_effective (tb_values old) op1")
  case True
  let ?ns = "p_ns (gs_prov g)"
  from True assms(1) obtain a n where n: "op_record (tb_values old) op1 a" "tb_notes new = tb_notes old @ [n]"
    "(np_namespace n, np_key n) = op_target op1" "np_new_value n = ae_new a"
    "tb_values new = kv_step op1 (tb_values old)" by (auto simp: wrote_def)
  have new_value: "np_new_value n = str_or_empty (op_result op1)" using n(1,4) by (simp add: op_record_def)
  let ?f = "(gs_feed g)\<lparr>fd_queue := (if subscribed (fd_listener (gs_feed g)) then fd_queue (gs_feed g) @ [encode n]
      else fd_queue (gs_feed g))\<rparr>"
  have pub: "feed_step encode layout ?ns max_backoff (gs_feed g) (Published n) ?f" by (rule fs_publish)
  have after: "after_commits encode [n] m g = g\<lparr>gs_feed := ?f, gs_values := m\<rparr>" for m
    by (simp add: after_commits_def)
  have "pg_step encode layout max_backoff g (Fed_on (Published n)) (after_commits encode [n] (tb_values new ?ns) g)"
  proof (cases "np_namespace n = ?ns")
    case True
    show ?thesis
    proof (cases op1)
      case (OpSet e now)
      with n(3,5) new_value True assms(2)
      have "tb_values new ?ns = (gs_values g)(np_key n \<mapsto> np_new_value n)"
        by (simp add: op_target_def op_result_def str_or_empty_def)
      with gs_set [OF True pub] show ?thesis by (simp add: after)
    next
      case (OpDelete ns k b now)
      with n(3,5) new_value True assms(2)
      have "tb_values new ?ns = (gs_values g)(np_key n := None)" "np_new_value n = []"
        by (simp_all add: op_target_def op_result_def str_or_empty_def)
      with gs_delete [OF True _ pub] show ?thesis by (simp add: after)
    qed
  next
    case False
    then have "tb_values new ?ns = gs_values g"
      using n(3) [symmetric] n(5) assms(2) by (auto simp: kv_step_eq simp del: kv_step.simps)
    with gs_other_namespace [OF False pub] show ?thesis by (simp add: after)
  qed
  with n(2) show ?thesis by blast
qed (use assms(1) in \<open>auto simp: wrote_def\<close>)

text \<open>C26: The store's own programs drive this system: whatever sequence of writes and deletions runs
  on the database, with whatever failures, each transaction that commits is one commit step
  of the system with the notification it sent, and the others are none; so a run of the
  system, continued by the operations, is a run of the system, and the committed values it
  ends with are the database's.\<close>

theorem pg_writes_are_steps:
  assumes "pg_database db committed working" "working w = None" "pg_run db st ops w = (rs, w')"
    and "pg_system_run encode layout max_backoff t h base opts m0 ls g"
    and "gs_values g = tb_values (committed w) (p_ns (gs_prov g))"
  shows "\<exists>ns. tb_notes (committed w') = tb_notes (committed w) @ ns
     \<and> pg_system_run encode layout max_backoff t h base opts m0 (ls @ map (\<lambda>n. Fed_on (Published n)) ns)
         (after_commits encode ns (tb_values (committed w') (p_ns (gs_prov g))) g)"
  using assms(2-5)
proof (induction ops arbitrary: w rs ls g)
  case Nil
  have "after_commits encode [] (tb_values (committed w) (p_ns (gs_prov g))) g = g"
    using Nil.prems(4) by (metis after_commits_simps(3))
  with Nil show ?case by (intro exI [of _ "[]"]) simp
next
  case (Cons op1 ops)
  obtain r w1 where r: "run_prog db (pg_op st op1) w = (r, w1)" by fastforce
  obtain rs1 where rs1: "pg_run db st ops w1 = (rs1, w')"
    using Cons.prems(2) r by (auto split: prod.splits)
  have idle: "working w1 = None" using pg_database.pg_op_idle [OF assms(1) Cons.prems(1), of st op1] r by simp
  have "settled committed w (wrote op1 (committed w)) (r, w1)"
    using pg_database.pg_op_settled [OF assms(1), of w op1 st] r by simp
  then have "committed w1 = committed w \<or> wrote op1 (committed w) (committed w1)"
    by (auto simp: settled_def split: sum.splits)
  with wrote_is_step [OF _ Cons.prems(4)] consider (same) "committed w1 = committed w"
    | (step) n where "tb_notes (committed w1) = tb_notes (committed w) @ [n]"
        "pg_step encode layout max_backoff g (Fed_on (Published n))
           (after_commits encode [n] (tb_values (committed w1) (p_ns (gs_prov g))) g)" by blast
  then show ?case
  proof cases
    case same
    with Cons.IH [OF idle rs1 Cons.prems(3)] Cons.prems(4) show ?thesis by simp
  next
    case step
    from Cons.IH [OF idle rs1 gr_step [OF Cons.prems(3) step(2)]] obtain ns where
      "tb_notes (committed w') = tb_notes (committed w1) @ ns"
      "pg_system_run encode layout max_backoff t h base opts m0
         ((ls @ [Fed_on (Published n)]) @ map (\<lambda>n. Fed_on (Published n)) ns)
         (after_commits encode ([n] @ ns) (tb_values (committed w') (p_ns (gs_prov g))) g)" by auto
    with step(1) show ?thesis by (intro exI [of _ "n # ns"]) simp
  qed
qed

subsection \<open>Example runs\<close>

lemma pg_start_ex:
  assumes "build_catalog (Some t) = Inr cat" "flat_config t cat"
  shows "\<exists>p. pg_system_run encode layout max_backoff t h base opts m0 []
        \<lparr>gs_values = m0, gs_feed = \<lparr>fd_listener = listen_start 0, fd_queue = []\<rparr>, gs_prov = p, gs_pc = PSelect\<rparr>
     \<and> prov_flat p \<and> p_desc_by_key p = desc_by_key cat \<and> p_subs p = [] \<and> p_next p = 0
     \<and> p_chans p = (\<lambda>i. make_chan 0) \<and> p_buf_size p = po_subscriber_buffer (provider_config opts)
     \<and> p_ns p = po_namespace (provider_config opts)"
proof -
  let ?q = "init_provider t h base cat (provider_config opts)"
  have "prov_flat ?q" using assms by (simp add: prov_flat_def init_provider_same)
  then obtain p where "new_provider (Some t) h base opts 1 (Inr m0) None = Inr (Inr p)" "prov_flat p"
    "p_desc_by_key p = desc_by_key cat" "p_subs p = []" "p_next p = 0" "p_chans p = (\<lambda>i. make_chan 0)"
    "p_buf_size p = po_subscriber_buffer (provider_config opts)" "p_ns p = po_namespace (provider_config opts)"
    using assms(1) by (simp add: new_provider_def Let_def refresh_flat prov_flat_def init_provider_same)
      (simp add: init_provider_def)
  with gr_start show ?thesis by blast
qed

text \<open>A step of the listener, and a write, on concrete states.\<close>

lemma gs_listenerI:
  assumes "feed_step encode layout (p_ns p) max_backoff f (Fed l) f'" "\<And>e. l \<noteq> Taken e"
  shows "pg_step encode layout max_backoff \<lparr>gs_values = m, gs_feed = f, gs_prov = p, gs_pc = pc\<rparr> (Fed_on (Fed l))
     \<lparr>gs_values = m, gs_feed = f', gs_prov = p, gs_pc = pc\<rparr>"
  using gs_listener [where s = "\<lparr>gs_values = m, gs_feed = f, gs_prov = p, gs_pc = pc\<rparr>"] assms by simp

lemma gs_setI:
  assumes "np_namespace n = p_ns p"
    and "f' = f\<lparr>fd_queue := (if subscribed (fd_listener f) then fd_queue f @ [encode n] else fd_queue f)\<rparr>"
  shows "pg_step encode layout max_backoff \<lparr>gs_values = m, gs_feed = f, gs_prov = p, gs_pc = pc\<rparr> (Fed_on (Published n))
     \<lparr>gs_values = m(np_key n \<mapsto> np_new_value n), gs_feed = f', gs_prov = p, gs_pc = pc\<rparr>"
  using gs_set [where s = "\<lparr>gs_values = m, gs_feed = f, gs_prov = p, gs_pc = pc\<rparr>" and n = n] assms fs_publish [of encode layout]
  by simp

text \<open>C27: For every config whose managed fields are reached without pointers and whose managed
  slices are exactly \<^verbatim>\<open>[]string\<close> (\<open>flat_config\<close>): what is committed while the connection is down is not made up for: after a lost
  connection and a reconnection that succeeded, with nothing under way, the provider still
  serves what it had before, because reconnecting neither lists nor reports an event; so
  the connection has to last in \<open>pg_system_converges\<close>.\<close>

theorem pg_reconnect_leaves_gap:
  assumes "build_catalog (Some t) = Inr cat" "flat_config t cat"
  shows "\<exists>n s. pg_system_run encode layout max_backoff t h base opts m0
        [Fed_on (Fed WaitFailed), Fed_on (Published n), Fed_on (Fed (Slept initial_backoff)),
         Fed_on (Fed (Connected (Some 1))), Fed_on (Fed (Listened True))] s
     \<and> pg_quiet s \<and> gs_values s = m0(k \<mapsto> v) \<and> provider_get (gs_prov s) = Inr (apply_pure m0 cat base)"
proof -
  let ?run = "pg_system_run encode layout max_backoff t h base opts m0"
  let ?st = "\<lambda>m s p. \<lparr>gs_values = m, gs_feed = \<lparr>fd_listener = s, fd_queue = []\<rparr>, gs_prov = p, gs_pc = PSelect\<rparr>"
  obtain p where p: "?run [] (?st m0 (listen_start 0) p)"
    using pg_start_ex [OF assms] by blast
  let ?ns = "p_ns p" and ?m = "m0(k \<mapsto> v)"
  let ?n = "\<lparr>np_namespace = p_ns p, np_key = k, np_old_value = [], np_new_value = v, np_changed_by = [], np_changed_at = 0\<rparr>"
  let ?l0 = "listen_start 0"
  let ?l1 = "?l0\<lparr>li_open := False, li_pc := BackingOff\<rparr>"
  let ?l2 = "on_backoff_over max_backoff ?l1"
  let ?l3 = "on_connect (Some 1) ?l2"
  let ?l4 = "on_listen True ?l3"
  have feed: "feed_step encode layout ?ns max_backoff \<lparr>fd_listener = s, fd_queue = []\<rparr> (Fed l) \<lparr>fd_listener = s', fd_queue = []\<rparr>"
    if "listen_step layout ?ns max_backoff s l s'" "\<And>x. l \<noteq> Notified x" for s l s'
  proof -
    let ?f = "\<lparr>fd_listener = s, fd_queue = []\<rparr>"
    have "feed_step encode layout ?ns max_backoff ?f (Fed l)
        (?f\<lparr>fd_listener := s', fd_queue := (if subscribed s' then fd_queue ?f else [])\<rparr>)"
      by (rule fs_other) (use that in simp_all)
    then show ?thesis by (simp cong: if_cong)
  qed
  have a: "listen_step layout ?ns max_backoff ?l0 WaitFailed ?l1"
    using ls_wait_failed [of ?l0] by (simp add: listen_start_def on_wait_error_def)
  have b: "listen_step layout ?ns max_backoff ?l1 (Slept initial_backoff) ?l2"
    using ls_backoff_over [of ?l1] by (simp add: listen_start_def)
  have c: "listen_step layout ?ns max_backoff ?l2 (Connected (Some 1)) ?l3"
    by (rule ls_connect) (simp add: on_backoff_over_def)
  have d: "listen_step layout ?ns max_backoff ?l3 (Listened True) ?l4"
    by (rule ls_listen) (simp add: on_connect_def)
  have commit: "pg_step encode layout max_backoff (?st m0 ?l1 p) (Fed_on (Published ?n)) (?st ?m ?l1 p)"
    using gs_setI [of ?n p "\<lparr>fd_listener = ?l1, fd_queue = []\<rparr>" "\<lparr>fd_listener = ?l1, fd_queue = []\<rparr>" encode]
    by (simp add: subscribed_def)
  have "?run ([] @ [Fed_on (Fed WaitFailed)]) (?st m0 ?l1 p)"
    by (intro gr_step [OF p] gs_listenerI feed a) simp_all
  then have "?run (([] @ [Fed_on (Fed WaitFailed)]) @ [Fed_on (Published ?n)]) (?st ?m ?l1 p)"
    by (rule gr_step [OF _ commit])
  then have "?run (((([] @ [Fed_on (Fed WaitFailed)]) @ [Fed_on (Published ?n)]) @ [Fed_on (Fed (Slept initial_backoff))])) (?st ?m ?l2 p)"
    by (rule gr_step) (intro gs_listenerI feed b; simp)
  then have "?run ((((([] @ [Fed_on (Fed WaitFailed)]) @ [Fed_on (Published ?n)]) @ [Fed_on (Fed (Slept initial_backoff))])
      @ [Fed_on (Fed (Connected (Some 1)))])) (?st ?m ?l3 p)"
    by (rule gr_step) (intro gs_listenerI feed c; simp)
  then have "?run (((((([] @ [Fed_on (Fed WaitFailed)]) @ [Fed_on (Published ?n)]) @ [Fed_on (Fed (Slept initial_backoff))])
      @ [Fed_on (Fed (Connected (Some 1)))]) @ [Fed_on (Fed (Listened True))])) (?st ?m ?l4 p)"
    by (rule gr_step) (intro gs_listenerI feed d; simp)
  then have run: "?run [Fed_on (Fed WaitFailed), Fed_on (Published ?n), Fed_on (Fed (Slept initial_backoff)),
      Fed_on (Fed (Connected (Some 1))), Fed_on (Fed (Listened True))] (?st ?m ?l4 p)" by simp
  from pg_system_snapshot [OF run assms] have "provider_get p = Inr (apply_pure m0 cat base)"
    by (simp add: snapshot_is_def move_part_def)
  moreover have "pg_quiet (?st ?m ?l4 p)"
    by (simp add: pg_quiet_def delivering_def on_listen_def on_connect_def on_backoff_over_def)
      (simp add: listen_start_def make_chan_def)
  ultimately show ?thesis using run by (intro exI conjI) auto
qed

theorem pg_writes_are_steps_witness:
  "\<exists>ns g. tb_notes (pg_committed (snd (pg_run pg_handler pg_default sample_ops (sample_world sample_faults)))) = ns
     \<and> pg_system_run payload_json strict_times default_max_backoff sample_type [] sample_base [with_namespace ''a'']
         Map.empty (map (\<lambda>n. Fed_on (Published n)) ns) g
     \<and> gs_values g = tb_values (pg_committed (snd (pg_run pg_handler pg_default sample_ops (sample_world sample_faults))))
         (p_ns (gs_prov g))"
proof -
  let ?w = "sample_world sample_faults"
  obtain p where p: "pg_system_run payload_json strict_times default_max_backoff sample_type [] sample_base
      [with_namespace ''a''] Map.empty []
      \<lparr>gs_values = Map.empty, gs_feed = \<lparr>fd_listener = listen_start 0, fd_queue = []\<rparr>, gs_prov = p, gs_pc = PSelect\<rparr>"
    using pg_start_ex [OF sample_build sample_flat, of payload_json strict_times default_max_backoff "[]" sample_base
        "[with_namespace ''a'']" Map.empty] by blast
  have idle: "pg_working ?w = None" by (simp add: pg_working_def sample_world_def)
  have none: "tb_values (pg_committed ?w) ns = Map.empty" "tb_notes (pg_committed ?w) = []" for ns
    by (simp_all add: pg_committed_def sample_world_def fun_eq_iff)
  from pg_writes_are_steps [OF pg_tables.pg_database_axioms idle prod.collapse [symmetric] p, of pg_default sample_ops] none
  show ?thesis by (auto simp: none)
qed

theorem pg_reconnect_leaves_gap_witness:
  "\<exists>ls s. pg_system_run payload_json strict_times default_max_backoff sample_type [] sample_base [] Map.empty ls s
     \<and> pg_quiet s \<and> gs_values s = [''timeout'' \<mapsto> ''3s'']
     \<and> provider_get (gs_prov s) = Inr (apply_pure Map.empty sample_catalog sample_base)"
  using pg_reconnect_leaves_gap [OF sample_build sample_flat, of payload_json strict_times default_max_backoff
      "[]" sample_base "[]" Map.empty "''timeout''" "''3s''"] by blast

text \<open>A commit that goes all the way: published, notified, delivered, taken, listed, installed.\<close>

definition delivery_labels :: "notify_payload \<Rightarrow> pg_label list" where
  "delivery_labels n = [Fed_on (Fed (Notified (payload_json n))), Fed_on (Fed Delivered),
     Fed_on (Fed (Taken (payload_event n))), Loop_moved Called]"

definition followed_labels :: "notify_payload \<Rightarrow> pg_label list" where
  "followed_labels n = Fed_on (Published n) # delivery_labels n @ [Loop_moved (Installed [np_key n \<mapsto> np_new_value n])]"

abbreviation pg_idle :: "(string \<rightharpoonup> string) \<Rightarrow> string list \<Rightarrow> provider \<Rightarrow> loop_pc \<Rightarrow> pg_system" where
  "pg_idle m q p pc \<equiv> \<lparr>gs_values = m, gs_feed = \<lparr>fd_listener = listen_start 0, fd_queue = q\<rparr>, gs_prov = p, gs_pc = pc\<rparr>"

lemma pg_publish_ex:
  assumes "np_namespace n = p_ns p"
  shows "pg_step payload_json strict_times default_max_backoff (pg_idle m [] p PSelect) (Fed_on (Published n))
     (pg_idle (m(np_key n \<mapsto> np_new_value n)) [payload_json n] p PSelect)"
  using gs_setI [of n p "\<lparr>fd_listener = listen_start 0, fd_queue = [payload_json n]\<rparr>"
      "\<lparr>fd_listener = listen_start 0, fd_queue = []\<rparr>"
      payload_json strict_times default_max_backoff m PSelect] assms
  by (simp add: subscribed_def) (simp add: listen_start_def)

lemma pg_delivery_ex:
  assumes "np_namespace n = p_ns p" "payload_unmarshal strict_times (payload_json n) = Some n"
  shows "steps_from (pg_step payload_json strict_times default_max_backoff) (pg_idle m [payload_json n] p PSelect)
     (delivery_labels n) (pg_idle m [] p (PInstall (OnEvent (payload_event n)) m))"
proof -
  let ?step = "pg_step payload_json strict_times default_max_backoff"
  let ?st = "\<lambda>s q pc. \<lparr>gs_values = m, gs_feed = \<lparr>fd_listener = s, fd_queue = q\<rparr>, gs_prov = p, gs_pc = pc\<rparr>"
  let ?e = "payload_event n" and ?l0 = "listen_start 0"
  let ?l1 = "?l0\<lparr>li_pc := Delivering ?e\<rparr>"
  let ?l2 = "?l0\<lparr>li_chan := (make_chan 64)\<lparr>buf := [?e]\<rparr>\<rparr>"
  have sub: "subscribed ?l1" "subscribed ?l2" "subscribed ?l0" by (simp_all add: subscribed_def listen_start_def)
  have "on_notification strict_times (p_ns p) (payload_json n) ?l0 = ?l1"
    by (simp add: on_notification_def assms) (simp add: listen_start_def)
  then have "feed_step payload_json strict_times (p_ns p) default_max_backoff \<lparr>fd_listener = ?l0, fd_queue = [payload_json n]\<rparr>
      (Fed (Notified (payload_json n))) \<lparr>fd_listener = ?l1, fd_queue = []\<rparr>"
    using fs_notified [of "\<lparr>fd_listener = ?l0, fd_queue = [payload_json n]\<rparr>" "payload_json n" "[]"]
      ls_notified [of ?l0 strict_times "p_ns p" default_max_backoff "payload_json n"] by (simp add: listen_start_def)
  then have 1: "?step (?st ?l0 [payload_json n] PSelect) (Fed_on (Fed (Notified (payload_json n)))) (?st ?l1 [] PSelect)"
    by (rule gs_listenerI) simp
  have "listen_step strict_times (p_ns p) default_max_backoff ?l1 Delivered ?l2"
    using ls_deliver [of ?l1 ?e] by (simp add: has_room_def) (simp add: listen_start_def make_chan_def)
  then have "feed_step payload_json strict_times (p_ns p) default_max_backoff \<lparr>fd_listener = ?l1, fd_queue = []\<rparr>
      (Fed Delivered) \<lparr>fd_listener = ?l2, fd_queue = []\<rparr>"
    using fs_other [of strict_times "p_ns p" default_max_backoff "\<lparr>fd_listener = ?l1, fd_queue = []\<rparr>" Delivered ?l2 payload_json]
    by (simp cong: if_cong)
  then have 2: "?step (?st ?l1 [] PSelect) (Fed_on (Fed Delivered)) (?st ?l2 [] PSelect)"
    by (rule gs_listenerI) simp
  have "listen_step strict_times (p_ns p) default_max_backoff ?l2 (Taken ?e) ?l0"
    using ls_recv [of ?l2 ?e "[]"] by simp (simp add: listen_start_def make_chan_def)
  then have "feed_step payload_json strict_times (p_ns p) default_max_backoff \<lparr>fd_listener = ?l2, fd_queue = []\<rparr>
      (Fed (Taken ?e)) \<lparr>fd_listener = ?l0, fd_queue = []\<rparr>"
    using fs_other [of strict_times "p_ns p" default_max_backoff "\<lparr>fd_listener = ?l2, fd_queue = []\<rparr>" "Taken ?e" ?l0 payload_json]
    by (simp cong: if_cong)
  then have 3: "?step (?st ?l2 [] PSelect) (Fed_on (Fed (Taken ?e))) (?st ?l0 [] (PList (OnEvent ?e)))"
    using gs_event [where s = "?st ?l2 [] PSelect"] by simp
  have 4: "?step (?st ?l0 [] (PList (OnEvent ?e))) (Loop_moved Called) (?st ?l0 [] (PInstall (OnEvent ?e) m))"
    using gs_loop [where s = "?st ?l0 [] (PList (OnEvent ?e))"] lm_list by simp
  show ?thesis
    unfolding delivery_labels_def
    by (rule steps_from_Cons, rule 1, rule steps_from_Cons, rule 2, rule steps_from_Cons, rule 3,
        rule steps_from_Cons, rule 4, rule sf_none)
qed

lemma pg_system_run_from:
  assumes "pg_system_run encode layout max_backoff t h base opts m0 ls s" "steps_from (pg_step encode layout max_backoff) s ms u"
  shows "pg_system_run encode layout max_backoff t h base opts m0 (ls @ ms) u"
  using assms(2)
proof induction
  case (sf_more ms v l u)
  from gr_step [OF sf_more.IH sf_more.hyps(2)] show ?case by simp
qed (use assms(1) in simp)

text \<open>A write to the default namespace, whose text is read back.\<close>

definition sample_payload :: "string \<Rightarrow> string \<Rightarrow> notify_payload" where
  "sample_payload k v = \<lparr>np_namespace = ''default'', np_key = k, np_old_value = [], np_new_value = v,
      np_changed_by = ''op'', np_changed_at = 7\<rparr>"

lemma sample_payload_simps [simp]:
  "np_namespace (sample_payload k v) = ''default''" "np_key (sample_payload k v) = k" "np_new_value (sample_payload k v) = v"
  by (simp_all add: sample_payload_def)

lemma sample_reads:
  "ascii k \<Longrightarrow> ascii v \<Longrightarrow> payload_unmarshal strict_times (payload_json (sample_payload k v)) = Some (sample_payload k v)"
  by (rule unmarshal_ascii) (simp_all add: sample_payload_def, simp_all add: ascii_def)

lemma default_namespace_used: "po_namespace (provider_config []) = ''default''"
  by (simp add: provider_config_def option_defaults normalise_options_def)

lemma followed_run:
  "\<exists>n s. payload_unmarshal strict_times (payload_json n) = Some n \<and> np_key n = ''timeout'' \<and> np_new_value n = ''3s'' \<and> pg_quiet s \<and> gs_values s = [''timeout'' \<mapsto> ''3s'']
     \<and> pg_system_run payload_json strict_times default_max_backoff sample_type [] sample_base [] Map.empty (followed_labels n) s"
proof -
  let ?run = "pg_system_run payload_json strict_times default_max_backoff sample_type [] sample_base [] Map.empty"
  let ?m = "[''timeout'' \<mapsto> ''3s'']"
  obtain p where p: "?run [] (pg_idle Map.empty [] p PSelect)" "prov_flat p"
      "p_desc_by_key p = desc_by_key sample_catalog" "p_ns p = ''default''"
    using pg_start_ex [OF sample_build sample_flat, of payload_json strict_times default_max_backoff "[]" sample_base
        "[]" Map.empty] by (auto simp: default_namespace_used)
  define n where "n = sample_payload ''timeout'' ''3s''"
  let ?e = "payload_event n"
  have nf: "np_namespace n = p_ns p" "np_key n = ''timeout''" "np_new_value n = ''3s''" by (simp_all add: n_def p(4))
  have reads: "payload_unmarshal strict_times (payload_json n) = Some n"
    unfolding n_def by (rule sample_reads) (simp_all add: ascii_def)
  obtain p' where p': "refresh 9 (Inr ?m) p = Inr (p', None)" using refresh_flat [OF p(2)] by blast
  have "desc_by_key sample_catalog ''timeout'' = Some sample_timeout" by code_simp
  then have "\<not> is_recreate p' ''timeout''"
    using refresh_same [OF p'] p(3) by (simp add: is_recreate_def sample_timeout_def)
  then have pc: "after_install (OnEvent ?e) p' = PSelect" by (simp add: after_install_def n_def)
  from pg_system_run_from [OF gr_step [OF p(1) pg_publish_ex [OF nf(1)]] pg_delivery_ex [OF nf(1) reads]]
  have r: "?run (Fed_on (Published n) # delivery_labels n) (pg_idle ?m [] p (PInstall (OnEvent ?e) ?m))" by (simp add: nf)
  have "pg_step payload_json strict_times default_max_backoff (pg_idle ?m [] p (PInstall (OnEvent ?e) ?m))
      (Loop_moved (Installed ?m)) (pg_idle ?m [] p' PSelect)"
    using gs_loop [where s = "pg_idle ?m [] p (PInstall (OnEvent ?e) ?m)"] lm_install [OF p', of ?m "OnEvent ?e"] pc by simp
  from gr_step [OF r this] have "?run (followed_labels n) (pg_idle ?m [] p' PSelect)" by (simp add: followed_labels_def nf)
  moreover have "pg_quiet (pg_idle ?m [] p' PSelect)"
    by (simp add: pg_quiet_def delivering_def listen_start_def make_chan_def)
  ultimately show ?thesis by (intro exI [of _ n] exI conjI) (auto simp: nf reads)
qed


end
