(* ===== verification/System_Clients.thy ===== *)
theory System_Clients
  imports System_Pg System_Poll
begin

text \<open>
  The two other systems as clients of \<open>loop_client\<close>, so that what the loop promises its
  subscribers and those who ask for a refresh holds on the Postgres store and on a store
  with a polling watcher as it does on the in-memory store.
\<close>

subsection \<open>Their steps\<close>

lemma pg_step_kind:
  assumes "pg_step encode layout max_backoff s l s'"
  shows "beside_loop (gs_prov s) (gs_pc s) (gs_prov s') (gs_pc s')
     \<or> (\<exists>m. loop_move (gs_values s) (gs_prov s) (gs_pc s) m (gs_prov s') (gs_pc s') \<and> l = Loop_moved m)"
  using assms by cases (auto simp: beside_loop_def requested_def)

lemma polled_step_kind:
  assumes "polled_step namespace s l s'"
  shows "beside_loop (pd_prov s) (pd_pc s) (pd_prov s') (pd_pc s')
     \<or> (\<exists>m. loop_move (pd_store s) (pd_prov s) (pd_pc s) m (pd_prov s') (pd_pc s') \<and> l = Moved m)"
  using assms by cases (auto simp: beside_loop_def requested_def)

lemma flat_move:
  assumes "loop_move store p pc m p' pc'" "prov_flat p"
  shows "prov_flat p'"
  using assms(1)
  by cases (use assms(2) in \<open>auto simp: prov_flat_def subscribe_def Let_def request_refresh_def
      notify_subscribers_def bind_res_Inr_iff dest: refresh_same\<close>)

interpretation pg_client: loop_client "pg_step encode layout max_backoff" gs_values gs_prov gs_pc
  "\<lambda>s. prov_flat (gs_prov s)" "\<lambda>l. \<exists>err. l = Loop_moved (RefreshFailed err)" for encode layout max_backoff
proof unfold_locales
  fix s l s'
  assume step: "pg_step encode layout max_backoff s l s'" and "prov_flat (gs_prov s)"
  then show "prov_flat (gs_prov s')" by cases (auto dest: flat_move)
  show "beside_loop (gs_prov s) (gs_pc s) (gs_prov s') (gs_pc s')
      \<or> before_loop (gs_prov s) (gs_pc s) (gs_prov s') (gs_pc s')
      \<or> (\<exists>m. loop_move (gs_values s) (gs_prov s) (gs_pc s) m (gs_prov s') (gs_pc s')
            \<and> (\<forall>err. m = RefreshFailed err \<longrightarrow> (\<exists>err. l = Loop_moved (RefreshFailed err))))"
    using pg_step_kind [OF step] by blast
qed

interpretation poll_client: loop_client "polled_step namespace" pd_store pd_prov pd_pc
  "\<lambda>s. prov_flat (pd_prov s)" "\<lambda>l. \<exists>err. l = Moved (RefreshFailed err)" for namespace
proof unfold_locales
  fix s l s'
  assume step: "polled_step namespace s l s'" and "prov_flat (pd_prov s)"
  then show "prov_flat (pd_prov s')" by cases (auto dest: flat_move)
  show "beside_loop (pd_prov s) (pd_pc s) (pd_prov s') (pd_pc s')
      \<or> before_loop (pd_prov s) (pd_pc s) (pd_prov s') (pd_pc s')
      \<or> (\<exists>m. loop_move (pd_store s) (pd_prov s) (pd_pc s) m (pd_prov s') (pd_pc s')
            \<and> (\<forall>err. m = RefreshFailed err \<longrightarrow> (\<exists>err. l = Moved (RefreshFailed err))))"
    using polled_step_kind [OF step] by blast
qed

text \<open>A commit to another key leaves a key's value.\<close>

definition publishes_key :: "string \<Rightarrow> pg_label \<Rightarrow> bool" where
  "publishes_key k l \<longleftrightarrow> (case l of Fed_on (Published n) \<Rightarrow> np_key n = k | _ \<Rightarrow> False)"

lemma pg_steps_values:
  assumes "steps_from (pg_step encode layout max_backoff) s ls t" "list_all (\<lambda>l. \<not> publishes_key k l) ls"
  shows "gs_values t k = gs_values s k"
  using assms
proof (induction rule: steps_from.induct)
  case (sf_more ls t l u)
  from sf_more.hyps(2) sf_more.prems have "gs_values u k = gs_values t k"
    by cases (auto simp: publishes_key_def)
  with sf_more show ?case by simp
qed simp

text \<open>What a run starts from, and goes on with.\<close>

lemma pg_run_static:
  assumes "pg_system_run encode layout max_backoff t h base opts m0 ls s"
    and "build_catalog (Some t) = Inr cat" "flat_config t cat"
  shows "prov_flat (gs_prov s)" "snapshot_of (gs_prov s) ov = apply_pure ov cat base"
  using pg_system_snapshot [OF assms] by (simp_all add: snapshot_is_def snapshot_of_def)

lemma pg_run_started: "pg_system_run encode layout max_backoff t h base opts m0 ls s \<Longrightarrow> started (gs_pc s)"
proof (induction rule: pg_system_run.induct)
  case (gr_step ls s l s')
  from pg_step_kind [OF gr_step.hyps(2)] gr_step.IH show ?case
    by (blast intro: started_move started_beside)
qed simp

subsection \<open>Properties\<close>

text \<open>C6: A subscriber on Postgres sees the commit it is told of, for a config whose managed fields are reached
  without pointers and whose managed slices are exactly \<^verbatim>\<open>[]string\<close> (\<open>flat_config\<close>; behind a
  non-nil pointer an override outlives its deletion).
  Take any commit, at any moment, whose
  event the loop has not listed for yet, and let anything happen after it, lost connections
  and failed refreshes included: whenever that event is in a subscriber's channel, \<open>Get\<close>
  returns the base with the overrides committed at some moment after the commit; if the key
  is not committed again, with what this commit left for it.\<close>

theorem pg_subscriber_sees_commit:
  assumes "build_catalog (Some t) = Inr cat" "flat_config t cat"
    and "pg_system_run encode layout max_backoff t h base opts m0 ls0 s0"
    and "unannounced (payload_event n) (gs_prov s0) (gs_pc s0)"
    and "pg_step encode layout max_backoff s0 (Fed_on (Published n)) s1"
    and "steps_from (pg_step encode layout max_backoff) s1 ls s"
    and "payload_event n \<in> set (buf (p_chans (gs_prov s) ch))"
  shows "\<exists>us vs s2. ls = us @ vs \<and> steps_from (pg_step encode layout max_backoff) s1 us s2
     \<and> provider_get (gs_prov s) = Inr (apply_pure (gs_values s2) cat base)
     \<and> (list_all (\<lambda>l. \<not> publishes_key (np_key n) l) ls \<longrightarrow> gs_values s2 (np_key n) = gs_values s1 (np_key n))"
proof -
  have run1: "pg_system_run encode layout max_backoff t h base opts m0 (ls0 @ [Fed_on (Published n)]) s1"
    by (rule gr_step [OF assms(3,5)])
  note static = pg_run_static [OF pg_system_run_from [OF run1 assms(6)] assms(1,2)]
  have "gs_prov s1 = gs_prov s0" "gs_pc s1 = gs_pc s0" using assms(5) by (auto elim: pg_step.cases)
  with assms(4) have "unannounced (payload_event n) (gs_prov s1) (gs_pc s1)" by simp
  from pg_client.subscriber_sees [OF assms(6) pg_run_static(1) [OF run1 assms(1,2)] this assms(7)]
  obtain us vs s2 where s2: "ls = us @ vs" "steps_from (pg_step encode layout max_backoff) s1 us s2"
    "provider_get (gs_prov s) = Inr (apply_pure (gs_values s2) cat base)"
    unfolding static by blast
  then show ?thesis using pg_steps_values [OF s2(2), of "np_key n"] by auto
qed

text \<open>A request on a store with a polling watcher: no failed refresh, no pending request, and the
  loop waits.\<close>

lemma polled_request_honoured:
  assumes "prov_flat (pd_prov s0)" "started (pd_pc s0)" "requested (pd_prov s0) (pd_pc s0)"
    and "steps_from (polled_step namespace) s0 ls s" "list_all (\<lambda>l. \<forall>err. l \<noteq> Moved (RefreshFailed err)) ls"
    and "pd_pc s = PSelect" "buf (p_trigger (pd_prov s)) = []"
  shows "\<exists>us vs s2. ls = us @ vs \<and> steps_from (polled_step namespace) s0 us s2
     \<and> provider_get (pd_prov s) = Inr (snapshot_of (pd_prov s) (pd_store s2))"
  using poll_client.request_honoured [OF assms(4,1,2,3) _ assms(6,7)] assms(5) by simp

theorem pg_subscriber_sees_commit_witness:
  "\<exists>n ls s. pg_system_run payload_json strict_times default_max_backoff sample_type [] sample_base [] Map.empty ls s
     \<and> buf (p_chans (gs_prov s) 0) = [payload_event n]
     \<and> (\<exists>m. m (np_key n) = Some ''@daily'' \<and> provider_get (gs_prov s) = Inr (apply_pure m sample_catalog sample_base))"
proof -
  let ?run = "pg_system_run payload_json strict_times default_max_backoff sample_type [] sample_base [] Map.empty"
  let ?step = "pg_step payload_json strict_times default_max_backoff"
  let ?m = "[''cron'' \<mapsto> ''@daily'']"
  obtain p where p: "?run [] (pg_idle Map.empty [] p PSelect)" "p_desc_by_key p = desc_by_key sample_catalog"
      "p_subs p = []" "p_next p = 0" "p_chans p = (\<lambda>i. make_chan 0)" "p_buf_size p = 16" "prov_flat p"
      "p_ns p = ''default''"
    using pg_start_ex [OF sample_build sample_flat, of payload_json strict_times default_max_backoff "[]" sample_base
        "[]" Map.empty] by (auto simp: provider_config_def option_defaults normalise_options_def)
  define q where "q = fst (subscribe p)"
  define n where "n = sample_payload ''cron'' ''@daily''"
  let ?e = "payload_event n"
  have n: "np_namespace n = p_ns q" "np_key n = ''cron''" "np_new_value n = ''@daily''"
    using p(8) by (simp_all add: n_def q_def subscribe_def Let_def)
  have reads: "payload_unmarshal strict_times (payload_json n) = Some n"
    unfolding n_def by (rule sample_reads) (simp_all add: ascii_def)
  have q: "p_subs q = [0]" "p_chans q = (\<lambda>i. make_chan 0)(0 := make_chan 16)" "p_desc_by_key q = desc_by_key sample_catalog"
      "prov_flat q"
    using p by (simp_all add: q_def subscribe_def Let_def prov_flat_def)
  obtain q1 where q1: "refresh 9 (Inr ?m) q = Inr (q1, None)" using refresh_flat [OF q(4)] by blast
  define q2 where "q2 = q1\<lparr>p_chans := (p_chans q1)(0 := (make_chan 16)\<lparr>buf := [?e]\<rparr>)\<rparr>"
  have same: "p_subs q1 = [0]" "p_chans q1 = p_chans q" "p_desc_by_key q1 = desc_by_key sample_catalog"
    using refresh_same [OF q1] q by simp_all
  have "desc_by_key sample_catalog ''cron'' = Some sample_cron" by code_simp
  then have "after_install (OnEvent ?e) q1 = PNotify ?e"
    by (simp add: after_install_def is_recreate_def same n sample_cron_def)
  moreover have "notify_subscribers ?e q1 = Inr q2"
    by (simp add: notify_subscribers_def same q q2_def try_send_def make_chan_def has_room_def lift_panic_def)
  ultimately have install: "?step (pg_idle ?m [] q (PInstall (OnEvent ?e) ?m)) (Loop_moved (Installed ?m)) (pg_idle ?m [] q1 (PNotify ?e))"
    and notify: "?step (pg_idle ?m [] q1 (PNotify ?e)) (Loop_moved (Told ?e)) (pg_idle ?m [] q2 PSelect)"
    using gs_loop [where s = "pg_idle ?m [] q (PInstall (OnEvent ?e) ?m)"] lm_install [OF q1, of ?m "OnEvent ?e"]
      gs_loop [where s = "pg_idle ?m [] q1 (PNotify ?e)"] lm_notify [of ?e q1 q2 ?m] by simp_all
  have "?step (pg_idle Map.empty [] p PSelect) (Loop_moved Called) (pg_idle Map.empty [] q PSelect)"
    using gs_loop [where s = "pg_idle Map.empty [] p PSelect"] lm_subscribe [of _ p PSelect] by (simp add: q_def)
  from gr_step [OF p(1) this] have run: "?run [Loop_moved Called] (pg_idle Map.empty [] q PSelect)" by simp
  have commit: "?step (pg_idle Map.empty [] q PSelect) (Fed_on (Published n)) (pg_idle ?m [payload_json n] q PSelect)"
    using pg_publish_ex [OF n(1), of Map.empty] by (simp add: n)
  let ?rest = "delivery_labels n @ [Loop_moved (Installed ?m), Loop_moved (Told ?e)]"
  have rest: "steps_from ?step (pg_idle ?m [payload_json n] q PSelect) ?rest (pg_idle ?m [] q2 PSelect)"
    by (rule steps_from_append [OF _ pg_delivery_ex [OF n(1) reads]], rule steps_from_Cons, rule install,
        rule steps_from_Cons, rule notify, rule sf_none)
  have quiet: "unannounced ?e (gs_prov (pg_idle Map.empty [] q PSelect)) (gs_pc (pg_idle Map.empty [] q PSelect))"
    by (simp add: unannounced_def told_def q make_chan_def)
  have b: "buf (p_chans q2 0) = [?e]" by (simp add: q2_def)
  then have e: "?e \<in> set (buf (p_chans (gs_prov (pg_idle ?m [] q2 PSelect)) 0))" by simp
  have once: "list_all (\<lambda>l. \<not> publishes_key (np_key n) l) ?rest" by (simp add: publishes_key_def delivery_labels_def)
  from pg_subscriber_sees_commit [OF sample_build sample_flat run quiet commit rest e] once
  have "\<exists>m. m (np_key n) = Some ''@daily'' \<and> provider_get q2 = Inr (apply_pure m sample_catalog sample_base)"
    by (auto simp: n)
  then show ?thesis using pg_system_run_from [OF gr_step [OF run commit] rest] b
    by (intro exI [of _ n] exI [of _ "([Loop_moved Called] @ [Fed_on (Published n)]) @ ?rest"] exI [of _ "pg_idle ?m [] q2 PSelect"]) simp
qed

end
