(* ===== verification/Go_Float_Exact.thy ===== *)
theory Go_Float_Exact
  imports Go_Float Complex_Main
begin

text \<open>
  Rounding is exact on the numbers a format can represent: every canonical binary number
  comes out of \<open>round_float\<close> as it went in, whatever ratio it is given as, so the exact
  decimal text of a float parses back to it, for both widths.
\<close>

subsection \<open>Representable numbers\<close>

text \<open>
  A significand of at most \<open>p\<close> bits with an exponent in range: with its top bit set, or at
  the smallest exponent (the subnormal numbers); zero has exponent zero.
\<close>

definition canonical :: "nat \<Rightarrow> int \<Rightarrow> int \<Rightarrow> gofloat \<Rightarrow> bool" where
  "canonical p emin kmax f =
     (case f of
        FFin neg m k \<Rightarrow> (m = 0 \<and> k = 0)
          \<or> (0 < m \<and> m < 2 ^ p \<and> emin \<le> k \<and> k \<le> kmax \<and> (2 ^ (p - 1) \<le> m \<or> k = emin))
      | _ \<Rightarrow> True)"

definition canonical64 :: "gofloat \<Rightarrow> bool" where
  "canonical64 = canonical 53 (- 1074) 971"

definition canonical32 :: "gofloat \<Rightarrow> bool" where
  "canonical32 = canonical 24 (- 149) 104"

text \<open>\<open>n / d\<close> is \<open>m * 2 ^ k\<close>.\<close>

definition ratio_of :: "nat \<Rightarrow> nat \<Rightarrow> nat \<Rightarrow> int \<Rightarrow> bool" where
  "ratio_of n d m k \<longleftrightarrow> 0 < d \<and> real n = real m * 2 powi k * real d"

lemma ratio_of_shift: "ratio_of n d m k \<Longrightarrow> ratio_of n d (m * 2 ^ j) (k - int j)"
  by (simp add: ratio_of_def power_int_diff)

lemma fin_ratio_of: "fin_ratio m k = (n, d) \<Longrightarrow> ratio_of n d m k"
  by (auto simp: fin_ratio_def ratio_of_def power_int_def power_inverse field_simps split: if_splits)

lemma scaled_exact:
  assumes "ratio_of n d m k"
  shows "\<exists>b > 0. scaled n d k = (m * b, b)"
proof (cases "0 \<le> k")
  case True
  with assms have "real n = real (m * (d * 2 ^ nat k))"
    by (simp add: ratio_of_def power_int_def algebra_simps)
  then have "n = m * (d * 2 ^ nat k)" by (simp only: of_nat_eq_iff)
  with True assms show ?thesis by (intro exI [of _ "d * 2 ^ nat k"]) (simp add: scaled_def ratio_of_def)
next
  case False
  with assms have "real (n * 2 ^ nat (- k)) = real (m * d)"
    by (simp add: ratio_of_def power_int_def power_inverse field_simps)
  then have "n * 2 ^ nat (- k) = m * d" by (simp only: of_nat_eq_iff)
  with False assms show ?thesis by (intro exI [of _ d]) (simp add: scaled_def ratio_of_def)
qed

subsection \<open>The exponent\<close>

lemma bit_len_bounds: "0 < n \<Longrightarrow> 0 < bit_len n \<and> 2 ^ (bit_len n - 1) \<le> n \<and> n < 2 ^ bit_len n"
proof (induction n rule: bit_len.induct)
  case (1 n)
  show ?case
  proof (cases "n div 2 = 0")
    case True
    with 1(2) have "n = 1" by simp
    then show ?thesis by (simp add: bit_len.simps)
  next
    case False
    let ?l = "bit_len (n div 2)"
    from 1(1) 1(2) False have l: "0 < ?l" "2 ^ (?l - 1) \<le> n div 2" "n div 2 < 2 ^ ?l" by simp_all
    then have "(2 :: nat) ^ ?l = 2 * 2 ^ (?l - 1)" by (cases ?l) simp_all
    with l(2,3) have "2 ^ ?l \<le> n" "n < 2 * 2 ^ ?l" by linarith+
    then show ?thesis using 1(2) by (simp add: bit_len.simps [of n])
  qed
qed

lemma powi_less_iff: "(2 :: real) powi a < 2 powi b \<longleftrightarrow> a < b"
  using power_int_strict_increasing [of a b "2 :: real"] power_int_increasing [of b a "2 :: real"]
  by (cases "a < b") auto

lemma powi_le_iff: "(2 :: real) powi a \<le> 2 powi b \<longleftrightarrow> a \<le> b"
  using powi_less_iff [of b a] by (simp add: not_less [symmetric])

lemma powi_int: "(2 :: real) powi int n = 2 ^ n"
  by (simp add: power_int_def)

lemma bit_len_powi:
  assumes "0 < n"
  shows "2 powi (int (bit_len n) - 1) \<le> real n" "real n < 2 powi int (bit_len n)"
proof -
  from bit_len_bounds [OF assms] have l: "0 < bit_len n" "2 ^ (bit_len n - 1) \<le> n" "n < 2 ^ bit_len n"
    by simp_all
  then have "int (bit_len n) - 1 = int (bit_len n - 1)" by simp
  then have "2 powi (int (bit_len n) - 1) = (2 :: real) ^ (bit_len n - 1)" by (simp only: powi_int)
  also have "\<dots> = real (2 ^ (bit_len n - 1))" by simp
  also have "\<dots> \<le> real n" using l(2) by (simp only: of_nat_le_iff)
  finally show "2 powi (int (bit_len n) - 1) \<le> real n" .
  have "real n < real (2 ^ bit_len n)" using l(3) by (simp only: of_nat_less_iff)
  then show "real n < 2 powi int (bit_len n)" by (simp add: powi_int)
qed

text \<open>The bit lengths give the magnitude of a ratio up to a factor of two.\<close>

lemma bit_len_ratio:
  assumes "0 < n" "0 < d"
  shows "2 powi (int (bit_len n) - int (bit_len d) - 1) * real d < real n"
    and "real n < 2 powi (int (bit_len n) - int (bit_len d) + 1) * real d"
proof -
  let ?n = "int (bit_len n)" and ?d = "int (bit_len d)"
  note n = bit_len_powi [OF assms(1)] and d = bit_len_powi [OF assms(2)]
  have "2 powi (?n - ?d - 1) * real d < 2 powi (?n - ?d - 1) * 2 powi ?d"
    using d(2) by simp
  also have "\<dots> = 2 powi (?n - 1)" by (subst power_int_add [symmetric]) simp_all
  finally show "2 powi (?n - ?d - 1) * real d < real n" using n(1) by simp
  have "2 powi ?n = (2 :: real) powi (?n - ?d + 1) * 2 powi (?d - 1)"
    by (subst power_int_add [symmetric]) simp_all
  also have "\<dots> \<le> 2 powi (?n - ?d + 1) * real d" using d(1) by simp
  finally show "real n < 2 powi (?n - ?d + 1) * real d" by (rule less_le_trans [OF n(2)])
qed

lemma ulp_exp_exact:
  assumes r: "ratio_of n d m k" and m: "0 < m" "m < 2 ^ p" "2 ^ (p - 1) \<le> m \<or> k = emin"
    and k: "emin \<le> k" and p: "0 < p"
  shows "ulp_exp p emin n d = k"
proof -
  let ?l = "int (bit_len n) - int (bit_len d)"
  have d: "0 < d" and n: "real n = real m * 2 powi k * real d" using r by (simp_all add: ratio_of_def)
  then have n0: "0 < n" using m(1) by (cases n) auto
  have "2 powi (?l - 1) * real d < real m * 2 powi k * real d" using bit_len_ratio(1) [OF n0 d] n by simp
  then have "2 powi (?l - 1) < real m * 2 powi k" using d by simp
  also have "\<dots> < real (2 ^ p) * 2 powi k"
    using m(2) by (intro mult_strict_right_mono) (simp_all only: of_nat_less_iff, simp)
  also have "\<dots> = 2 powi (int p + k)" by (simp add: power_int_add powi_int)
  finally have up: "?l - int p \<le> k" by (simp add: powi_less_iff)
  have low: "k - 1 \<le> ?l - int p" if "2 ^ (p - 1) \<le> m"
  proof -
    have "int p - 1 = int (p - 1)" using p by simp
    then have "2 powi (int p - 1 + k) = (2 :: real) ^ (p - 1) * 2 powi k"
      by (simp add: power_int_add powi_int del: of_nat_diff)
    also have "\<dots> = real (2 ^ (p - 1)) * 2 powi k" by simp
    also have "\<dots> \<le> real m * 2 powi k"
      using that by (intro mult_right_mono) (simp_all only: of_nat_le_iff, simp)
    also have "\<dots> < 2 powi (?l + 1)"
    proof -
      have "real m * 2 powi k * real d < 2 powi (?l + 1) * real d" using bit_len_ratio(2) [OF n0 d] n by simp
      then show ?thesis using d by simp
    qed
    finally have "int p - 1 + k < ?l + 1" by (simp only: powi_less_iff)
    then show ?thesis by simp
  qed
  let ?k = "max emin (?l - int p)"
  consider "?k = k" | "?k = k - 1" "2 ^ (p - 1) \<le> m" using up low m(3) k by linarith
  then show ?thesis
  proof cases
    case 1
    obtain b where "0 < b" "scaled n d k = (m * b, b)" using scaled_exact [OF r] by blast
    with 1 m(2) show ?thesis by (simp add: ulp_exp_def Let_def)
  next
    case 2
    obtain b where "0 < b" "scaled n d (k - 1) = (m * 2 * b, b)"
      using scaled_exact [OF ratio_of_shift [OF r, of 1]] by auto
    moreover have "2 ^ p \<le> m * 2" using 2(2) p by (cases p) simp_all
    ultimately show ?thesis using 2(1) by (simp add: ulp_exp_def Let_def)
  qed
qed

subsection \<open>Exactness\<close>

lemma round_float_exact:
  assumes "ratio_of n d m k" "canonical p emin kmax (FFin neg m k)" "0 < p"
  shows "round_float p emin kmax neg n d = FFin neg m k"
proof (cases "m = 0")
  case True
  with assms have "n = 0" "k = 0" by (simp_all add: ratio_of_def canonical_def)
  then have "round_half_even a b = 0" if "scaled n d j = (a, b)" for a b j
    using that by (auto simp: scaled_def round_half_even_def Let_def split: if_splits)
  with True \<open>k = 0\<close> show ?thesis
    by (simp add: round_float_def Let_def split: prod.split)
next
  case False
  with assms(2) have m: "0 < m" "m < 2 ^ p" "2 ^ (p - 1) \<le> m \<or> k = emin" "emin \<le> k" "k \<le> kmax"
    by (auto simp: canonical_def)
  note k = ulp_exp_exact [OF assms(1) m(1-4) assms(3)]
  obtain b where "0 < b" "scaled n d k = (m * b, b)" using scaled_exact [OF assms(1)] by blast
  with m k show ?thesis by (simp add: round_float_def Let_def round_half_even_exact)
qed

lemma round64_exact: "ratio_of n d m k \<Longrightarrow> canonical64 (FFin neg m k) \<Longrightarrow> round64 neg n d = FFin neg m k"
  by (simp add: round64_def canonical64_def round_float_exact)

text \<open>Every 32-bit number is a 64-bit number, and converts back.\<close>

lemma float32_widened:
  assumes "ratio_of n d m k" "canonical32 (FFin neg m k)"
  shows "\<exists>m' k'. round64 neg n d = FFin neg m' k' \<and> to_float32 (FFin neg m' k') = FFin neg m k"
proof -
  have narrow: "to_float32 (FFin neg m' k') = FFin neg m k" if "m' = m * 2 ^ j" "k' = k - int j" for m' k' j
  proof -
    obtain a b where f: "fin_ratio m' k' = (a, b)" by fastforce
    from fin_ratio_of [OF f] that have "ratio_of a b m k"
      by (simp add: ratio_of_def power_int_diff)
    with assms(2) f show ?thesis by (simp add: round32_def canonical32_def round_float_exact)
  qed
  show ?thesis
  proof (cases "m = 0")
    case True
    with assms(2) have "canonical64 (FFin neg m k)" by (simp add: canonical32_def canonical64_def canonical_def)
    from round64_exact [OF assms(1) this] narrow [of m 0 k] show ?thesis by simp
  next
    case False
    let ?l = "bit_len m" and ?j = "53 - bit_len m"
    have l: "0 < ?l" "2 ^ (?l - 1) \<le> m" "m < 2 ^ ?l" using bit_len_bounds [of m] False by simp_all
    have m: "m < 2 ^ 24" "- 149 \<le> k" "k \<le> 104" using assms(2) False by (auto simp: canonical32_def canonical_def)
    have "?l \<le> 24"
    proof (rule ccontr)
      assume "\<not> ?l \<le> 24"
      then have "(2 :: nat) ^ 24 \<le> 2 ^ (?l - 1)" by (intro power_increasing) simp_all
      with l(2) m(1) show False by linarith
    qed
    then have "(2 :: nat) ^ (?l - 1) * 2 ^ ?j = 2 ^ 52" "(2 :: nat) ^ ?l * 2 ^ ?j = 2 ^ 53"
      using l(1) by (simp_all flip: power_add)
    moreover have "2 ^ (?l - 1) * 2 ^ ?j \<le> m * 2 ^ ?j" "m * 2 ^ ?j < 2 ^ ?l * 2 ^ ?j" using l by simp_all
    ultimately have "2 ^ 52 \<le> m * 2 ^ ?j" "m * 2 ^ ?j < 2 ^ 53" by simp_all
    then have "canonical64 (FFin neg (m * 2 ^ ?j) (k - int ?j))"
      using m False by (auto simp: canonical64_def canonical_def)
    from round64_exact [OF ratio_of_shift [OF assms(1)] this] narrow show ?thesis by blast
  qed
qed

subsection \<open>The exact decimal text of a float\<close>

text \<open>A negative power of two is a decimal fraction: \<open>m / 2 ^ j\<close> is \<open>m * 5 ^ j\<close> over \<open>10 ^ j\<close>.\<close>

definition magnitude_text :: "nat \<Rightarrow> int \<Rightarrow> string" where
  "magnitude_text m k =
     (if 0 \<le> k then show_nat (m * 2 ^ nat k)
      else show_nat (m * 5 ^ nat (- k)) @ ''e-'' @ show_nat (nat (- k)))"

fun float_text :: "gofloat \<Rightarrow> string" where
  "float_text FNaN = ''NaN''"
| "float_text (FInf neg) = (if neg then ''-Inf'' else ''+Inf'')"
| "float_text (FFin neg m k) = (if neg then [CHR ''-''] else []) @ magnitude_text m k"

definition text_ratio :: "nat \<Rightarrow> int \<Rightarrow> nat \<times> nat" where
  "text_ratio m k = (if 0 \<le> k then (m * 2 ^ nat k, 1) else (m * 5 ^ nat (- k), 10 ^ nat (- k)))"

lemma text_ratio_of: "text_ratio m k = (n, d) \<Longrightarrow> ratio_of n d m k"
proof -
  assume a: "text_ratio m k = (n, d)"
  show ?thesis
  proof (cases "0 \<le> k")
    case True
    with a show ?thesis by (auto simp: text_ratio_def ratio_of_def power_int_def)
  next
    case False
    have "(10 :: real) ^ nat (- k) = 2 ^ nat (- k) * 5 ^ nat (- k)" by (simp flip: power_mult_distrib)
    with a False show ?thesis
      by (auto simp: text_ratio_def ratio_of_def power_int_def power_inverse field_simps)
  qed
qed

text \<open>Digits of a decimal number.\<close>

lemma digits_val_shift: "foldl (\<lambda>n c. 10 * n + digit_val c) a ds = a * 10 ^ length ds + dec_val ds"
  by (induction ds rule: rev_induct) (auto simp: dec_val_def algebra_simps)

lemma dec_val_Cons: "dec_val (c # ds) = digit_val c * 10 ^ length ds + dec_val ds"
  using digits_val_shift [of "digit_val c" ds] by (simp add: dec_val_def)

lemma digit_char: "is_digit c \<Longrightarrow> c \<noteq> CHR ''_'' \<and> c \<noteq> CHR ''.'' \<and> c \<noteq> CHR ''-'' \<and> c \<noteq> CHR ''+''"
  by (auto simp: is_digit_def)

lemma hex_val_digit: "is_digit c \<Longrightarrow> hex_val c = Some (digit_val c)"
  by (auto simp: is_digit_def digit_val_def)

lemma float_digits_run:
  assumes "list_all is_digit ds" "rest = [] \<or> hd rest = CHR ''e''"
  shows "float_digits False \<lparr>mant = x, frac = 0, saw_dot = False, saw_digits = b\<rparr> (ds @ rest) =
     (\<lparr>mant = x * 10 ^ length ds + dec_val ds, frac = 0, saw_dot = False, saw_digits = b \<or> ds \<noteq> []\<rparr>, rest)"
  using assms(1)
proof (induction ds arbitrary: x b)
  case Nil
  have "hex_val CHR ''e'' = Some 14" by simp
  with assms(2) show ?case by (cases rest) (auto simp: dec_val_def is_digit_def simp del: hex_val.simps)
next
  case (Cons c ds)
  with digit_char [of c] hex_val_digit [of c] show ?case
    by (simp add: dec_val_Cons algebra_simps del: hex_val.simps)
qed

lemma exp_digits_run:
  "list_all is_digit ds \<Longrightarrow> x * 10 ^ length ds + dec_val ds < 10000 \<Longrightarrow>
     exp_digits x ds = (x * 10 ^ length ds + dec_val ds, [])"
proof (induction ds arbitrary: x)
  case (Cons c ds)
  have e: "x * 10 ^ length (c # ds) + dec_val (c # ds) = (x * 10 + digit_val c) * 10 ^ length ds + dec_val ds"
    by (simp add: dec_val_Cons algebra_simps)
  have "x * 1 \<le> (x * 10 + digit_val c) * 10 ^ length ds" by (intro mult_le_mono) simp_all
  then have "x < 10000" using Cons.prems(2) unfolding e by linarith
  with Cons digit_char [of c] show ?case unfolding e by simp
qed (simp add: dec_val_def)

lemma magnitude_text_chars:
  "magnitude_text m k \<noteq> [] \<and> is_digit (hd (magnitude_text m k))
     \<and> (\<forall>c \<in> set (magnitude_text m k). is_digit c \<or> c = CHR ''e'' \<or> c = CHR ''-'')"
  using show_nat_digits show_nat_hd by (auto simp: magnitude_text_def list_all_iff)

lemma strip_sign_float: "strip_sign (float_text (FFin neg m k)) = (neg, magnitude_text m k)"
  using magnitude_text_chars [of m k]
  by (cases "magnitude_text m k") (auto simp: strip_sign_def is_digit_def)

lemma lower_digit: "is_digit c \<Longrightarrow> to_lower_char c = c"
  by (auto simp: is_digit_def to_lower_char_def)

lemma not_special: "special_float (float_text (FFin neg m k)) = None"
proof -
  obtain c cs where t: "magnitude_text m k = c # cs" and c: "is_digit c"
    using magnitude_text_chars [of m k] by (cases "magnitude_text m k") auto
  have "c \<noteq> CHR ''i''" "c \<noteq> CHR ''n''" "to_lower (magnitude_text m k) = c # to_lower cs"
    using c by (auto simp: t to_lower_def lower_digit is_digit_def)
  moreover from this have "hd (to_lower (float_text (FFin neg m k))) \<noteq> CHR ''n''"
    by (simp add: to_lower_def to_lower_char_def t)
  then have "to_lower (float_text (FFin neg m k)) \<noteq> ''nan''" by auto
  ultimately show ?thesis unfolding special_float_def strip_sign_float by (simp del: float_text.simps)
qed

lemma not_hex: "\<not> hex_prefix (magnitude_text m k)"
proof
  assume h: "hex_prefix (magnitude_text m k)"
  then have "magnitude_text m k ! 1 \<in> set (magnitude_text m k)" by (simp add: hex_prefix_def)
  then have "is_digit (magnitude_text m k ! 1) \<or> magnitude_text m k ! 1 = CHR ''e'' \<or> magnitude_text m k ! 1 = CHR ''-''"
    using magnitude_text_chars [of m k] by blast
  then have "to_lower_char (magnitude_text m k ! 1) \<noteq> CHR ''x''"
    by (auto simp: lower_digit to_lower_char_def is_digit_def)
  with h show False by (simp add: hex_prefix_def lower_is_def)
qed

lemma float_exp_text:
  assumes "k < 0" "- 10000 < k"
  shows "float_exp False (''e-'' @ show_nat (nat (- k))) = Some (k, [])"
proof -
  have d: "show_nat (nat (- k)) \<noteq> []" "list_all is_digit (show_nat (nat (- k)))" "is_digit (hd (show_nat (nat (- k))))"
    "dec_val (show_nat (nat (- k))) = nat (- k)"
    using show_nat_digits show_nat_hd by blast+
  from exp_digits_run [OF d(2), of 0] d(4) assms have "exp_digits 0 (show_nat (nat (- k))) = (nat (- k), [])" by simp
  with d assms show ?thesis by (simp add: float_exp_def lower_is_def to_lower_char_def)
qed

lemma read_float_text:
  assumes "- 10000 < k"
  shows "read_float (float_text (FFin neg m k)) = Some (neg, text_ratio m k)"
proof -
  let ?t = "magnitude_text m k"
  let ?n = "if 0 \<le> k then m * 2 ^ nat k else m * 5 ^ nat (- k)"
  let ?r = "if 0 \<le> k then [] else ''e-'' @ show_nat (nat (- k))"
  have t: "?t = show_nat ?n @ ?r" by (simp add: magnitude_text_def)
  have d: "show_nat ?n \<noteq> []" "list_all is_digit (show_nat ?n)" "dec_val (show_nat ?n) = ?n"
    using show_nat_digits by blast+
  have r: "?r = [] \<or> hd ?r = CHR ''e''" by simp
  from float_digits_run [OF d(2) r, of 0 False] d(1,3)
  have fd: "float_digits False \<lparr>mant = 0, frac = 0, saw_dot = False, saw_digits = False\<rparr> ?t =
     (\<lparr>mant = ?n, frac = 0, saw_dot = False, saw_digits = True\<rparr>, ?r)" unfolding t by simp
  have fe: "float_exp False ?r = Some (if 0 \<le> k then 0 else k, [])"
    using float_exp_text [OF _ assms] by (cases "0 \<le> k") (simp_all add: float_exp_def)
  have us: "CHR ''_'' \<notin> set ?t"
    using magnitude_text_chars [of m k] by (auto simp: is_digit_def)
  show ?thesis
    unfolding read_float_def strip_sign_float
    by (simp only: Let_def prod.case not_hex if_False fd fe us) (simp add: text_ratio_def)
qed

lemma parse_float64_text:
  assumes "canonical64 f"
  shows "parse_float64 (float_text f) = Some f"
proof (cases f)
  case FNaN
  have "special_float ''NaN'' = Some FNaN" by code_simp
  with FNaN show ?thesis by (simp add: parse_float64_def)
next
  case (FInf neg)
  have "special_float ''-Inf'' = Some (FInf True)" "special_float ''+Inf'' = Some (FInf False)" by code_simp+
  with FInf show ?thesis by (simp add: parse_float64_def)
next
  case (FFin neg m k)
  have k: "- 10000 < k" using assms FFin by (auto simp: canonical64_def canonical_def)
  obtain n d where nd: "text_ratio m k = (n, d)" by fastforce
  have "round64 neg n d = FFin neg m k"
    using round64_exact [OF text_ratio_of [OF nd]] assms FFin by simp
  then show ?thesis
    unfolding FFin parse_float64_def not_special read_float_text [OF k] nd by simp
qed

text \<open>For a 32-bit field: the text is parsed with 64 bits, then converted.\<close>

lemma parse_float32_text:
  assumes "canonical32 f"
  shows "\<exists>g. parse_float64 (float_text f) = Some g \<and> to_float32 g = f"
proof (cases f)
  case (FFin neg m k)
  have k: "- 10000 < k" using assms FFin by (auto simp: canonical32_def canonical_def)
  obtain n d where nd: "text_ratio m k = (n, d)" by fastforce
  obtain m' k' where "round64 neg n d = FFin neg m' k'" "to_float32 (FFin neg m' k') = FFin neg m k"
    using float32_widened [OF text_ratio_of [OF nd]] assms FFin by blast
  then show ?thesis
    unfolding FFin parse_float64_def not_special read_float_text [OF k] nd by simp
qed (use parse_float64_text [of f] in \<open>auto simp: canonical64_def canonical_def\<close>)

end
