(* ===== verification/Override_RoundTrip.thy ===== *)
theory Override_RoundTrip
  imports Override_Props Go_Float_Exact
begin

text \<open>
  Every value of a managed field can be set through the store: each has a text that
  \<open>parseFieldValue\<close> reads back as exactly that value, and an override with that text gives
  the field the value.
\<close>

subsection \<open>Texts for values\<close>

text \<open>
  The values a field of a type can hold: integers in its range, floats its format
  represents, strings of any bytes, and slices of UTF-8 strings, nil included.
\<close>

definition basic_kind :: "gtype \<Rightarrow> bkind option" where
  "basic_kind t = (case t of TBasic n k \<Rightarrow> Some k | _ \<Rightarrow> None)"

lemma basic_kind_iff: "basic_kind t = Some k \<longleftrightarrow> (\<exists>n. t = TBasic n k)"
  by (cases t) (simp_all add: basic_kind_def)

definition int_width :: "gtype \<Rightarrow> nat option" where
  "int_width t =
     (if t = TDuration then Some 64 else case basic_kind t of Some (KInt w) \<Rightarrow> Some w | _ \<Rightarrow> None)"

definition settable_value :: "gtype \<Rightarrow> gval \<Rightarrow> bool" where
  "settable_value t v =
     (case v of
        VStr s \<Rightarrow> basic_kind t = Some KString
      | VBool b \<Rightarrow> basic_kind t = Some KBool
      | VInt i \<Rightarrow> (case int_width t of
            Some w \<Rightarrow> w \<in> {8, 16, 32, 64} \<and> - (2 ^ (w - 1)) \<le> i \<and> i < 2 ^ (w - 1) | None \<Rightarrow> False)
      | VUint i \<Rightarrow> (case basic_kind t of
            Some (KUint w) \<Rightarrow> w \<in> {8, 16, 32, 64} \<and> 0 \<le> i \<and> i < 2 ^ w | _ \<Rightarrow> False)
      | VFloat f \<Rightarrow> (case basic_kind t of
            Some KFloat32 \<Rightarrow> canonical32 f | Some KFloat64 \<Rightarrow> canonical64 f | _ \<Rightarrow> False)
      | VStrs None \<Rightarrow> t = TSlice go_string
      | VStrs (Some xs) \<Rightarrow> t = TSlice go_string \<and> list_all valid_utf8 xs
      | _ \<Rightarrow> False)"

fun value_text :: "gtype \<Rightarrow> gval \<Rightarrow> string" where
  "value_text t (VBool b) = (if b then ''true'' else ''false'')"
| "value_text t (VStr s) = s"
| "value_text t (VInt i) = show_int i @ (if t = TDuration then ''ns'' else [])"
| "value_text t (VUint i) = show_nat (nat i)"
| "value_text t (VFloat f) = float_text f"
| "value_text t (VStrs None) = []"
| "value_text t (VStrs (Some xs)) = json_encode (map runes_of xs)"
| "value_text t v = []"

lemma width_bounds:
  assumes "w \<in> {8, 16, 32, 64 :: nat}"
  shows "0 < w" "(2 :: int) ^ (w - 1) \<le> 2 ^ 63" "(2 :: int) ^ w \<le> 2 ^ 64" "(2 :: nat) ^ w \<le> 2 ^ 64"
  using assms by auto

lemma parse_json_list:
  assumes "list_all valid_utf8 xs"
  shows "parse_field_value (json_encode (map runes_of xs)) (TSlice go_string) =
     Inr (VStrs (Some xs), TSlice go_string)"
proof -
  have "list_all (list_all valid_rune) (map runes_of xs)" "map utf8_string (map runes_of xs) = xs"
    using assms by (simp_all add: list_all_iff valid_utf8_def map_idI)
  with json_list_round_trip [of "map runes_of xs"] show ?thesis by simp
qed

lemma parse_value_text:
  assumes "settable_value t v"
  shows "parse_field_value (value_text t v) t = Inr (v, t)"
proof (cases v)
  case (VInt i)
  with assms obtain w where w: "int_width t = Some w" "w \<in> {8, 16, 32, 64}" "- (2 ^ (w - 1)) \<le> i" "i < 2 ^ (w - 1)"
    by (auto simp: settable_value_def split: option.splits)
  then have p: "parse_int64 (show_int i) = Some i" "conv_int w i = i"
    using width_bounds(2) [OF w(2)] by (intro parse_int64_show conv_int_id; linarith)+
  show ?thesis
  proof (cases "t = TDuration")
    case True
    with w parse_duration_show [of i] VInt show ?thesis by (simp add: int_width_def parse_field_value_def)
  next
    case False
    with w(1) obtain n where "t = TBasic n (KInt w)"
      by (auto simp: int_width_def basic_kind_iff split: option.splits bkind.splits)
    with p VInt show ?thesis by (simp add: parse_field_value_def)
  qed
next
  case (VUint i)
  with assms obtain n w where w: "t = TBasic n (KUint w)" "w \<in> {8, 16, 32, 64}" "0 \<le> i" "i < 2 ^ w"
    by (auto simp: settable_value_def basic_kind_iff split: option.splits bkind.splits)
  with width_bounds(3) [OF w(2)] have "nat i < 2 ^ 64" by (simp add: nat_less_iff)
  with w have "parse_uint64 (show_nat (nat i)) = Some i" "conv_uint w i = i"
    by (simp_all add: parse_uint64_show conv_uint_def take_bit_int_eq_self)
  with w(1) VUint show ?thesis by (simp add: parse_field_value_def)
next
  case (VFloat f)
  with assms consider n where "t = TBasic n KFloat32" "canonical32 f" | n where "t = TBasic n KFloat64" "canonical64 f"
    by (auto simp: settable_value_def basic_kind_iff split: option.splits bkind.splits)
  then show ?thesis
  proof cases
    case 1
    with parse_float32_text [of f] VFloat show ?thesis by (auto simp: parse_field_value_def)
  next
    case 2
    with parse_float64_text [of f] VFloat show ?thesis by (simp add: parse_field_value_def)
  qed
next
  case (VStrs parts)
  show ?thesis
  proof (cases parts)
    case None
    have "trim_space [] = []" "\<not> has_prefix [] ''[''" by code_simp+
    with VStrs None assms show ?thesis
      by (simp add: settable_value_def parse_field_value_def parse_string_slice_def go_string_def kind_string_def)
  next
    case (Some xs)
    with VStrs assms parse_json_list show ?thesis by (simp add: settable_value_def)
  qed
qed (use assms in \<open>auto simp: settable_value_def basic_kind_iff parse_field_value_def parse_bool_def\<close>)

subsection \<open>The property\<close>

text \<open>C12: Every value can be set. For a config whose managed fields are reached without pointers
  and whose managed slices are exactly \<^verbatim>\<open>[]string\<close> (\<open>flat_config\<close>; every override of a \<^verbatim>\<open>[]Host\<close>
  with \<^verbatim>\<open>type Host string\<close> panics), take any managed field and any value its type can hold, finite and special floats of
  both widths, the extreme integers and durations, arbitrary strings and lists of Unicode
  strings included: the override loop, given the value's text for the field's key and
  anything for the others, leaves exactly that value in the field.\<close>

theorem every_value_settable:
  assumes "build_catalog (Some t) = Inr cat" "flat_config t cat"
    and "d \<in> set cat" "get_path base (fd_indices d) = Some w" "settable_value (fd_type d) v"
  shows "\<exists>snapshot log. apply_overrides t h base (ov(fd_key d \<mapsto> value_text (fd_type d) v)) cat cb s = Inr (h, snapshot, log)
     \<and> get_path snapshot (fd_indices d) = Some v"
proof -
  let ?ov = "ov(fd_key d \<mapsto> value_text (fd_type d) v)"
  have "override_value ?ov d = Some (v, fd_type d)"
    by (simp add: override_value_def parse_value_text [OF assms(5)])
  with apply_pure_managed [OF assms(1,3,4), of ?ov] apply_overrides_flat [OF assms(1,2), of h base ?ov cb s]
  show ?thesis by simp
qed

theorem every_value_settable_witness:
  "\<exists>snapshot log. apply_overrides sample_type [] sample_base
       [''timeout'' \<mapsto> ''-90ns''] sample_catalog None () = Inr ([], snapshot, log)
     \<and> get_path snapshot (fd_indices sample_timeout) = Some (VInt (- 90))"
proof -
  let ?v = "VInt (- 90)"
  have t: "fd_type sample_timeout = TDuration" "fd_key sample_timeout = ''timeout''" by (simp_all add: sample_timeout_def)
  obtain w where p: "get_path sample_base (fd_indices sample_timeout) = Some w"
    by (simp add: sample_base_def sample_timeout_def)
  have v: "settable_value (fd_type sample_timeout) ?v" by (simp add: t settable_value_def int_width_def)
  have m: "sample_timeout \<in> set sample_catalog" by (simp add: sample_catalog_def)
  have "value_text TDuration ?v = ''-90ns''" by code_simp
  with every_value_settable [OF sample_build sample_flat m p v, of "[]" Map.empty None "()"]
  show ?thesis unfolding t by (simp only:)
qed

end
