(* ===== verification/Store_Props.thy ===== *)
theory Store_Props
  imports Mem_Store Polling
begin

text \<open>
  Properties of the in-memory store and of the polling watcher.
\<close>

subsection \<open>The in-memory store\<close>

lemma mem_run_new: "ms_ok (fold ms_exec ops ms_new)"
  using mem_kv.inv_run [OF ms_ok_new, of ops] by (simp add: mem_kv.run_def)

text \<open>C21: After any sequence of writes and deletions, \<open>Get\<close> answers what the abstract map
  of the operations holds: the value of the last write of the key, and \<open>not found\<close> when
  it was never written or last deleted; the broadcasts in between change nothing.\<close>

theorem memstore_get_correct:
  "ms_get ns k (fold ms_exec ops ms_new) =
     (case kv_run ops (\<lambda>ns k. None) ns k of None \<Rightarrow> ([], False) | Some v \<Rightarrow> (v, True))"
proof -
  have "mem_kv.kv_of ms_new = (\<lambda>ns k. None)"
    by (simp add: mem_kv.kv_of_def ms_list_def ms_new_def)
  with mem_kv.get_run [OF ms_ok_new, of ns k ops] show ?thesis by (simp add: mem_kv.run_def)
qed

text \<open>C22: The audit trail of every key can be replayed: its records are linked (each old value
  is the new value of the record before, the first the empty string) and the last new
  value is the key's current value, the empty string standing for no value.\<close>

theorem memstore_audit_replays:
  "let s = fold ms_exec ops ms_new;
       tr = filter (\<lambda>a. ae_namespace a = ns \<and> ae_key a = k) (map audit_of (ms_audit s))
   in linked [] tr \<and> trail_value [] tr = fst (ms_get ns k s)"
proof -
  have "mem_audit.trail_ok ms_new"
    by (simp add: mem_audit.trail_ok_def mem_audit.key_trail_def ms_trail_def ms_new_def ms_list_def)
  from mem_audit.trail_ok_run [OF ms_ok_new this, of ops]
  have "linked [] (mem_audit.key_trail ns k (fold ms_exec ops ms_new))
     \<and> trail_value [] (mem_audit.key_trail ns k (fold ms_exec ops ms_new)) =
         str_or_empty (ms_list ns (fold ms_exec ops ms_new) k)"
    by (simp add: mem_audit.trail_ok_def mem_kv.run_def)
  moreover have "fst (ms_get ns k (fold ms_exec ops ms_new)) =
      str_or_empty (ms_list ns (fold ms_exec ops ms_new) k)"
    by (simp add: mem_kv.get_lst [OF mem_run_new] str_or_empty_def split: option.split)
  ultimately show ?thesis by (simp add: mem_audit.key_trail_def ms_trail_def Let_def)
qed

text \<open>Paging through a key's history with pages of \<open>n\<close> records gives the newest \<open>m * n\<close>
  records of its trail, newest first, with none repeated or left out.\<close>

theorem memstore_history_pages:
  assumes "0 < n"
  shows "concat (map (\<lambda>i. ms_history ns k \<lparr>ho_limit = int n, ho_offset = int (i * n)\<rparr>
            (fold ms_exec ops ms_new)) [0..<m]) =
     take (m * n) (rev (filter (\<lambda>a. ae_namespace a = ns \<and> ae_key a = k)
       (map audit_of (ms_audit (fold ms_exec ops ms_new)))))"
  using mem_audit.history_pages [OF mem_run_new assms, of ns k ops m]
  by (simp add: mem_audit.key_trail_def ms_trail_def)

theorem memstore_history_pages_witness:
  "concat (map (\<lambda>i. ms_history ''a'' ''k'' \<lparr>ho_limit = int 1, ho_offset = int (i * 1)\<rparr>
      (fold ms_exec [OpSet \<lparr>se_namespace = ''a'', se_key = ''k'', se_value = ''x'', se_by = ''u''\<rparr> 7] ms_new)) [0..<2]) =
   [\<lparr>ae_id = 1, ae_namespace = ''a'', ae_key = ''k'', ae_old = [], ae_new = ''x'', ae_by = ''u'', ae_at = 7\<rparr>]"
proof -
  have "ms_audit (ms_exec (OpSet \<lparr>se_namespace = ''a'', se_key = ''k'', se_value = ''x'', se_by = ''u''\<rparr> 7) ms_new) =
      [\<lparr>ar_id = 1, ar_namespace = ''a'', ar_key = ''k'', ar_old = [], ar_new = ''x'', ar_by = ''u'', ar_at = 7\<rparr>]"
    by (simp add: ms_exec_def ms_op_def ms_set_def ms_set_write_def append_audit_def ms_new_def
        ms_broadcast_def Let_def)
  then show ?thesis
    using memstore_history_pages [of 1 "''a''" "''k''"
        "[OpSet \<lparr>se_namespace = ''a'', se_key = ''k'', se_value = ''x'', se_by = ''u''\<rparr> 7]" 2]
    by (simp add: audit_of_def)
qed

text \<open>The numbers of the audit records are 1, 2, 3, ... in the order of the writes, as long
  as there are fewer than \<open>2 ^ 63\<close> of them; the sequence is a 64-bit integer.\<close>

theorem memstore_audit_ids:
  assumes "length (ms_audit (fold ms_exec ops ms_new)) < 2 ^ 63"
  shows "map ar_id (ms_audit (fold ms_exec ops ms_new)) =
     map (\<lambda>i. int i + 1) [0..<length (ms_audit (fold ms_exec ops ms_new))]"
proof -
  let ?n = "length (ms_audit (fold ms_exec ops ms_new))"
  have "sint (of_nat (Suc i) :: 64 word) = int i + 1" if "i < ?n" for i
  proof -
    have "Suc i < 2 ^ 63" using that assms by linarith
    then have "int (Suc i) < 2 ^ 63" by simp
    then show ?thesis
      using signed_take_bit_int_eq_self [of 63 "int (Suc i)"]
      by (simp add: signed_of_nat del: of_nat_Suc)
  qed
  then have "map (\<lambda>i. sint (of_nat (Suc i) :: 64 word)) [0..<?n] = map (\<lambda>i. int i + 1) [0..<?n]"
    by (intro map_cong) simp_all
  with mem_run_new [of ops] show ?thesis by (simp add: ms_ok_def)
qed

theorem memstore_audit_ids_witness:
  "map ar_id (ms_audit (fold ms_exec [OpDelete ''a'' ''k'' ''u'' 7] ms_new)) = []"
proof -
  have "ms_audit (fold ms_exec [OpDelete ''a'' ''k'' ''u'' 7] ms_new) = []"
    by (simp add: ms_exec_def ms_op_def ms_delete_def ms_delete_write_def ms_new_def)
  then show ?thesis using memstore_audit_ids [of "[OpDelete ''a'' ''k'' ''u'' 7]"] by simp
qed

text \<open>In a store with the invariant \<open>ms_ok\<close>, which every operation keeps, a broadcast never
  panics; it appends the event to
  the channel of every watcher of the event's namespace that has room, leaves the full
  ones and every other channel as they are, and changes no data.\<close>

theorem memstore_broadcast_delivery:
  assumes "ms_ok s"
  shows "\<exists>s'. ms_broadcast event s = Inr s' \<and> ms_ok s' \<and> ms_data s' = ms_data s
     \<and> (\<forall>i. buf (ms_chans s' i) =
          (if i \<in> w_ch ` {w \<in> set (ms_watchers s). w_namespace w = ce_namespace event}
              \<and> length (buf (ms_chans s i)) < 64
           then buf (ms_chans s i) @ [event] else buf (ms_chans s i)))"
proof -
  have w: "i \<in> set (watchers_of (ce_namespace event) s) \<longleftrightarrow>
      i \<in> w_ch ` {w \<in> set (ms_watchers s). w_namespace w = ce_namespace event}" for i
    by (auto simp: watchers_of_def)
  from ms_broadcast_ok [OF assms, of event] obtain tab where
    t: "ms_broadcast event s = Inr (s\<lparr>ms_chans := tab\<rparr>)" "ms_ok (s\<lparr>ms_chans := tab\<rparr>)"
    "\<And>i. i \<in> set (watchers_of (ce_namespace event) s) \<Longrightarrow>
       buf (tab i) = (if has_room (ms_chans s i) then buf (ms_chans s i) @ [event]
                      else buf (ms_chans s i))"
    "\<And>i. i \<notin> set (watchers_of (ce_namespace event) s) \<Longrightarrow> tab i = ms_chans s i"
    by blast
  have "has_room (ms_chans s i) = (length (buf (ms_chans s i)) < 64)" for i
    using assms by (simp add: has_room_def ms_ok_def)
  with t(3,4) w have "buf (tab i) =
      (if i \<in> w_ch ` {w \<in> set (ms_watchers s). w_namespace w = ce_namespace event}
          \<and> length (buf (ms_chans s i)) < 64
       then buf (ms_chans s i) @ [event] else buf (ms_chans s i))" for i
    by (cases "i \<in> set (watchers_of (ce_namespace event) s)") simp_all
  with t(1,2) show ?thesis by (intro exI [of _ "s\<lparr>ms_chans := tab\<rparr>"]) simp
qed

theorem memstore_broadcast_delivery_witness:
  "\<exists>s'. ms_broadcast (poll_event ''a'' ''k'' [] ''x'' 7) (fst (ms_watch ''a'' ms_new)) = Inr s'
     \<and> buf (ms_chans s' 0) = [poll_event ''a'' ''k'' [] ''x'' 7]"
proof -
  let ?s = "fst (ms_watch ''a'' ms_new)" and ?e = "poll_event ''a'' ''k'' [] ''x'' 7"
  have w: "ms_watchers ?s = [\<lparr>w_namespace = ''a'', w_ch = 0\<rparr>]" "buf (ms_chans ?s 0) = []"
    by (simp_all add: ms_watch_def Let_def ms_new_def make_chan_def)
  obtain s' where s: "ms_broadcast ?e ?s = Inr s'"
    "\<forall>i. buf (ms_chans s' i) =
          (if i \<in> w_ch ` {w \<in> set (ms_watchers ?s). w_namespace w = ce_namespace ?e}
              \<and> length (buf (ms_chans ?s i)) < 64
           then buf (ms_chans ?s i) @ [?e] else buf (ms_chans ?s i))"
    using memstore_broadcast_delivery [OF ms_ok_watch [OF ms_ok_new], of ?e "''a''"] by blast
  have "buf (ms_chans s' 0) = [?e]" unfolding s(2) [rule_format, of 0] by (auto simp: w poll_event_def)
  with s(1) show ?thesis by blast
qed

text \<open>Deleting a key without a value changes nothing and sends no event; deleting one that
  has a value removes it, adds one audit record and announces the old value with an empty
  new one.\<close>

theorem memstore_delete_outcome:
  "case ms_list ns s k of
     None \<Rightarrow> ms_delete_write ns k by_who now s = (s, None)
   | Some v \<Rightarrow> \<exists>s'. ms_delete_write ns k by_who now s =
         (s', Some \<lparr>ce_namespace = ns, ce_key = k, ce_old = v, ce_new = [], ce_by = by_who, ce_at = now\<rparr>)
       \<and> ms_list ns s' = (ms_list ns s)(k := None) \<and> length (ms_audit s') = Suc (length (ms_audit s))"
  by (auto simp: ms_list_def ms_delete_write_def append_audit_def Let_def fun_eq_iff split: option.split)

subsection \<open>The polling watcher\<close>

text \<open>C25: The events of a tick are one for each key whose value differs between the previous
  listing and the current one, with the key's old and new value, whatever the orders in
  which the two maps are ranged over; there are none exactly when the listings agree.\<close>

theorem poll_events_are_the_changes:
  assumes "range_order ks cur" "range_order ls prev"
    and "es = poll_events namespace now prev cur ks ls"
  shows "distinct (map ce_key es) \<and> ce_key ` set es = {k. prev k \<noteq> cur k}
     \<and> list_all (\<lambda>e. e = poll_event namespace (ce_key e) (str_or_empty (prev (ce_key e)))
           (str_or_empty (cur (ce_key e))) now) es
     \<and> (es = []) = (prev = cur)"
proof -
  note shape = poll_events_shape [OF assms(1,2), where ns = namespace and now = now, folded assms(3)]
  have "(es = []) = (ce_key ` set es = {})" by simp
  also have "\<dots> = (prev = cur)" unfolding shape(2) by auto
  finally show ?thesis using shape by (simp add: list_all_iff)
qed

theorem poll_events_are_the_changes_witness:
  "ce_key ` set (poll_events ''a'' 7 [''x'' \<mapsto> ''1'', ''y'' \<mapsto> ''2''] [''y'' \<mapsto> ''3''] [''y''] [''x'', ''y'']) =
     {''x'', ''y''}"
proof -
  have "range_order [''y''] [''y'' \<mapsto> ''3'']" "range_order [''x'', ''y''] [''x'' \<mapsto> ''1'', ''y'' \<mapsto> ''2'']"
    by (auto simp: range_order_def)
  from poll_events_are_the_changes [OF this refl, of "''a''" 7] show ?thesis by auto
qed

text \<open>A consumer that applies every event it receives follows the store: at any moment of a
  run of the watcher that has not stopped, the first listing, changed by the events
  received, those in the channel and those still to be sent, is the latest listing. When
  the watcher waits and the channel is drained, the consumer has the latest listing.\<close>

theorem poll_consumer_follows:
  assumes "poll_run namespace interval ls p" "listings_of ls \<noteq> []" "pl_phase p = Waiting"
  shows "follow (received_of ls @ buf (pl_chan p)) (view (hd (listings_of ls))) = view (last (listings_of ls))"
  using poll_inv_run [OF assms(1)] assms(2,3)
  by (auto simp: poll_inv_def target_listing_def pending_events_def split: if_splits)

text \<open>The first successful listing is silent: as long as no listing has succeeded, the watcher
  has sent and pends nothing, and the listing that seeds it gives no events however many
  keys it has, so changes made before it are never announced.\<close>

theorem poll_seed_silent:
  assumes "poll_run namespace interval ls p" "listings_of ls = []" "pl_phase p = Waiting"
  shows "received_of ls = [] \<and> buf (pl_chan p) = []
     \<and> poll_tick namespace now (Some cur) ks ms p = p\<lparr>pl_prev := cur, pl_seeded := True\<rparr>"
  using poll_inv_run [OF assms(1)] assms(2)
  by (auto simp: poll_inv_def poll_tick_def split: if_splits)

lemma poll_start_run: "poll_run ''a'' 1 [] \<lparr>pl_prev = (\<lambda>k. None), pl_seeded = False, pl_phase = Waiting,
    pl_chan = make_chan 64, pl_done = False\<rparr>"
  by (rule pr_start) (simp add: poll_watch_def)

theorem poll_seed_silent_witness:
  "poll_tick ''a'' 7 (Some [''x'' \<mapsto> ''1'']) [''x''] [] \<lparr>pl_prev = (\<lambda>k. None), pl_seeded = False, pl_phase = Waiting,
      pl_chan = make_chan 64, pl_done = False\<rparr> =
   \<lparr>pl_prev = [''x'' \<mapsto> ''1''], pl_seeded = True, pl_phase = Waiting, pl_chan = make_chan 64, pl_done = False\<rparr>"
  using poll_seed_silent [OF poll_start_run, of 7 "[''x'' \<mapsto> ''1'']" "[''x'']" "[]"] by simp

lemma poll_two_ticks: "poll_run ''a'' 1 [Listed (Some Map.empty), Listed (Some [''x'' \<mapsto> ''1'']), Internal, Internal]
    \<lparr>pl_prev = [''x'' \<mapsto> ''1''], pl_seeded = True, pl_phase = Waiting,
     pl_chan = (make_chan 64)\<lparr>buf := [poll_event ''a'' ''x'' [] ''1'' 7]\<rparr>, pl_done = False\<rparr>"
proof -
  let ?p0 = "\<lparr>pl_prev = (\<lambda>k. None), pl_seeded = False, pl_phase = Waiting, pl_chan = make_chan 64, pl_done = False\<rparr>"
  let ?p1 = "?p0\<lparr>pl_seeded := True\<rparr>"
  let ?e = "poll_event ''a'' ''x'' [] ''1'' 7"
  let ?p2 = "?p1\<lparr>pl_phase := Sending [?e] [''x'' \<mapsto> ''1'']\<rparr>"
  let ?p3 = "?p2\<lparr>pl_phase := Sending [] [''x'' \<mapsto> ''1''], pl_chan := (make_chan 64)\<lparr>buf := [?e]\<rparr>\<rparr>"
  let ?p4 = "?p3\<lparr>pl_phase := Waiting, pl_prev := [''x'' \<mapsto> ''1'']\<rparr>"
  have "poll_step ''a'' ?p0 (Listed (Some Map.empty)) ?p1"
    using ps_tick [of ?p0 "Some Map.empty" "[]" "[]" "''a''" 7] by (simp add: poll_tick_def range_order_def)
  moreover have "poll_step ''a'' ?p1 (Listed (Some [''x'' \<mapsto> ''1''])) ?p2"
    using ps_tick [of ?p1 "Some [''x'' \<mapsto> ''1'']" "[''x'']" "[]" "''a''" 7]
    by (simp add: poll_tick_def range_order_def poll_events_def)
  moreover have "poll_step ''a'' ?p2 Internal ?p3"
    using ps_send [of ?p2 ?e "[]" "[''x'' \<mapsto> ''1'']" "''a''"] by (simp add: has_room_def make_chan_def)
  moreover have "poll_step ''a'' ?p3 Internal ?p4"
    using ps_sent [of ?p3 "[''x'' \<mapsto> ''1'']" "''a''"] by simp
  ultimately have "poll_run ''a'' 1 ((([] @ [Listed (Some Map.empty)]) @ [Listed (Some [''x'' \<mapsto> ''1''])])
      @ [Internal] @ [Internal]) ?p4"
    using poll_start_run by (simp del: append.simps append_assoc add: append_assoc [symmetric]) (blast intro: pr_step)
  then show ?thesis by simp
qed

theorem poll_consumer_follows_witness:
  "follow [poll_event ''a'' ''x'' [] ''1'' 7] (view Map.empty) = view [''x'' \<mapsto> ''1'']"
  using poll_consumer_follows [OF poll_two_ticks] by (simp add: received_of_def listings_of_def)

end
