(* ===== verification/System_Props.thy ===== *)
theory System_Props
  imports System_Subs System_Drain Provider_Props Override_Shared
begin

text \<open>
  Properties of the provider running on the in-memory store: freshness of the snapshot,
  freedom from panics, the startup window, the periodic refresh and what subscribers get.
\<close>

lemma sys_run_append:
  "sys_run ls s = Some (Inr s1) \<Longrightarrow> sys_run ms s1 = Some (Inr s2) \<Longrightarrow> sys_run (ls @ ms) s = Some (Inr s2)"
  by (induction ls arbitrary: s) (auto split: option.splits sum.splits)

lemma sys_run_append_elim:
  "sys_run (ls @ ms) s = Some (Inr s2) \<Longrightarrow> \<exists>s1. sys_run ls s = Some (Inr s1) \<and> sys_run ms s1 = Some (Inr s2)"
  by (induction ls arbitrary: s) (auto split: option.splits sum.splits)

lemma sys_start_static:
  assumes "sys_reach (sys_start t h base cat cfg st) s"
  shows "p_ns (sy_prov s) = po_namespace cfg" "p_base (sy_prov s) = base" "p_catalog (sy_prov s) = cat"
    "p_desc_by_key (sy_prov s) = desc_by_key cat"
    "listing_of s = ms_list (po_namespace cfg) (sy_store s)"
    "snapshot_of (sy_prov s) ov = apply_pure ov cat base"
  using sys_reach_static [OF assms]
  by (simp_all add: prov_static_def sys_start_def init_provider_same listing_of_def snapshot_of_def)

lemma sys_reach_trans: "sys_reach s1 s2 \<Longrightarrow> sys_reach s0 s1 \<Longrightarrow> sys_reach s0 s2"
  by (induction rule: sys_reach.induct) (blast intro: sr_step)+

subsection \<open>Freshness\<close>

definition sample_start :: system where
  "sample_start = sys_start sample_type [] sample_base sample_catalog default_provider_options ms_new"

lemma sample_start_ok: "sys_ok sample_start" "fresh_inv sample_start"
  using fresh_start [OF sample_build sample_flat with_options_ok(1) ms_ok_new]
  by (simp_all add: sample_start_def fresh_inv_def)

lemma sample_prov_flat: "sys_reach sample_start s \<Longrightarrow> prov_flat (sy_prov s)"
  using sys_reach_flat [of sample_start s] sample_start_ok(2) by (simp add: fresh_inv_def)

definition startup_labels :: "sys_label list" where
  "startup_labels = [LLoop ChooseTick 1, LLoop ChooseTick 2, LLoop ChooseTick 3]"

text \<open>The three startup steps, nothing else running.\<close>

lemma startup_run:
  assumes "build_catalog (Some t) = Inr cat" "flat_config t cat" "options_ok cfg" "ms_ok st"
  shows "\<exists>s. sys_run startup_labels (sys_start t h base cat cfg st) = Some (Inr s)
     \<and> sy_pc s = PSelect \<and> sy_inflight s = [] \<and> buf (ms_chans (sy_store s) (sy_ch s)) = []
     \<and> \<not> p_cancelled (sy_prov s) \<and> \<not> p_once (sy_prov s) \<and> p_subs (sy_prov s) = []
     \<and> p_next (sy_prov s) = 0 \<and> p_buf_size (sy_prov s) = po_subscriber_buffer cfg
     \<and> p_desc_by_key (sy_prov s) = desc_by_key cat \<and> p_ns (sy_prov s) = po_namespace cfg
     \<and> sy_store s = fst (ms_watch (po_namespace cfg) st) \<and> sy_ch s = ms_next st
     \<and> p_chans (sy_prov s) = (\<lambda>i. make_chan 0)"
proof -
  let ?p = "init_provider t h base cat cfg"
  have f: "prov_flat ?p" using assms(1,2) by (simp add: prov_flat_def init_provider_same)
  show ?thesis
    by (simp add: startup_labels_def sys_exec_def loop_step_def sys_start_def with_prov_def
        refresh_flat [OF f] ms_watch_def Let_def init_provider_same make_chan_def)
       (simp add: init_provider_def make_chan_def)
qed

text \<open>The start-up gets through for every config on which a refresh cannot panic.\<close>

lemma startup_enabled:
  assumes "build_catalog (Some t) = Inr cat" "safe_config t cat base h" "options_ok cfg" "ms_ok st"
  shows "\<exists>s. sys_run startup_labels (sys_start t h base cat cfg st) = Some (Inr s) \<and> started (sy_pc s)"
proof -
  let ?p = "init_provider t h base cat cfg"
  have "prov_safe ?p" using sys_ok_start [OF assms] by (simp add: sys_ok_def sys_start_def)
  from refresh_safe [OF this, of 2 "ms_list (p_ns ?p) st"] obtain p' where
    "refresh 2 (Inr (ms_list (p_ns ?p) st)) ?p = Inr (p', None)" by blast
  then show ?thesis
    by (simp add: startup_labels_def sys_exec_def loop_step_def sys_start_def with_prov_def listing_of_def
        ms_watch_def Let_def)
qed

text \<open>C1: Freshness, for a config whose managed fields are reached
  without pointers and whose managed slices are exactly \<^verbatim>\<open>[]string\<close> (\<open>flat_config\<close>; behind a
  non-nil pointer an override outlives its deletion). Start a provider on an
  in-memory store with no write to its namespace before its watch is registered, and let
  anything happen after that: writes, delayed
  broadcasts, dropped events, refresh requests, ticks, subscriptions. Whenever nothing is
  under way for the provider (its loop waits, its channel is empty, no event of its
  namespace is in flight) and it has not been cancelled, \<open>Get\<close> returns the base with
  exactly the overrides the store holds.\<close>

theorem snapshot_converges:
  assumes "build_catalog (Some t) = Inr cat" "flat_config t cat" "options_ok cfg" "ms_ok st"
    and "list_all (startup_safe (po_namespace cfg)) ls"
    and "sys_run ls (sys_start t h base cat cfg st) = Some (Inr s1)" "started (sy_pc s1)"
    and "sys_reach s1 s" "quiescent s" "\<not> p_cancelled (sy_prov s)"
  shows "provider_get (sy_prov s) = Inr (apply_pure (ms_list (po_namespace cfg) (sy_store s)) cat base)"
proof -
  have ns: "p_ns (sy_prov (sys_start t h base cat cfg st)) = po_namespace cfg"
    by (simp add: sys_start_def init_provider_same)
  have "fresh_inv s1"
    using fresh_run [OF fresh_start [OF assms(1-4)] _ assms(6)] assms(5) ns by simp
  then have "fresh_inv s" using fresh_reach [OF assms(8) _ assms(7)] by blast
  with assms(9,10) have "up_to_date s"
    by (auto simp: fresh_inv_def fresh_def quiescent_def)
  moreover have "sys_reach (sys_start t h base cat cfg st) s"
    by (rule sys_reach_trans [OF assms(8) sys_reach_run [OF sr_refl assms(6)]])
  ultimately show ?thesis by (simp add: up_to_date_def provider_get_def sys_start_static)
qed

theorem snapshot_converges_witness:
  "\<exists>s. sys_run startup_labels sample_start = Some (Inr s) \<and> quiescent s
     \<and> provider_get (sy_prov s) = Inr (apply_pure (ms_list ''default'' (sy_store s)) sample_catalog sample_base)"
proof -
  obtain s where s: "sys_run startup_labels sample_start = Some (Inr s)" "sy_pc s = PSelect"
    "sy_inflight s = []" "buf (ms_chans (sy_store s) (sy_ch s)) = []" "\<not> p_cancelled (sy_prov s)"
    using startup_run [OF sample_build sample_flat with_options_ok(1) ms_ok_new, of "[]" sample_base]
    by (auto simp: sample_start_def)
  have q: "quiescent s" using s by (simp add: quiescent_def signalled_def)
  have l: "list_all (startup_safe (po_namespace default_provider_options)) startup_labels"
    by (simp add: startup_labels_def startup_safe_def)
  have "started (sy_pc s)" using s(2) by simp
  from snapshot_converges [OF sample_build sample_flat with_options_ok(1) ms_ok_new l
      s(1) [unfolded sample_start_def] this sr_refl q s(5)] s(1) q
  show ?thesis by (auto simp: option_defaults)
qed

text \<open>C2: What has been started gets finished, for a config whose managed fields are reached
  without pointers and whose managed slices are exactly \<^verbatim>\<open>[]string\<close> (\<open>flat_config\<close>; behind a
  non-nil pointer an override outlives its deletion).
  Start a provider with no write to its namespace before its watch is registered. From any
  state reached after the start-up in which the loop has not returned and the provider is
  not cancelled, and as long as nothing new is written, the loop's steps on events
  and the outstanding broadcasts come to an end, after at most \<open>pending_work\<close> of them in
  whatever order; and where none of them can go on, every event has been announced and
  \<open>Get\<close> returns the base with the overrides the store had.\<close>

theorem pending_work_drains:
  assumes "build_catalog (Some t) = Inr cat" "flat_config t cat" "options_ok cfg" "ms_ok st"
    and "list_all (startup_safe (po_namespace cfg)) ls"
    and "sys_run ls (sys_start t h base cat cfg st) = Some (Inr s1)" "started (sy_pc s1)"
    and "sys_reach s1 s" "sy_pc s \<noteq> PReturned" "\<not> p_cancelled (sy_prov s)"
    and "list_all drain_label ms" "sys_run ms s = Some (Inr s')"
  shows "length ms \<le> pending_work s
     \<and> ((\<forall>l. drain_label l \<longrightarrow> sys_exec l s' = None) \<longrightarrow> sy_inflight s' = []
          \<and> provider_get (sy_prov s') = Inr (apply_pure (ms_list (po_namespace cfg) (sy_store s)) cat base))"
proof -
  let ?s0 = "sys_start t h base cat cfg st"
  have ns: "p_ns (sy_prov ?s0) = po_namespace cfg" by (simp add: sys_start_def init_provider_same)
  have "fresh_inv s1"
    using fresh_run [OF fresh_start [OF assms(1-4)] _ assms(6)] assms(5) ns by simp
  note reach = sys_reach_run [OF sr_refl assms(6)] sys_reach_run [OF assms(8,12)]
  have fresh: "fresh_inv s'" "fresh_inv s" "started (sy_pc s)"
    using fresh_reach [OF reach(2) \<open>fresh_inv s1\<close> assms(7)] fresh_reach [OF assms(8) \<open>fresh_inv s1\<close> assms(7)]
    by simp_all
  then have "running s" using assms(9,10) by (simp add: running_def fresh_inv_def)
  from drain_run [OF this assms(11,12)]
  have d: "running s'" "length ms \<le> pending_work s" "ms_data (sy_store s') = ms_data (sy_store s)" by simp_all
  have "sys_reach ?s0 s'" by (rule sys_reach_trans [OF reach(2,1)])
  note static = sys_start_static [OF this]
  have "sy_inflight s' = [] \<and>
      provider_get (sy_prov s') = Inr (apply_pure (ms_list (po_namespace cfg) (sy_store s)) cat base)"
    if "\<And>l. drain_label l \<Longrightarrow> sys_exec l s' = None"
  proof -
    from drained_quiescent [OF d(1) that] have q: "quiescent s'" "sy_inflight s' = []" by simp_all
    with fresh(1) d(1) have "up_to_date s'"
      by (auto simp: fresh_inv_def fresh_def quiescent_def running_def)
    with q(2) ms_list_data [OF d(3)] show ?thesis
      by (simp add: up_to_date_def provider_get_def static)
  qed
  with d(2) show ?thesis by blast
qed

text \<open>C7: No step ever panics: in every state reached from the start of a provider whose managed
  fields \<^verbatim>\<open>reflect.Value.Set\<close> accepts (\<open>safe_config\<close>: no managed leaf is itself a pointer and no
  managed slice is of a named string type, such as \<^verbatim>\<open>[]Host\<close>; nested structs may be behind
  pointers, nil or not, and then the base is a well-typed value), whatever runs beside it,
  no step sends on a closed channel, closes one twice, fails in reflection or reads a
  missing snapshot.\<close>

theorem no_step_panics:
  assumes "build_catalog (Some t) = Inr cat" "safe_config t cat base h" "options_ok cfg" "ms_ok st"
    and "sys_reach (sys_start t h base cat cfg st) s"
  shows "sys_exec l s \<noteq> Some (Inl panic)
     \<and> (started (sy_pc s) \<longrightarrow> is_ok (provider_get (sy_prov s)))"
proof -
  have "sys_ok s" by (rule sys_ok_reach [OF assms(5) sys_ok_start [OF assms(1-4)]])
  with sys_exec_ok [of s l] show ?thesis
    by (auto simp: outcome_ok_def sys_ok_def is_ok_def provider_get_def split: option.splits sum.splits)
qed

text \<open>The example has a nested struct behind a pointer and an override for its field.\<close>

definition pointer_start :: system where
  "pointer_start = sys_start nested_ptr_type [VStruct [VStr ''old'']] (VStruct [VPtr (Some 0)]) [nested_ptr_desc]
     default_provider_options (fst (ms_write (OpSet \<lparr>se_namespace = ''default'', se_key = ''jira.url'',
       se_value = ''new'', se_by = ''op''\<rparr> 7) ms_new))"

lemma nested_ptr_safe: "safe_config nested_ptr_type [nested_ptr_desc] (VStruct [VPtr (Some 0)]) [VStruct [VStr ''old'']]"
proof -
  have "settable_config nested_ptr_type [nested_ptr_desc]" by code_simp
  moreover have "wt_mem [TStruct ''main.Jira'' [GField ''URL'' [] go_string ''json:\"url\" dyn:\"live\"'']] nested_ptr_type
      \<lparr>root = VStruct [VPtr (Some 0)], heap = [VStruct [VStr ''old'']]\<rparr>"
    by (auto simp: wt_mem_def nested_ptr_type_def go_string_def intro!: wt.intros)
  ultimately show ?thesis by (auto simp: safe_config_def)
qed

theorem no_step_panics_witness:
  "\<exists>s. sys_run startup_labels pointer_start = Some (Inr s)
     \<and> sys_exec (LLoop ChooseTick 9) s \<noteq> Some (Inl (ReflectPanic PanicValue)) \<and> is_ok (provider_get (sy_prov s))"
proof -
  note start = nested_ptr_build nested_ptr_safe with_options_ok(1) ms_ok_write [OF ms_ok_new]
  obtain s where s: "sys_run startup_labels pointer_start = Some (Inr s)" "started (sy_pc s)"
    using startup_enabled [OF start] unfolding pointer_start_def by blast
  from no_step_panics [OF start sys_reach_run [OF sr_refl s(1) [unfolded pointer_start_def]]] s show ?thesis by blast
qed

text \<open>C8: The startup window, for every config whose managed fields are reached without pointers
  and whose managed slices are exactly \<^verbatim>\<open>[]string\<close> (\<open>flat_config\<close>). A write that is made and broadcast after \<open>New\<close> has listed the
  overrides but before it has registered its watch is lost: the provider comes up with
  nothing under way, the store holds the new value, and the snapshot is still that of the
  old listing.\<close>

theorem startup_write_lost:
  assumes "build_catalog (Some t) = Inr cat" "flat_config t cat" "options_ok cfg" "ms_ok st"
    and "op_target op1 = (po_namespace cfg, k)" "ms_write op1 st = (st', Some e)"
  shows "\<exists>s. sys_run [LLoop c1 t1, LWrite op1, LBroadcast e, LLoop c2 t2, LLoop c3 t3]
            (sys_start t h base cat cfg st) = Some (Inr s)
     \<and> quiescent s \<and> ms_list (po_namespace cfg) (sy_store s) = (ms_list (po_namespace cfg) st)(k := op_result op1)
     \<and> provider_get (sy_prov s) = Inr (apply_pure (ms_list (po_namespace cfg) st) cat base)"
proof -
  let ?p = "init_provider t h base cat cfg" and ?ns = "po_namespace cfg"
  have f: "prov_flat ?p" using assms(1,2) by (simp add: prov_flat_def init_provider_same)
  have "ms_ok st'" using ms_ok_write [OF assms(4), of op1] assms(6) by simp
  from ms_broadcast_data [OF this, of e] obtain st2 where
    b: "ms_broadcast e st' = Inr st2" "ms_data st2 = ms_data st'" by blast
  have "ms_list ?ns st2 = ms_list ?ns st'" using b(2) by (rule ms_list_data)
  also have "\<dots> = kv_step op1 (\<lambda>ns. ms_list ns st) ?ns"
    using ms_list_write [of ?ns op1 st] assms(6) by simp
  also have "\<dots> = (ms_list ?ns st)(k := op_result op1)"
    using assms(5) by (simp add: kv_step_eq fun_eq_iff del: kv_step.simps)
  finally have l: "ms_list ?ns st2 = (ms_list ?ns st)(k := op_result op1)" .
  show ?thesis
    using b(1) assms(6) l ms_watch_other(2) [of ?ns ?ns st2]
    by (simp add: sys_exec_def loop_step_def other_step_def sys_start_def with_prov_def with_store_def
        refresh_flat [OF f] ms_watch_def Let_def init_provider_same listing_of_def quiescent_def
        signalled_def make_chan_def provider_get_def snapshot_of_def)
qed

lemma apply_pure_empty: "apply_pure Map.empty cat v = v"
proof -
  have "fold (pure_one Map.empty) ds v = v" for ds v
    by (induction ds arbitrary: v) (simp_all add: pure_one_def override_value_def)
  then show ?thesis by (simp add: apply_pure_def)
qed

definition sample_op :: store_op where
  "sample_op = OpSet \<lparr>se_namespace = ''default'', se_key = ''cron'', se_value = ''@daily'', se_by = ''op''\<rparr> 7"

lemma sample_write:
  "op_target sample_op = (po_namespace default_provider_options, ''cron'')"
  "ms_write sample_op ms_new = (fst (ms_write sample_op ms_new), Some sample_event)"
  "ms_list ns ms_new = Map.empty" "op_result sample_op = Some ''@daily''"
  by (simp_all add: sample_op_def op_target_def op_result_def option_defaults ms_write_def
      ms_set_write_def ms_new_def ms_list_def sample_event_def Let_def)

theorem startup_write_lost_witness:
  "\<exists>s. sys_run [LLoop ChooseTick 1, LWrite sample_op, LBroadcast sample_event, LLoop ChooseTick 2, LLoop ChooseTick 3]
          sample_start = Some (Inr s)
     \<and> quiescent s \<and> ms_list ''default'' (sy_store s) ''cron'' = Some ''@daily''
     \<and> provider_get (sy_prov s) = Inr sample_base \<and> get_path sample_base [1] = Some (VStr ''0 0 * * *'')"
proof -
  obtain s where s: "sys_run [LLoop ChooseTick 1, LWrite sample_op, LBroadcast sample_event, LLoop ChooseTick 2,
      LLoop ChooseTick 3] sample_start = Some (Inr s)" "quiescent s"
    "ms_list (po_namespace default_provider_options) (sy_store s) = Map.empty(''cron'' := op_result sample_op)"
    "provider_get (sy_prov s) = Inr (apply_pure Map.empty sample_catalog sample_base)"
    using startup_write_lost [OF sample_build sample_flat with_options_ok(1) ms_ok_new sample_write(1,2),
        of ChooseTick 1 ChooseTick 2 ChooseTick 3 "[]" sample_base]
    unfolding sample_write(3) sample_start_def by blast
  then show ?thesis
    using sample_write(4) by (simp add: option_defaults apply_pure_empty sample_base_def)
qed

text \<open>A periodic refresh repairs a stale snapshot: from any reachable state in which the loop
  waits, three steps of the loop (the tick, the listing, the install) bring the snapshot up
  to date with the store; but no subscriber is told, also not of a recreate-on-change
  field that changed.\<close>

theorem tick_repairs_silently:
  assumes "build_catalog (Some t) = Inr cat" "flat_config t cat" "options_ok cfg" "ms_ok st"
    and "sys_reach (sys_start t h base cat cfg st) s" "sy_pc s = PSelect"
  shows "\<exists>s'. sys_run [LLoop ChooseTick t1, LLoop c2 t2, LLoop c3 t3] s = Some (Inr s')
     \<and> sy_pc s' = PSelect \<and> sy_store s' = sy_store s
     \<and> provider_get (sy_prov s') = Inr (apply_pure (ms_list (po_namespace cfg) (sy_store s)) cat base)
     \<and> p_chans (sy_prov s') = p_chans (sy_prov s)"
proof -
  have "prov_flat (sy_prov s)"
    using sys_reach_flat [OF assms(5)] fresh_start [OF assms(1-4), of h base] by (simp add: fresh_inv_def)
  from refresh_flat [OF this] assms(6) show ?thesis
    by (simp add: sys_exec_def loop_step_def select_step_def with_prov_def after_install_def
        provider_get_def sys_start_static [OF assms(5), unfolded listing_of_def] listing_of_def)
qed

theorem tick_repairs_silently_witness:
  "\<exists>s s'. sys_run startup_labels sample_start = Some (Inr s)
     \<and> sys_run [LLoop ChooseTick 4, LLoop ChooseTick 5, LLoop ChooseTick 6] s = Some (Inr s')
     \<and> provider_get (sy_prov s') = Inr (apply_pure (ms_list ''default'' (sy_store s)) sample_catalog sample_base)"
proof -
  obtain s where s: "sys_run startup_labels sample_start = Some (Inr s)" "sy_pc s = PSelect"
    using startup_run [OF sample_build sample_flat with_options_ok(1) ms_ok_new, of "[]" sample_base]
    by (auto simp: sample_start_def)
  have "sys_reach (sys_start sample_type [] sample_base sample_catalog default_provider_options ms_new) s"
    using sys_reach_run [OF sr_refl s(1)] by (simp add: sample_start_def)
  from tick_repairs_silently [OF sample_build sample_flat with_options_ok(1) ms_ok_new this s(2),
      of 4 ChooseTick 5 ChooseTick 6] s(1)
  show ?thesis by (auto simp: option_defaults)
qed

text \<open>The loop's steps on an event, run one after the other, compute \<open>handle_change_event\<close>.\<close>

lemma loop_handler_run:
  assumes "sys_ok s" "sy_pc s = PSelect" "buf (ms_chans (sy_store s) (sy_ch s)) = event # rest"
    and "handle_change_event now (Inr (listing_of s)) event (sy_prov s) = Inr p'"
  shows "\<exists>s'. sys_run ([LLoop ChooseEvent now, LLoop ChooseEvent now, LLoop ChooseEvent now]
            @ (if is_recreate (sy_prov s) (ce_key event) then [LLoop ChooseEvent now] else [])) s = Some (Inr s')
     \<and> sy_pc s' = PSelect \<and> sy_prov s' = p' \<and> buf (ms_chans (sy_store s') (sy_ch s')) = rest"
proof -
  let ?ov = "listing_of s"
  have ok: "prov_safe (sy_prov s)" using assms(1) by (simp add: sys_ok_def)
  obtain q where q: "refresh now (Inr ?ov) (sy_prov s) = Inr (q, None)"
    using refresh_safe [OF ok] by blast
  note same = refresh_same [OF q]
  have r: "is_recreate q = is_recreate (sy_prov s)" using same by (simp add: is_recreate_def fun_eq_iff)
  have recv: "ms_recv (sy_ch s) (sy_store s) = (Got event, (sy_store s)\<lparr>ms_chans := (ms_chans (sy_store s))
      (sy_ch s := (ms_chans (sy_store s) (sy_ch s))\<lparr>buf := rest\<rparr>)\<rparr>)"
    using assms(3) by (simp add: ms_recv_def recv_def)
  have l: "ms_list ns (st\<lparr>ms_chans := tab\<rparr>) = ms_list ns st" for ns st tab by (simp add: ms_list_def)
  show ?thesis
    using assms(2,4) q r recv l
    by (auto simp: sys_exec_def loop_step_def select_step_def with_prov_def after_install_def
        handle_change_event_def listing_of_def)
qed

text \<open>The sample provider, started, with a subscriber and with the event of a write waiting.\<close>

definition sample_labels :: "sys_label list" where
  "sample_labels = startup_labels @ [LSubscribe, LWrite sample_op, LBroadcast sample_event]"

lemma sample_event_waiting:
  "\<exists>s. sys_run sample_labels sample_start = Some (Inr s) \<and> sy_pc s = PSelect
     \<and> buf (ms_chans (sy_store s) (sy_ch s)) = [sample_event]
     \<and> is_recreate (sy_prov s) ''cron'' \<and> listing_of s ''cron'' = Some ''@daily''
     \<and> p_subs (sy_prov s) = [0] \<and> p_chans (sy_prov s) 0 = make_chan 16
     \<and> \<not> p_cancelled (sy_prov s) \<and> sy_inflight s = []"
proof -
  let ?d = default_provider_options
  have d: "po_namespace ?d = ''default''" "po_subscriber_buffer ?d = 16" by (simp_all add: option_defaults)
  obtain s where s: "sys_run startup_labels sample_start = Some (Inr s)" "sy_pc s = PSelect"
    "sy_inflight s = []" "p_subs (sy_prov s) = []" "p_next (sy_prov s) = 0" "p_buf_size (sy_prov s) = 16"
    "p_desc_by_key (sy_prov s) = desc_by_key sample_catalog" "p_ns (sy_prov s) = ''default''"
    "sy_store s = fst (ms_watch ''default'' ms_new)" "sy_ch s = 0" "\<not> p_cancelled (sy_prov s)"
    using startup_run [OF sample_build sample_flat with_options_ok(1) ms_ok_new, of "[]" sample_base]
    by (auto simp: sample_start_def d ms_new_def)
  have "\<exists>t. sys_run [LSubscribe, LWrite sample_op, LBroadcast sample_event] s = Some (Inr t)
     \<and> sy_pc t = PSelect \<and> buf (ms_chans (sy_store t) (sy_ch t)) = [sample_event]
     \<and> p_desc_by_key (sy_prov t) = desc_by_key sample_catalog
     \<and> listing_of t ''cron'' = Some ''@daily''
     \<and> p_subs (sy_prov t) = [0] \<and> p_chans (sy_prov t) 0 = make_chan 16
     \<and> \<not> p_cancelled (sy_prov t) \<and> sy_inflight t = []"
    using s(2-)
    by (simp add: sys_exec_def other_step_def with_prov_def with_store_def subscribe_def Let_def
        ms_watch_def ms_new_def sample_op_def ms_write_def ms_set_write_def append_audit_def
        sample_event_def ms_broadcast_def listing_of_def ms_list_def)
       (simp add: try_send_def has_room_def make_chan_def)
  then obtain t where t: "sys_run [LSubscribe, LWrite sample_op, LBroadcast sample_event] s = Some (Inr t)"
    "sy_pc t = PSelect" "buf (ms_chans (sy_store t) (sy_ch t)) = [sample_event]"
    "p_desc_by_key (sy_prov t) = desc_by_key sample_catalog"
    "listing_of t ''cron'' = Some ''@daily''" "p_subs (sy_prov t) = [0]"
    "p_chans (sy_prov t) 0 = make_chan 16" "\<not> p_cancelled (sy_prov t)" "sy_inflight t = []" by blast
  have "is_recreate (sy_prov t) ''cron''"
    by (simp add: is_recreate_def t(4) desc_by_key_def map_of_rev_def sample_catalog_def
        sample_cron_def sample_timeout_def sample_port_def)
  with t sys_run_append [OF s(1) t(1)] show ?thesis unfolding sample_labels_def by blast
qed

theorem pending_work_drains_witness:
  "\<exists>s. sys_run sample_labels sample_start = Some (Inr s) \<and> pending_work s = 4
     \<and> is_ok (the (sys_run (replicate 4 (LLoop ChooseEvent 9)) s))
     \<and> length (replicate 4 (LLoop ChooseEvent 9)) \<le> pending_work s"
proof -
  obtain s where s: "sys_run sample_labels sample_start = Some (Inr s)"
    "sy_pc s = PSelect" "buf (ms_chans (sy_store s) (sy_ch s)) = [sample_event]"
    "is_recreate (sy_prov s) ''cron''" "\<not> p_cancelled (sy_prov s)" "sy_inflight s = []"
    using sample_event_waiting by blast
  then obtain s1 where s1: "sys_run startup_labels sample_start = Some (Inr s1)"
    "sys_run [LSubscribe, LWrite sample_op, LBroadcast sample_event] s1 = Some (Inr s)"
    unfolding sample_labels_def by (blast dest: sys_run_append_elim)
  have "started (sy_pc s1)"
    using startup_run [OF sample_build sample_flat with_options_ok(1) ms_ok_new, of "[]" sample_base] s1(1)
    by (auto simp: sample_start_def)
  have ok: "sys_ok s" by (rule sys_ok_reach [OF sys_reach_run [OF sr_refl s(1)] sample_start_ok(1)])
  then have "prov_ok (sy_prov s)" "prov_flat (sy_prov s)"
    using sample_prov_flat [OF sys_reach_run [OF sr_refl s(1)]] by (simp_all add: sys_ok_def)
  from handler_run [OF this, of 9 "listing_of s" sample_event]
  obtain p' where p: "handle_change_event 9 (Inr (listing_of s)) sample_event (sy_prov s) = Inr p'" by blast
  have k: "ce_key sample_event = ''cron''" by (simp add: sample_event_def)
  obtain s' where s': "sys_run (replicate 4 (LLoop ChooseEvent 9)) s = Some (Inr s')"
    using loop_handler_run [OF ok s(2,3) p] s(4) by (auto simp: k numeral_eq_Suc)
  have l: "list_all (startup_safe (po_namespace default_provider_options)) startup_labels"
    by (simp add: startup_labels_def startup_safe_def)
  have d: "list_all drain_label (replicate 4 (LLoop ChooseEvent 9))" by (simp add: list_all_iff)
  have n: "sy_pc s \<noteq> PReturned" by (simp add: s(2))
  from pending_work_drains [OF sample_build sample_flat with_options_ok(1) ms_ok_new l
      s1(1) [unfolded sample_start_def] \<open>started (sy_pc s1)\<close> sys_reach_run [OF sr_refl s1(2)] n s(5) d s']
  show ?thesis using s s' by (auto simp: pending_work_def)
qed

subsection \<open>Subscribers\<close>

text \<open>C14: For a config on which a refresh cannot panic (\<open>safe_config\<close>: no managed leaf is itself a
  pointer, no managed slice is of a named string type, and the base is well typed), whatever runs beside the
  provider, every event that is ever in a subscriber's channel
  belongs to the provider's namespace and to a field of the catalog tagged
  recreate-on-change, and no channel holds more events than its capacity.\<close>

theorem subscribers_get_only_recreate_events:
  assumes "build_catalog (Some t) = Inr cat" "safe_config t cat base h" "options_ok cfg" "ms_ok st"
    and "sys_reach (sys_start t h base cat cfg st) s"
    and "e \<in> set (buf (p_chans (sy_prov s) ch))"
  shows "(\<exists>d \<in> set cat. fd_key d = ce_key e \<and> fd_strategy d = ReloadStrategyRecreate)
     \<and> ce_namespace e = po_namespace cfg \<and> length (buf (p_chans (sy_prov s) ch)) \<le> cap (p_chans (sy_prov s) ch)"
proof -
  have "subs_inv s" by (rule subs_inv_reach [OF assms(5) subs_inv_start [OF assms(1-4)]])
  with assms(6) have "event_for (sy_prov s) e" "chan_ok (p_chans (sy_prov s) ch)"
    by (auto simp: subs_inv_def sub_events_ok_def sys_ok_def prov_ok_def)
  then show ?thesis
    by (auto simp: event_for_def is_recreate_def chan_ok_def sys_start_static [OF assms(5)]
        split: option.splits dest: desc_by_key_in)
qed

theorem subscribers_get_only_recreate_events_witness:
  "\<exists>s. sys_run (sample_labels @ replicate 4 (LLoop ChooseEvent 9)) sample_start = Some (Inr s)
     \<and> buf (p_chans (sy_prov s) 0) = [sample_event]
     \<and> (\<exists>d \<in> set sample_catalog. fd_key d = ''cron'' \<and> fd_strategy d = ReloadStrategyRecreate)"
proof -
  obtain s0 where s0: "sys_run sample_labels sample_start = Some (Inr s0)"
    "sy_pc s0 = PSelect" "buf (ms_chans (sy_store s0) (sy_ch s0)) = [sample_event]"
    "is_recreate (sy_prov s0) ''cron''" "p_subs (sy_prov s0) = [0]"
    "buf (p_chans (sy_prov s0) 0) = []" "has_room (p_chans (sy_prov s0) 0)"
    using sample_event_waiting by (auto simp: make_chan_def has_room_def)
  have reach0: "sys_reach sample_start s0" by (rule sys_reach_run [OF sr_refl s0(1)])
  have ok: "sys_ok s0" by (rule sys_ok_reach [OF reach0 sample_start_ok(1)])
  then have "prov_ok (sy_prov s0)" "prov_flat (sy_prov s0)"
    using sample_prov_flat [OF reach0] by (simp_all add: sys_ok_def)
  from handler_run [OF this, of 9 "listing_of s0" sample_event]
  obtain p' where p: "handle_change_event 9 (Inr (listing_of s0)) sample_event (sy_prov s0) = Inr p'"
    "\<forall>ch. buf (p_chans p' ch) =
          (if is_recreate (sy_prov s0) (ce_key sample_event) \<and> ch \<in> set (p_subs (sy_prov s0))
              \<and> has_room (p_chans (sy_prov s0) ch)
           then buf (p_chans (sy_prov s0) ch) @ [sample_event] else buf (p_chans (sy_prov s0) ch))" by blast
  have b: "buf (p_chans p' 0) = [sample_event]"
    using p(2) [rule_format, of 0] s0 by (simp add: sample_event_def)
  have k: "ce_key sample_event = ''cron''" by (simp add: sample_event_def)
  obtain s where s: "sys_run (replicate 4 (LLoop ChooseEvent 9)) s0 = Some (Inr s)" "sy_prov s = p'"
    using loop_handler_run [OF ok s0(2,3) p(1)] s0(4) by (auto simp: k numeral_eq_Suc)
  have run: "sys_run (sample_labels @ replicate 4 (LLoop ChooseEvent 9)) sample_start = Some (Inr s)"
    using s0(1) s(1) by (rule sys_run_append)
  have e: "sample_event \<in> set (buf (p_chans (sy_prov s) 0))" using b s(2) by simp
  from subscribers_get_only_recreate_events [OF sample_build flat_safe [OF sample_flat] with_options_ok(1) ms_ok_new
      sys_reach_run [OF sr_refl run, unfolded sample_start_def] e]
  have "\<exists>d \<in> set sample_catalog. fd_key d = ''cron'' \<and> fd_strategy d = ReloadStrategyRecreate"
    by (simp add: k)
  with run b s(2) show ?thesis by auto
qed

end
