(* ===== verification/System_Barrier.thy ===== *)
theory System_Barrier
  imports System_Props Loop_Client
begin

text \<open>
  The provider on the in-memory store as a client of \<open>loop_client\<close>: its steps are the loop's
  moves and steps beside the loop. So a subscriber who has an event reads a snapshot listed
  after the write the event tells of, and no request for a refresh is lost, whatever else
  is going on.
\<close>

subsection \<open>The steps\<close>

lemma other_step_current:
  "sys_ok s \<Longrightarrow> other_step l s = Some (Inr s') \<Longrightarrow> p_current (sy_prov s') = p_current (sy_prov s)"
  using outcome_ok_elim [OF other_step_ok [of s l]] by (fastforce simp: store_side_def prov_side_def)

lemma request_stays:
  assumes "sys_ok s" "other_step l s = Some (Inr s')" "buf (p_trigger (sy_prov s)) \<noteq> []"
  shows "buf (p_trigger (sy_prov s')) \<noteq> []"
proof -
  have ok: "prov_ok (sy_prov s)" using assms(1) by (simp add: sys_ok_def)
  show ?thesis
  proof (cases l)
    case LRefresh
    with assms(2,3) request_refresh_ok [OF ok] show ?thesis
      by (auto simp: other_step_def with_prov_def split: if_splits)
  next
    case (LUnsubscribe c)
    with assms(2,3) show ?thesis
      by (auto simp: other_step_def with_prov_def bind_res_Inr_iff unsubscribe_def split: if_splits)
  next
    case LSubscribe
    with assms(2,3) show ?thesis
      by (auto simp: other_step_def with_prov_def subscribe_def Let_def split: if_splits)
  next
    case LCloseFinish
    with assms(2,3) show ?thesis
      by (auto simp: other_step_def with_prov_def bind_res_Inr_iff close_finish_def split: if_splits)
  qed (use assms(2,3) in \<open>auto simp: other_step_def with_prov_def with_store_def Let_def sub_recv_def
        close_begin_def bind_res_Inr_iff split_beta split: if_splits prod.splits\<close>)
qed

lemma other_step_beside:
  assumes "sys_ok s" "other_step l s = Some (Inr s')"
  shows "beside_loop (sy_prov s) (sy_pc s) (sy_prov s') (sy_pc s')"
proof -
  have "sys_exec l s = Some (Inr s')"
    using assms(2) by (cases l) (simp_all add: sys_exec_def other_step_def)
  then have "snapshot_of (sy_prov s') = snapshot_of (sy_prov s)"
    using sys_exec_static [of l s s'] by (simp add: prov_static_def snapshot_of_def fun_eq_iff)
  with other_step_subs [OF assms] other_step_current [OF assms] other_step_same(2) [OF assms] request_stays [OF assms]
  show ?thesis by (auto simp: beside_loop_def untouched_def requested_def)
qed

lemma loop_step_kind:
  assumes "loop_step choice now s = Some (Inr s')"
  shows "beside_loop (sy_prov s) (sy_pc s) (sy_prov s') (sy_pc s')
     \<or> before_loop (sy_prov s) (sy_pc s) (sy_prov s') (sy_pc s')
     \<or> (\<exists>m. loop_move (listing_of s) (sy_prov s) (sy_pc s) m (sy_prov s') (sy_pc s') \<and> (\<forall>err. m \<noteq> RefreshFailed err))"
proof (cases "sy_pc s")
  case PSelect
  show ?thesis
  proof (cases choice)
    case ChooseTrigger
    with assms PSelect obtain u c where "recv (p_trigger (sy_prov s)) = (Got u, c)"
      "s' = s\<lparr>sy_prov := (sy_prov s)\<lparr>p_trigger := c\<rparr>, sy_pc := PList OnTrigger\<rparr>"
      by (auto simp: loop_step_def select_step_def split: received.splits prod.splits)
    with PSelect lm_trigger [of "sy_prov s" u c "listing_of s"] show ?thesis by auto
  qed (use assms PSelect in \<open>auto simp: loop_step_def select_step_def beside_loop_def requested_def
      split: received.splits prod.splits if_splits\<close>)
next
  case (PList r)
  with assms lm_list [of "listing_of s" "sy_prov s" r] show ?thesis by (auto simp: loop_step_def)
next
  case (PInstall r ov)
  with assms obtain p err where "refresh now (Inr ov) (sy_prov s) = Inr (p, err)"
    "s' = s\<lparr>sy_prov := p, sy_pc := after_install r p\<rparr>"
    by (auto simp: loop_step_def with_prov_def bind_res_Inr_iff)
  with PInstall lm_install [of now ov "sy_prov s" p err "listing_of s" r] show ?thesis by auto
next
  case (PNotify e)
  with assms obtain p where "notify_subscribers e (sy_prov s) = Inr p" "s' = s\<lparr>sy_prov := p, sy_pc := PSelect\<rparr>"
    by (auto simp: loop_step_def with_prov_def bind_res_Inr_iff)
  with PNotify lm_notify [of e "sy_prov s" p "listing_of s"] show ?thesis by auto
qed (use assms in \<open>auto simp: loop_step_def before_loop_def with_prov_def bind_res_Inr_iff Let_def split_beta
    dest!: refresh_same\<close>)

interpretation mem_client: loop_client "\<lambda>s l s'. sys_exec l s = Some (Inr s')" listing_of sy_prov sy_pc
  "\<lambda>s. sys_ok s \<and> prov_flat (sy_prov s)" "\<lambda>l. False"
proof unfold_locales
  fix s :: system and l s'
  assume good: "sys_ok s \<and> prov_flat (sy_prov s)" and step: "sys_exec l s = Some (Inr s')"
  then show "sys_ok s' \<and> prov_flat (sy_prov s')"
    using outcome_ok_elim [OF sys_exec_ok step] sys_exec_flat [OF step] by blast
  from step show "beside_loop (sy_prov s) (sy_pc s) (sy_prov s') (sy_pc s')
      \<or> before_loop (sy_prov s) (sy_pc s) (sy_prov s') (sy_pc s')
      \<or> (\<exists>m. loop_move (listing_of s) (sy_prov s) (sy_pc s) m (sy_prov s') (sy_pc s')
            \<and> (\<forall>err. m = RefreshFailed err \<longrightarrow> False))"
    by (cases rule: sys_exec_cases) (use good loop_step_kind other_step_beside in blast)+
qed simp

subsection \<open>Runs\<close>

lemma sys_run_snoc_elim:
  assumes "sys_run (ls @ [l]) s = Some (Inr s')"
  obtains t where "sys_run ls s = Some (Inr t)" "sys_exec l t = Some (Inr s')"
proof -
  from sys_run_append_elim [OF assms] obtain t where
    "sys_run ls s = Some (Inr t)" "sys_run [l] t = Some (Inr s')" by blast
  with that show thesis by (cases "sys_exec l t") (auto split: sum.splits)
qed

lemma steps_from_sys_run:
  "steps_from (\<lambda>s l s'. sys_exec l s = Some (Inr s')) s ls t \<longleftrightarrow> sys_run ls s = Some (Inr t)"
proof
  assume "steps_from (\<lambda>s l s'. sys_exec l s = Some (Inr s')) s ls t"
  then show "sys_run ls s = Some (Inr t)"
  proof (induction rule: steps_from.induct)
    case (sf_more ls t l u)
    then have "sys_run [l] t = Some (Inr u)" by simp
    with sf_more.IH show ?case by (rule sys_run_append)
  qed simp
next
  assume "sys_run ls s = Some (Inr t)"
  then show "steps_from (\<lambda>s l s'. sys_exec l s = Some (Inr s')) s ls t"
  proof (induction ls arbitrary: t rule: rev_induct)
    case Nil
    then show ?case by (simp add: sf_none)
  next
    case (snoc l ls)
    obtain u where u: "sys_run ls s = Some (Inr u)" "sys_exec l u = Some (Inr t)"
      using sys_run_snoc_elim [OF snoc.prems] .
    show ?case by (rule sf_more [OF snoc.IH [OF u(1)] u(2)])
  qed
qed

text \<open>A step that does not write the key leaves its value.\<close>

definition writes_key :: "string \<times> string \<Rightarrow> sys_label \<Rightarrow> bool" where
  "writes_key target l \<longleftrightarrow> (case l of LWrite op1 \<Rightarrow> op_target op1 = target | _ \<Rightarrow> False)"

lemma loop_step_data:
  "loop_step choice now s = Some (Inr s') \<Longrightarrow> ms_list ns (sy_store s') = ms_list ns (sy_store s)"
  by (cases "sy_pc s")
     (auto simp: loop_step_def with_prov_def bind_res_Inr_iff select_step_def Let_def ms_watch_def
       ms_recv_def ms_list_def split: loop_choice.splits received.splits if_splits prod.splits)

lemma other_step_data:
  assumes "sys_ok s" "\<not> writes_key (ns, k) l" "other_step l s = Some (Inr s')"
  shows "ms_list ns (sy_store s') k = ms_list ns (sy_store s) k"
proof (cases l)
  case (LWrite op1)
  have "op_target op1 \<noteq> (ns, k)" using assms(2) LWrite by (simp add: writes_key_def)
  then have "kv_step op1 m ns k = m ns k" for m by (simp add: kv_step_eq del: kv_step.simps)
  with ms_list_write [of ns op1 "sy_store s"] LWrite assms(3) show ?thesis
    by (auto simp: other_step_def split_beta Let_def)
next
  case (LBroadcast e)
  have "ms_ok (sy_store s)" using assms(1) by (simp add: sys_ok_def)
  from ms_broadcast_data [OF this, of e] LBroadcast assms(3) show ?thesis
    by (auto simp: other_step_def with_store_def ms_list_def split: if_splits)
qed (use assms(3) in \<open>auto simp: other_step_def with_prov_def with_store_def Let_def bind_res_Inr_iff
       ms_unwatch_def ms_watch_def ms_recv_def ms_list_def lift_panic_def
       split: if_splits prod.splits option.splits sum.splits\<close>)

lemma sys_run_data:
  "sys_ok s \<Longrightarrow> list_all (\<lambda>l. \<not> writes_key (ns, k) l) ls \<Longrightarrow> sys_run ls s = Some (Inr s') \<Longrightarrow>
     ms_list ns (sy_store s') k = ms_list ns (sy_store s) k"
proof (induction ls arbitrary: s)
  case (Cons l ls)
  from Cons.prems(3) obtain t where t: "sys_exec l s = Some (Inr t)" "sys_run ls t = Some (Inr s')"
    by (auto split: option.splits sum.splits)
  have "sys_ok t" by (rule outcome_ok_elim [OF sys_exec_ok [OF Cons.prems(1)] t(1)])
  moreover have "ms_list ns (sy_store t) k = ms_list ns (sy_store s) k"
    using t(1)
  proof (cases rule: sys_exec_cases)
    case (loop c now)
    show ?thesis by (simp add: loop_step_data [OF loop(2)])
  next
    case other
    from Cons.prems(2) have "\<not> writes_key (ns, k) l" by simp
    from other_step_data [OF Cons.prems(1) this other(2)] show ?thesis .
  qed
  ultimately show ?case using Cons.IH [OF _ _ t(2)] Cons.prems(2) by simp
qed simp

subsection \<open>The property\<close>

text \<open>C3: A subscriber sees the change it is told of, for a config whose managed fields are reached
  without pointers and whose managed slices are exactly \<^verbatim>\<open>[]string\<close> (\<open>flat_config\<close>; behind a
  non-nil pointer an override outlives its deletion).
  Take any write, at any moment, whose event the
  loop has not listed for yet, and let anything happen after it: whenever that event is in
  a subscriber's channel, \<open>Get\<close> returns the base with the overrides the store had at some
  moment after the write; if the key is not written again, they hold the value written.\<close>

theorem subscriber_sees_change:
  assumes "build_catalog (Some t) = Inr cat" "flat_config t cat" "options_ok cfg" "ms_ok st"
    and "sys_reach (sys_start t h base cat cfg st) s0" "unannounced e (sy_prov s0) (sy_pc s0)"
    and "sys_exec (LWrite op1) s0 = Some (Inr s1)" "snd (ms_write op1 (sy_store s0)) = Some e"
    and "sys_run ls s1 = Some (Inr s)" "e \<in> set (buf (p_chans (sy_prov s) ch))"
  shows "\<exists>us vs s2. ls = us @ vs \<and> sys_run us s1 = Some (Inr s2)
     \<and> provider_get (sy_prov s) = Inr (apply_pure (listing_of s2) cat base)
     \<and> (list_all (\<lambda>l. \<not> writes_key (op_target op1) l) ls \<longrightarrow> listing_of s2 (ce_key e) = op_result op1)"
proof -
  let ?s = "sys_start t h base cat cfg st"
  have safe: "safe_config t cat base h" using assms(2) by (rule flat_safe)
  have inv: "subs_inv s0" by (rule subs_inv_reach [OF assms(5) subs_inv_start [OF assms(1) safe assms(3,4)]])
  then have ok0: "sys_ok s0" by (simp add: subs_inv_def)
  have reach: "sys_reach ?s s1" "sys_reach s1 s"
    using sr_step [OF assms(5,7)] sys_reach_run [OF sr_refl assms(9)] by simp_all
  then have "sys_reach ?s s" using sys_reach_trans by blast
  note static = sys_start_static [OF this]
  have ok: "sys_ok s1" "prov_flat (sy_prov s1)"
    using outcome_ok_elim [OF sys_exec_ok [OF ok0] assms(7)] sys_reach_flat [OF reach(1)] assms(1,2)
    by (simp_all add: sys_start_def init_provider_same prov_flat_def)
  have s1: "sy_store s1 = fst (ms_write op1 (sy_store s0))" "sy_prov s1 = sy_prov s0" "sy_pc s1 = sy_pc s0"
    using assms(7) by (auto simp: sys_exec_def other_step_def split_beta Let_def)
  with assms(6) have "unannounced e (sy_prov s1) (sy_pc s1)" by simp
  from mem_client.subscriber_sees [OF steps_from_sys_run [THEN iffD2, OF assms(9)] _ this assms(10)] ok
  obtain us vs s2 where s2: "ls = us @ vs" "sys_run us s1 = Some (Inr s2)"
    "provider_get (sy_prov s) = Inr (apply_pure (listing_of s2) cat base)"
    unfolding steps_from_sys_run static by blast
  have "listing_of s2 (ce_key e) = op_result op1"
    if "list_all (\<lambda>l. \<not> writes_key (op_target op1) l) ls"
  proof -
    have eff: "op_effective (\<lambda>ns. ms_list ns (sy_store s0)) op1"
      using ms_write_audit [of op1 "sy_store s0"] assms(8) by (cases "ms_write op1 (sy_store s0)") (auto split: if_splits)
    have target: "(ce_namespace e, ce_key e) = op_target op1"
      using ms_write_event [OF _ eff] assms(8) by (cases "ms_write op1 (sy_store s0)") auto
    have "subs_inv s" by (rule subs_inv_reach [OF \<open>sys_reach ?s s\<close> subs_inv_start [OF assms(1) safe assms(3,4)]])
    then have ns: "ce_namespace e = po_namespace cfg"
      using assms(10) static by (auto simp: subs_inv_def sub_events_ok_def event_for_def)
    have "list_all (\<lambda>l. \<not> writes_key (ce_namespace e, ce_key e) l) us"
      using that by (simp add: s2(1) target)
    from sys_run_data [OF ok(1) this s2(2)]
    have "ms_list (ce_namespace e) (sy_store s2) (ce_key e) = ms_list (ce_namespace e) (sy_store s1) (ce_key e)" .
    moreover have "listing_of s2 = ms_list (ce_namespace e) (sy_store s2)"
      using sys_start_static(5) [OF sys_reach_run [OF reach(1) s2(2)]] ns by simp
    ultimately show ?thesis
      by (simp add: s1 ms_list_write kv_step_eq target [symmetric] del: kv_step.simps)
  qed
  with s2 show ?thesis by blast
qed

theorem subscriber_sees_change_witness:
  "\<exists>s ls. sys_run ls sample_start = Some (Inr s) \<and> buf (p_chans (sy_prov s) 0) = [sample_event]
     \<and> (\<exists>ov. ov ''cron'' = Some ''@daily'' \<and> provider_get (sy_prov s) = Inr (apply_pure ov sample_catalog sample_base))"
proof -
  let ?d = default_provider_options and ?drain = "LBroadcast sample_event # replicate 4 (LLoop ChooseEvent 9)"
  obtain sw where sw: "sys_run sample_labels sample_start = Some (Inr sw)" "sy_pc sw = PSelect"
    "buf (ms_chans (sy_store sw) (sy_ch sw)) = [sample_event]" "is_recreate (sy_prov sw) ''cron''"
    "p_subs (sy_prov sw) = [0]" "buf (p_chans (sy_prov sw) 0) = []" "has_room (p_chans (sy_prov sw) 0)"
    using sample_event_waiting by (auto simp: make_chan_def has_room_def)
  have ok: "sys_ok sw" "prov_flat (sy_prov sw)"
    using sys_ok_reach [OF sys_reach_run [OF sr_refl sw(1)] sample_start_ok(1)]
      sample_prov_flat [OF sys_reach_run [OF sr_refl sw(1)]] by simp_all
  then have "prov_ok (sy_prov sw)" by (simp add: sys_ok_def)
  from handler_run [OF this ok(2), of 9 "listing_of sw" sample_event] obtain p' where
    p: "handle_change_event 9 (Inr (listing_of sw)) sample_event (sy_prov sw) = Inr p'"
    and chans: "\<forall>ch. buf (p_chans p' ch) = (if is_recreate (sy_prov sw) (ce_key sample_event)
         \<and> ch \<in> set (p_subs (sy_prov sw)) \<and> has_room (p_chans (sy_prov sw) ch)
       then buf (p_chans (sy_prov sw) ch) @ [sample_event] else buf (p_chans (sy_prov sw) ch))" by blast
  have k: "ce_key sample_event = ''cron''" by (simp add: sample_event_def)
  from loop_handler_run [OF ok(1) sw(2,3) p] sw(4) obtain s where
    s: "sys_run (replicate 4 (LLoop ChooseEvent 9)) sw = Some (Inr s)" "sy_prov s = p'"
    by (auto simp: k numeral_eq_Suc)
  with chans sw k have b: "buf (p_chans (sy_prov s) 0) = [sample_event]" by simp
  from sw(1) obtain sa where sa: "sys_run startup_labels sample_start = Some (Inr sa)"
    "sys_run [LSubscribe, LWrite sample_op, LBroadcast sample_event] sa = Some (Inr sw)"
    unfolding sample_labels_def by (blast dest: sys_run_append_elim)
  have "sy_pc sa = PSelect \<and> p_chans (sy_prov sa) = (\<lambda>i. make_chan 0) \<and> sy_store sa = fst (ms_watch ''default'' ms_new)"
    using startup_run [OF sample_build sample_flat with_options_ok(1) ms_ok_new, of "[]" sample_base] sa(1)
    by (auto simp: sample_start_def option_defaults)
  then obtain s0 where s0: "sys_exec LSubscribe sa = Some (Inr s0)" "unannounced sample_event (sy_prov s0) (sy_pc s0)"
    "snd (ms_write sample_op (sy_store s0)) = Some sample_event"
    by (auto simp: sys_exec_def other_step_def with_prov_def subscribe_def Let_def unannounced_def told_def
        make_chan_def sample_op_def ms_write_def ms_set_write_def ms_watch_def ms_new_def sample_event_def)
  with sa(2) obtain s1 where s1: "sys_exec (LWrite sample_op) s0 = Some (Inr s1)"
    "sys_run [LBroadcast sample_event] s1 = Some (Inr sw)"
    by (auto split: option.splits sum.splits)
  have run: "sys_run ?drain s1 = Some (Inr s)" using sys_run_append [OF s1(2) s(1)] by simp
  have reach: "sys_reach (sys_start sample_type [] sample_base sample_catalog ?d ms_new) s0"
    using sr_step [OF sys_reach_run [OF sr_refl sa(1)] s0(1)] by (simp add: sample_start_def)
  have e: "sample_event \<in> set (buf (p_chans (sy_prov s) 0))" by (simp add: b)
  have q: "list_all (\<lambda>l. \<not> writes_key (op_target sample_op) l) ?drain" by (simp add: writes_key_def list_all_iff)
  from subscriber_sees_change [OF sample_build sample_flat with_options_ok(1) ms_ok_new reach s0(2) s1(1) s0(3) run e] q
  have "\<exists>ov. ov ''cron'' = Some ''@daily'' \<and> provider_get (sy_prov s) = Inr (apply_pure ov sample_catalog sample_base)"
    by (auto simp: k sample_write)
  moreover have "sys_run (sample_labels @ replicate 4 (LLoop ChooseEvent 9)) sample_start = Some (Inr s)"
    using sw(1) s(1) by (rule sys_run_append)
  ultimately show ?thesis using b by blast
qed

end
