(* ===== verification/System_Loop.thy ===== *)
theory System_Loop
  imports System_Barrier
begin

text \<open>
  What the event loop does while everything else goes on: the effect of handling one event,
  with any steps of the rest of the program between the loop's own, and the end of the
  loop after its context has been cancelled.
\<close>

subsection \<open>Steps beside the loop\<close>

fun loop_label :: "sys_label \<Rightarrow> bool" where
  "loop_label (LLoop choice now) = True"
| "loop_label l = False"

abbreviation beside :: "sys_label list \<Rightarrow> bool" where
  "beside ls \<equiv> list_all (\<lambda>l. \<not> loop_label l) ls"

lemma beside_step:
  assumes "sys_ok s" "\<not> loop_label l" "sys_exec l s = Some (Inr s')"
  shows "sys_ok s' \<and> sy_pc s' = sy_pc s \<and> p_current (sy_prov s') = p_current (sy_prov s)"
proof -
  have "other_step l s = Some (Inr s')" using assms(2,3) by (cases l) (simp_all add: sys_exec_def)
  with other_step_same [OF assms(1)] other_step_current [OF assms(1)]
    outcome_ok_elim [OF sys_exec_ok [OF assms(1)] assms(3)] show ?thesis by simp
qed

lemma beside_run:
  "sys_ok s \<Longrightarrow> beside ls \<Longrightarrow> sys_run ls s = Some (Inr s') \<Longrightarrow>
     sys_ok s' \<and> sy_pc s' = sy_pc s \<and> p_current (sy_prov s') = p_current (sy_prov s)"
proof (induction ls arbitrary: s)
  case (Cons l ls)
  from Cons.prems(3) obtain t where t: "sys_exec l s = Some (Inr t)" "sys_run ls t = Some (Inr s')"
    by (auto split: option.splits sum.splits)
  with beside_step [OF Cons.prems(1) _ t(1)] Cons.IH [OF _ _ t(2)] Cons.prems(2) show ?case by simp
qed simp

subsection \<open>Handling an event\<close>

lemma take_event:
  assumes "sy_pc s = PSelect" "buf (ms_chans (sy_store s) (sy_ch s)) = event # rest"
  shows "\<exists>s1. sys_exec (LLoop ChooseEvent now) s = Some (Inr s1) \<and> sy_pc s1 = PList (OnEvent event)
    \<and> buf (ms_chans (sy_store s1) (sy_ch s1)) = rest"
  using assms by (simp add: sys_exec_def loop_step_def select_step_def ms_recv_def recv_def)

lemma install_step:
  assumes "sys_ok s" "prov_flat (sy_prov s)" "sy_pc s = PInstall r ov"
  shows "\<exists>s'. sys_exec (LLoop c now) s = Some (Inr s') \<and> sys_ok s' \<and> sy_pc s' = after_install r (sy_prov s)
    \<and> p_current (sy_prov s') = Some (snapshot_of (sy_prov s) ov) \<and> p_chans (sy_prov s') = p_chans (sy_prov s)"
proof -
  obtain q where q: "refresh now (Inr ov) (sy_prov s) = Inr (q, None)" "p_current q = Some (snapshot_of (sy_prov s) ov)"
    using refresh_flat [OF assms(2), of now ov] by simp
  note same = refresh_same [OF q(1)]
  have "after_install r q = after_install r (sy_prov s)"
    using same by (simp add: after_install_def is_recreate_def split: loop_reason.split)
  moreover have e: "sys_exec (LLoop c now) s = Some (Inr (s\<lparr>sy_prov := q, sy_pc := after_install r q\<rparr>))"
    using q(1) assms(3) by (simp add: sys_exec_def loop_step_def with_prov_def)
  moreover have "sys_ok (s\<lparr>sy_prov := q, sy_pc := after_install r q\<rparr>)"
    by (rule outcome_ok_elim [OF sys_exec_ok [OF assms(1)] e])
  ultimately show ?thesis using q(2) same by simp
qed

lemma notify_step:
  assumes "sys_ok s" "sy_pc s = PNotify event"
  shows "\<exists>s'. sys_exec (LLoop c now) s = Some (Inr s') \<and> sy_pc s' = PSelect
    \<and> p_current (sy_prov s') = p_current (sy_prov s)
    \<and> (\<forall>ch. buf (p_chans (sy_prov s') ch) =
         (if ch \<in> set (p_subs (sy_prov s)) \<and> has_room (p_chans (sy_prov s) ch)
          then buf (p_chans (sy_prov s) ch) @ [event] else buf (p_chans (sy_prov s) ch)))"
proof -
  have "prov_ok (sy_prov s)" using assms(1) by (simp add: sys_ok_def)
  from notify_ok [OF this, of event] obtain tab where
    t: "notify_subscribers event (sy_prov s) = Inr ((sy_prov s)\<lparr>p_chans := tab\<rparr>)"
    "\<forall>ch \<in> set (p_subs (sy_prov s)). buf (tab ch) = (if has_room (p_chans (sy_prov s) ch)
        then buf (p_chans (sy_prov s) ch) @ [event] else buf (p_chans (sy_prov s) ch))"
    "\<forall>ch. ch \<notin> set (p_subs (sy_prov s)) \<longrightarrow> tab ch = p_chans (sy_prov s) ch" by blast
  have "buf (tab ch) = (if ch \<in> set (p_subs (sy_prov s)) \<and> has_room (p_chans (sy_prov s) ch)
      then buf (p_chans (sy_prov s) ch) @ [event] else buf (p_chans (sy_prov s) ch))" for ch
    using t(2,3) by (cases "ch \<in> set (p_subs (sy_prov s))") simp_all
  with t(1) assms(2) show ?thesis by (simp add: sys_exec_def loop_step_def with_prov_def)
qed

text \<open>C13: What handling one event does, with anything else running in between. For a config whose
  managed fields are reached without pointers and whose managed slices are exactly
  \<^verbatim>\<open>[]string\<close> (\<open>flat_config\<close>; behind a non-nil pointer an override outlives its deletion): in every reachable state in which the loop waits and an event
  is in its channel, the loop can take it, and the channel then holds the rest. After any steps of
  the rest of the program it lists, after any more it installs: this step cannot fail, \<open>Get\<close>
  then returns the base with the overrides that the store had when they were listed, and no
  subscriber's channel has changed. If the catalog tags the event's key recreate-on-change, then
  after any further steps beside it the loop gives the event to exactly the channels
  subscribed by then, behind what they hold, skipping those that are full, leaves the
  snapshot alone and waits again; for any other key it waits again at once.\<close>

theorem event_handling_effect:
  assumes "build_catalog (Some t) = Inr cat" "flat_config t cat" "options_ok cfg" "ms_ok st"
    and "sys_reach (sys_start t h base cat cfg st) s" "sy_pc s = PSelect"
    and "buf (ms_chans (sy_store s) (sy_ch s)) = event # rest"
  shows "\<exists>s0. sys_exec (LLoop ChooseEvent t1) s = Some (Inr s0) \<and> buf (ms_chans (sy_store s0) (sy_ch s0)) = rest
    \<and> (\<forall>os1 s1 os2 s2. beside os1 \<longrightarrow> beside os2 \<longrightarrow> sys_run os1 s0 = Some (Inr s1) \<longrightarrow>
        sys_run (LLoop c2 t2 # os2) s1 = Some (Inr s2) \<longrightarrow>
        (\<exists>s3. sys_exec (LLoop c3 t3) s2 = Some (Inr s3)
          \<and> provider_get (sy_prov s3) = Inr (apply_pure (ms_list (po_namespace cfg) (sy_store s1)) cat base)
          \<and> p_chans (sy_prov s3) = p_chans (sy_prov s2)
          \<and> (if \<exists>d. desc_by_key cat (ce_key event) = Some d \<and> fd_strategy d = ReloadStrategyRecreate
             then \<forall>os3 s4. beside os3 \<longrightarrow> sys_run os3 s3 = Some (Inr s4) \<longrightarrow>
               (\<exists>s5. sys_exec (LLoop c4 t4) s4 = Some (Inr s5) \<and> sy_pc s5 = PSelect
                 \<and> provider_get (sy_prov s5) = provider_get (sy_prov s3)
                 \<and> (\<forall>ch. buf (p_chans (sy_prov s5) ch) =
                      (if ch \<in> set (p_subs (sy_prov s4)) \<and> has_room (p_chans (sy_prov s4) ch)
                       then buf (p_chans (sy_prov s4) ch) @ [event] else buf (p_chans (sy_prov s4) ch))))
             else sy_pc s3 = PSelect)))"
proof -
  let ?s = "sys_start t h base cat cfg st"
  have ok: "sys_ok s" by (rule sys_ok_reach [OF assms(5) sys_ok_start [OF assms(1) flat_safe [OF assms(2)] assms(3,4)]])
  obtain s0 where s0: "sys_exec (LLoop ChooseEvent t1) s = Some (Inr s0)" "sy_pc s0 = PList (OnEvent event)"
    "buf (ms_chans (sy_store s0) (sy_ch s0)) = rest" using take_event [OF assms(6,7)] by blast
  have ok0: "sys_ok s0" by (rule outcome_ok_elim [OF sys_exec_ok [OF ok] s0(1)])
  have r0: "sys_reach ?s s0" by (rule sr_step [OF assms(5) s0(1)])
  {
    fix os1 s1 os2 s2
    assume b: "beside os1" "beside os2" and run1: "sys_run os1 s0 = Some (Inr s1)"
      and run2: "sys_run (LLoop c2 t2 # os2) s1 = Some (Inr s2)"
    have s1: "sys_ok s1" "sy_pc s1 = PList (OnEvent event)" using beside_run [OF ok0 b(1) run1] s0(2) by simp_all
    let ?m = "s1\<lparr>sy_pc := PInstall (OnEvent event) (listing_of s1)\<rparr>"
    have m: "sys_exec (LLoop c2 t2) s1 = Some (Inr ?m)" using s1(2) by (simp add: sys_exec_def loop_step_def)
    with run2 have run2': "sys_run os2 ?m = Some (Inr s2)" by simp
    have "sys_ok ?m" by (rule outcome_ok_elim [OF sys_exec_ok [OF s1(1)] m])
    with beside_run [OF _ b(2) run2'] have s2: "sys_ok s2" "sy_pc s2 = PInstall (OnEvent event) (listing_of s1)" by simp_all
    have r1: "sys_reach ?s s1" by (rule sys_reach_run [OF r0 run1])
    then have r2: "sys_reach ?s s2" using sys_reach_run [OF _ run2] by blast
    have flat: "prov_flat (sy_prov s2)"
      using sys_reach_flat [OF r2] assms(1,2) by (simp add: sys_start_def init_provider_same prov_flat_def)
    from install_step [OF s2(1) flat s2(2), of c3 t3] obtain s3 where
      s3: "sys_exec (LLoop c3 t3) s2 = Some (Inr s3)" "sys_ok s3"
        "sy_pc s3 = after_install (OnEvent event) (sy_prov s2)"
        "p_current (sy_prov s3) = Some (snapshot_of (sy_prov s2) (listing_of s1))"
        "p_chans (sy_prov s3) = p_chans (sy_prov s2)" by blast
    have rec: "is_recreate (sy_prov s2) (ce_key event) \<longleftrightarrow>
        (\<exists>d. desc_by_key cat (ce_key event) = Some d \<and> fd_strategy d = ReloadStrategyRecreate)"
      using sys_start_static(4) [OF r2] by (auto simp: is_recreate_def split: option.splits)
    have get: "provider_get (sy_prov s3) = Inr (apply_pure (ms_list (po_namespace cfg) (sy_store s1)) cat base)"
      using s3(4) by (simp add: provider_get_def sys_start_static(6) [OF r2] sys_start_static(5) [OF r1])
    have told: "\<exists>s5. sys_exec (LLoop c4 t4) s4 = Some (Inr s5) \<and> sy_pc s5 = PSelect
         \<and> provider_get (sy_prov s5) = provider_get (sy_prov s3)
         \<and> (\<forall>ch. buf (p_chans (sy_prov s5) ch) =
              (if ch \<in> set (p_subs (sy_prov s4)) \<and> has_room (p_chans (sy_prov s4) ch)
               then buf (p_chans (sy_prov s4) ch) @ [event] else buf (p_chans (sy_prov s4) ch)))"
      if "sy_pc s3 = PNotify event" "beside os3" "sys_run os3 s3 = Some (Inr s4)" for os3 s4
    proof -
      have "sys_ok s4" "sy_pc s4 = PNotify event" "p_current (sy_prov s4) = p_current (sy_prov s3)"
        using beside_run [OF s3(2) that(2,3)] that(1) by simp_all
      with notify_step [of s4 event c4 t4] show ?thesis by (auto simp: provider_get_def)
    qed
    have "\<exists>s3. sys_exec (LLoop c3 t3) s2 = Some (Inr s3)
          \<and> provider_get (sy_prov s3) = Inr (apply_pure (ms_list (po_namespace cfg) (sy_store s1)) cat base)
          \<and> p_chans (sy_prov s3) = p_chans (sy_prov s2)
          \<and> (if \<exists>d. desc_by_key cat (ce_key event) = Some d \<and> fd_strategy d = ReloadStrategyRecreate
             then \<forall>os3 s4. beside os3 \<longrightarrow> sys_run os3 s3 = Some (Inr s4) \<longrightarrow>
               (\<exists>s5. sys_exec (LLoop c4 t4) s4 = Some (Inr s5) \<and> sy_pc s5 = PSelect
                 \<and> provider_get (sy_prov s5) = provider_get (sy_prov s3)
                 \<and> (\<forall>ch. buf (p_chans (sy_prov s5) ch) =
                      (if ch \<in> set (p_subs (sy_prov s4)) \<and> has_room (p_chans (sy_prov s4) ch)
                       then buf (p_chans (sy_prov s4) ch) @ [event] else buf (p_chans (sy_prov s4) ch))))
             else sy_pc s3 = PSelect)"
      using s3(1,3,5) get rec told by (intro exI [of _ s3]) (simp add: after_install_def)
  }
  with s0 show ?thesis by blast
qed

text \<open>The sample event is taken, listed for, installed and given to the one subscriber.\<close>

theorem event_handling_effect_witness:
  "\<exists>s s5. sys_run sample_labels sample_start = Some (Inr s) \<and> sys_run (replicate 4 (LLoop ChooseEvent 9)) s = Some (Inr s5)
     \<and> provider_get (sy_prov s5) = Inr (apply_pure (ms_list ''default'' (sy_store s)) sample_catalog sample_base)
     \<and> buf (p_chans (sy_prov s5) 0) = [sample_event]"
proof -
  let ?l = "LLoop ChooseEvent 9"
  obtain s where s: "sys_run sample_labels sample_start = Some (Inr s)" "sy_pc s = PSelect"
    "buf (ms_chans (sy_store s) (sy_ch s)) = [sample_event]"
    "p_subs (sy_prov s) = [0]" "p_chans (sy_prov s) 0 = make_chan 16" using sample_event_waiting by blast
  have reach: "sys_reach (sys_start sample_type [] sample_base sample_catalog default_provider_options ms_new) s"
    using sys_reach_run [OF sr_refl s(1)] by (simp add: sample_start_def)
  have rec: "\<exists>d. desc_by_key sample_catalog (ce_key sample_event) = Some d \<and> fd_strategy d = ReloadStrategyRecreate"
    by (simp add: sample_event_def desc_by_key_def map_of_rev_def sample_catalog_def
        sample_cron_def sample_timeout_def sample_port_def)
  obtain s0 where s0: "sys_exec ?l s = Some (Inr s0)" "sy_pc s0 = PList (OnEvent sample_event)"
    using take_event [OF s(2,3)] by blast
  let ?m = "s0\<lparr>sy_pc := PInstall (OnEvent sample_event) (listing_of s0)\<rparr>"
  have m: "sys_run [?l] s0 = Some (Inr ?m)" using s0(2) by (simp add: sys_exec_def loop_step_def)
  have none: "beside []" "sys_run [] s' = Some (Inr s')" for s' by simp_all
  have same: "sy_prov ?m = sy_prov s" "ms_list ns (sy_store s0) = ms_list ns (sy_store s)" for ns
    using s0(1) s(2,3) by (auto simp: sys_exec_def loop_step_def select_step_def ms_recv_def recv_def ms_list_def)
  from event_handling_effect [OF sample_build sample_flat with_options_ok(1) ms_ok_new reach s(2,3),
      where ?t1.0 = 9 and ?c2.0 = ChooseEvent and ?t2.0 = 9 and ?c3.0 = ChooseEvent and ?t3.0 = 9
        and ?c4.0 = ChooseEvent and ?t4.0 = 9, unfolded if_P [OF rec]] obtain s0' where
    s0': "sys_exec ?l s = Some (Inr s0')" and
    eff: "\<And>os1 s1 os2 s2. beside os1 \<Longrightarrow> beside os2 \<Longrightarrow> sys_run os1 s0' = Some (Inr s1) \<Longrightarrow>
        sys_run (?l # os2) s1 = Some (Inr s2) \<Longrightarrow>
        (\<exists>s3. sys_exec ?l s2 = Some (Inr s3)
          \<and> provider_get (sy_prov s3) = Inr (apply_pure (ms_list (po_namespace default_provider_options) (sy_store s1)) sample_catalog sample_base)
          \<and> p_chans (sy_prov s3) = p_chans (sy_prov s2)
          \<and> (\<forall>os3 s4. beside os3 \<longrightarrow> sys_run os3 s3 = Some (Inr s4) \<longrightarrow>
               (\<exists>s5. sys_exec ?l s4 = Some (Inr s5) \<and> sy_pc s5 = PSelect
                 \<and> provider_get (sy_prov s5) = provider_get (sy_prov s3)
                 \<and> (\<forall>ch. buf (p_chans (sy_prov s5) ch) =
                      (if ch \<in> set (p_subs (sy_prov s4)) \<and> has_room (p_chans (sy_prov s4) ch)
                       then buf (p_chans (sy_prov s4) ch) @ [sample_event] else buf (p_chans (sy_prov s4) ch))))))"
    by blast
  have eq: "s0' = s0" using s0' s0(1) by simp
  have ns: "po_namespace default_provider_options = ''default''" by (simp add: option_defaults)
  from eff [OF none(1) none(1) none(2) m [folded eq]] obtain s3 where
    s3: "sys_exec ?l ?m = Some (Inr s3)" "p_chans (sy_prov s3) = p_chans (sy_prov s)"
      "provider_get (sy_prov s3) = Inr (apply_pure (ms_list ''default'' (sy_store s)) sample_catalog sample_base)"
    and after: "\<And>os3 s4. beside os3 \<Longrightarrow> sys_run os3 s3 = Some (Inr s4) \<Longrightarrow>
       (\<exists>s5. sys_exec ?l s4 = Some (Inr s5) \<and> sy_pc s5 = PSelect
             \<and> provider_get (sy_prov s5) = provider_get (sy_prov s3)
             \<and> (\<forall>ch. buf (p_chans (sy_prov s5) ch) =
                  (if ch \<in> set (p_subs (sy_prov s4)) \<and> has_room (p_chans (sy_prov s4) ch)
                   then buf (p_chans (sy_prov s4) ch) @ [sample_event] else buf (p_chans (sy_prov s4) ch))))"
    unfolding eq same ns by blast
  note told = after [OF none]
  have "p_subs (sy_prov s3) = [0]"
    using s3(1) same(1) s(4) by (auto simp: sys_exec_def loop_step_def with_prov_def bind_res_Inr_iff dest!: refresh_same)
  with told s3(2) s(5) obtain s5 where s5: "sys_exec ?l s3 = Some (Inr s5)"
    "provider_get (sy_prov s5) = provider_get (sy_prov s3)" "buf (p_chans (sy_prov s5) 0) = [sample_event]"
    by (auto simp: make_chan_def has_room_def)
  have one: "sys_run [?l] s = Some (Inr s0)" "sys_run [?l] ?m = Some (Inr s3)" "sys_run [?l] s3 = Some (Inr s5)"
    using s0(1) s3(1) s5(1) by simp_all
  have "sys_run (replicate 4 ?l) s = Some (Inr s5)"
    using sys_run_append [OF one(1) sys_run_append [OF m sys_run_append [OF one(2,3)]]]
    by (simp add: eval_nat_numeral del: sys_run.simps)
  with s(1) s5 s3(3) show ?thesis by auto
qed

subsection \<open>The end of the loop\<close>

text \<open>How far a started loop is from its return when every \<^verbatim>\<open>select\<close> takes the done case, and
  how often a run's \<^verbatim>\<open>select\<close> takes another ready case and does not return.\<close>

fun loop_left :: "loop_pc \<Rightarrow> nat" where
  "loop_left PReturned = 0"
| "loop_left PSelect = 1"
| "loop_left (PNotify e) = 2"
| "loop_left (PInstall r ov) = 3"
| "loop_left (PList r) = 4"
| "loop_left pc = 0"

fun other_picks :: "sys_label list \<Rightarrow> system \<Rightarrow> nat" where
  "other_picks [] s = 0"
| "other_picks (l # ls) s =
     (case sys_exec l s of
        Some (Inr s') \<Rightarrow>
          (if loop_label l \<and> sy_pc s = PSelect \<and> sy_pc s' \<noteq> PReturned then 1 else 0) + other_picks ls s'
      | _ \<Rightarrow> 0)"

lemma loop_left_bound: "loop_left pc \<le> 4"
  by (cases pc) simp_all

lemma loop_left_after: "loop_left (after_install r p) \<le> 2"
  by (simp add: after_install_def split: loop_reason.split)

lemma loop_step_left:
  assumes "started (sy_pc s)" "loop_step c now s = Some (Inr s')"
  shows "1 + loop_left (sy_pc s') \<le> loop_left (sy_pc s) + (if sy_pc s = PSelect \<and> sy_pc s' \<noteq> PReturned then 4 else 0)"
proof (cases "sy_pc s")
  case PSelect
  then show ?thesis using loop_left_bound [of "sy_pc s'"] by (auto split: if_splits)
next
  case (PInstall r ov)
  with assms(2) obtain p where "sy_pc s' = after_install r p"
    by (auto simp: loop_step_def with_prov_def bind_res_Inr_iff)
  with PInstall loop_left_after [of r p] show ?thesis by simp
qed (use assms in \<open>auto simp: loop_step_def with_prov_def bind_res_Inr_iff\<close>)

lemma loop_steps_bounded:
  "sys_ok s \<Longrightarrow> started (sy_pc s) \<Longrightarrow> sys_run ls s = Some (Inr s') \<Longrightarrow>
     length (filter loop_label ls) + loop_left (sy_pc s') \<le> loop_left (sy_pc s) + 4 * other_picks ls s
     \<and> sys_ok s' \<and> started (sy_pc s') \<and> (p_cancelled (sy_prov s) \<longrightarrow> p_cancelled (sy_prov s'))"
proof (induction ls arbitrary: s)
  case (Cons l ls)
  from Cons.prems(3) obtain u where u: "sys_exec l s = Some (Inr u)" "sys_run ls u = Some (Inr s')"
    by (auto split: option.splits sum.splits)
  have ok: "sys_ok u" by (rule outcome_ok_elim [OF sys_exec_ok [OF Cons.prems(1)] u(1)])
  have step: "started (sy_pc u) \<and> (p_cancelled (sy_prov s) \<longrightarrow> p_cancelled (sy_prov u))
    \<and> (if loop_label l then 1 else 0) + loop_left (sy_pc u)
        \<le> loop_left (sy_pc s) + (if loop_label l \<and> sy_pc s = PSelect \<and> sy_pc u \<noteq> PReturned then 4 else 0)"
    using u(1)
  proof (cases rule: sys_exec_cases)
    case (loop c now)
    with loop_step_left [OF Cons.prems(2) loop(2)] loop_step_same [OF Cons.prems(1) loop(2)] Cons.prems(2)
    show ?thesis by (auto split: if_splits)
  next
    case other
    then have "\<not> loop_label l" by (cases l) auto
    with other_step_same [OF Cons.prems(1) other(2)] Cons.prems(2) show ?thesis by auto
  qed
  with Cons.IH [OF ok _ u(2)] u(1) show ?case by (auto split: if_splits)
qed simp

text \<open>A cancelled loop that has not returned can make a step towards its return.\<close>

lemma cancelled_loop_step:
  assumes "sys_ok s" "started (sy_pc s)" "p_cancelled (sy_prov s)" "sy_pc s \<noteq> PReturned"
  shows "\<exists>s'. sys_exec (LLoop ChooseDone now) s = Some (Inr s') \<and> loop_left (sy_pc s') < loop_left (sy_pc s)"
proof -
  have ok: "prov_ok (sy_prov s)" "prov_safe (sy_prov s)" using assms(1) by (simp_all add: sys_ok_def)
  have enabled: "\<exists>s'. loop_step ChooseDone now s = Some (Inr s') \<and> (sy_pc s = PSelect \<longrightarrow> sy_pc s' = PReturned)"
  proof (cases "sy_pc s")
    case (PInstall r ov)
    from refresh_step [OF ok, of now ov] PInstall show ?thesis by (auto simp: loop_step_def with_prov_def)
  next
    case (PNotify e)
    from notify_ok [OF ok(1), of e] PNotify show ?thesis by (auto simp: loop_step_def with_prov_def)
  qed (use assms in \<open>auto simp: loop_step_def select_step_def\<close>)
  then obtain s' where s': "loop_step ChooseDone now s = Some (Inr s')" "sy_pc s = PSelect \<longrightarrow> sy_pc s' = PReturned" by blast
  from loop_step_left [OF assms(2) s'(1)] s'(2) have "loop_left (sy_pc s') < loop_left (sy_pc s)"
    by (auto split: if_splits)
  with s'(1) show ?thesis by (auto simp: sys_exec_def)
qed

text \<open>C24: The end of the cancelled loop. Take a config on which a refresh cannot panic
  (\<open>safe_config\<close>: the base is well typed, no managed leaf is itself a pointer and no managed
  slice is of a named string type). In every run from any reachable state in which
  \<open>New\<close> has started the loop and its context is cancelled, whatever else runs and whichever ready case each \<^verbatim>\<open>select\<close> picks,
  the loop makes at most four steps and four more for every time a \<^verbatim>\<open>select\<close> picks a tick, a
  trigger or an event although the done case is ready; and until it has returned it always can
  make a step, without a panic, that brings it nearer to its return. So the loop goes on for
  ever only if \<^verbatim>\<open>select\<close>, which picks among the ready cases at random, passes over the
  done case for ever. (Nothing is said of how long that takes, so neither of how long \<open>Close\<close>
  waits.)\<close>

theorem cancelled_loop_ends:
  assumes "build_catalog (Some t) = Inr cat" "safe_config t cat base h" "options_ok cfg" "ms_ok st"
    and "sys_reach (sys_start t h base cat cfg st) s" "started (sy_pc s)" "p_cancelled (sy_prov s)"
    and "sys_run ls s = Some (Inr s')"
  shows "length (filter loop_label ls) \<le> 4 + 4 * other_picks ls s
    \<and> (sy_pc s' \<noteq> PReturned \<longrightarrow>
        (\<exists>s2. sys_exec (LLoop ChooseDone now) s' = Some (Inr s2) \<and> loop_left (sy_pc s2) < loop_left (sy_pc s')))"
proof -
  have ok: "sys_ok s" by (rule sys_ok_reach [OF assms(5) sys_ok_start [OF assms(1-4)]])
  from loop_steps_bounded [OF ok assms(6,8)] loop_left_bound [of "sy_pc s"] assms(7)
    cancelled_loop_step [of s' now] show ?thesis by auto
qed

text \<open>In the example a tick is picked although the context is cancelled, and the loop then ends.\<close>

theorem cancelled_loop_ends_witness:
  "\<exists>s s'. sys_run (startup_labels @ [LCloseBegin]) sample_start = Some (Inr s) \<and> p_cancelled (sy_prov s)
     \<and> sys_run [LLoop ChooseTick 9] s = Some (Inr s') \<and> sy_pc s' = PList OnTick
     \<and> length (filter loop_label [LLoop ChooseTick 9]) \<le> 4 + 4 * other_picks [LLoop ChooseTick 9] s
     \<and> (\<exists>s2. sys_exec (LLoop ChooseDone 9) s' = Some (Inr s2) \<and> loop_left (sy_pc s2) < 4)"
proof -
  obtain s0 where s0: "sys_run startup_labels sample_start = Some (Inr s0)" "sy_pc s0 = PSelect"
    "\<not> p_once (sy_prov s0)"
    using startup_run [OF sample_build sample_flat with_options_ok(1) ms_ok_new, of "[]" sample_base]
    by (auto simp: sample_start_def)
  obtain s where c: "sys_exec LCloseBegin s0 = Some (Inr s)" "sy_pc s = PSelect"
    and can: "p_cancelled (sy_prov s)"
    using s0(2,3) by (auto simp: sys_exec_def other_step_def with_prov_def close_begin_def Let_def)
  have run: "sys_run (startup_labels @ [LCloseBegin]) sample_start = Some (Inr s)"
    using s0(1) by (rule sys_run_append) (simp add: c(1))
  have st: "started (sy_pc s)" using c(2) by simp
  let ?s' = "s\<lparr>sy_pc := PList OnTick\<rparr>"
  have tick: "sys_run [LLoop ChooseTick 9] s = Some (Inr ?s')"
    using c(2) by (simp add: sys_exec_def loop_step_def select_step_def)
  from cancelled_loop_ends [OF sample_build flat_safe [OF sample_flat] with_options_ok(1) ms_ok_new
      sys_reach_run [OF sr_refl run, unfolded sample_start_def] st can tick, of 9] run can tick
  show ?thesis by auto
qed

end
