(* ===== verification/System_Delivery.thy ===== *)
theory System_Delivery
  imports System_Props "HOL-Library.Sublist"
begin

text \<open>
  What one subscriber receives, from the store's broadcasts through the watch channel, the
  event loop and the subscriber's channel: every announced event of a recreate-on-change
  field at most once and in the order announced, and all of them as long as neither of the
  two buffers on the way is full.
\<close>

subsection \<open>The events on their way\<close>

fun loop_events :: "loop_pc \<Rightarrow> change_event list" where
  "loop_events (PList (OnEvent e)) = [e]"
| "loop_events (PInstall (OnEvent e) ov) = [e]"
| "loop_events (PNotify e) = [e]"
| "loop_events pc = []"

definition recreate_only :: "provider \<Rightarrow> change_event list \<Rightarrow> change_event list" where
  "recreate_only p es = filter (\<lambda>e. is_recreate p (ce_key e)) es"

lemma recreate_only_simps [simp]:
  "recreate_only p [] = []" "recreate_only p (es @ fs) = recreate_only p es @ recreate_only p fs"
  "recreate_only p (e # es) = (if is_recreate p (ce_key e) then e # recreate_only p es else recreate_only p es)"
  by (simp_all add: recreate_only_def)

text \<open>What a subscriber has yet to receive: in its channel, in the loop's hands, in the watch channel.\<close>

definition to_come :: "nat \<Rightarrow> system \<Rightarrow> change_event list" where
  "to_come ch s = buf (p_chans (sy_prov s) ch)
     @ recreate_only (sy_prov s) (loop_events (sy_pc s) @ buf (ms_chans (sy_store s) (sy_ch s)))"

text \<open>The events a step announces to the provider and those it hands to the subscriber.\<close>

definition announced :: "sys_label \<Rightarrow> system \<Rightarrow> change_event list" where
  "announced l s =
     (case l of
        LBroadcast e \<Rightarrow> if ce_namespace e = p_ns (sy_prov s) then recreate_only (sy_prov s) [e] else []
      | _ \<Rightarrow> [])"

definition received :: "nat \<Rightarrow> sys_label \<Rightarrow> system \<Rightarrow> change_event list" where
  "received ch l s = (case l of LSubRecv c \<Rightarrow> if c = ch then take 1 (buf (p_chans (sy_prov s) ch)) else [] | _ \<Rightarrow> [])"

text \<open>A step that finds room for what it has to deliver to the subscriber.\<close>

definition finds_room :: "nat \<Rightarrow> sys_label \<Rightarrow> system \<Rightarrow> bool" where
  "finds_room ch l s =
     (case l of
        LBroadcast e \<Rightarrow> announced l s = [] \<or>
          (\<not> p_cancelled (sy_prov s) \<and> has_room (ms_chans (sy_store s) (sy_ch s)))
      | LLoop choice now \<Rightarrow> (case sy_pc s of
          PNotify e \<Rightarrow> ch \<in> set (p_subs (sy_prov s)) \<and> has_room (p_chans (sy_prov s) ch)
        | _ \<Rightarrow> True)
      | _ \<Rightarrow> True)"

text \<open>One entry of a delivery account: before and after a step or a run.\<close>

definition accounts ::
  "change_event list \<Rightarrow> change_event list \<Rightarrow> change_event list \<Rightarrow> change_event list \<Rightarrow> bool \<Rightarrow> bool" where
  "accounts got after before new room \<longleftrightarrow>
     subseq (got @ after) (before @ new) \<and> (room \<longrightarrow> got @ after = before @ new)"

lemma accounts_equal: "got @ after = before @ new \<Longrightarrow> accounts got after before new room"
  by (simp add: accounts_def)

lemma subseq_append_left: "subseq xs (xs @ ys)"
  using list_emb_append_mono [of "(=)" xs xs "[]" ys] by simp

lemma accounts_trans:
  assumes "accounts g1 mid before n1 r1" "accounts g2 after mid n2 r2"
  shows "accounts (g1 @ g2) after before (n1 @ n2) (r1 \<and> r2)"
proof -
  have "subseq (g1 @ g2 @ after) (g1 @ mid @ n2)"
    using assms(2) unfolding accounts_def by (blast intro: list_emb_append_mono)
  moreover have "subseq ((g1 @ mid) @ n2) ((before @ n1) @ n2)"
    using assms(1) unfolding accounts_def by (blast intro: list_emb_append_mono)
  ultimately have "subseq (g1 @ g2 @ after) (before @ n1 @ n2)"
    using subseq_order.trans [of "g1 @ g2 @ after" "(g1 @ mid) @ n2" "(before @ n1) @ n2"] by simp
  moreover have "g1 @ g2 @ after = before @ n1 @ n2" if "r1" "r2"
    using assms that unfolding accounts_def by (metis append.assoc)
  ultimately show ?thesis by (simp add: accounts_def)
qed

subsection \<open>Steps\<close>

lemma recreate_only_same:
  "p_desc_by_key p' = p_desc_by_key p \<Longrightarrow> recreate_only p' es = recreate_only p es"
  by (simp add: recreate_only_def is_recreate_def)

text \<open>A subscriber's channel, whose identity has been handed out, is touched by its receiver only.\<close>

lemma other_step_channel:
  assumes "sys_ok s" "ch < p_next (sy_prov s)" "other_step l s = Some (Inr s')"
  shows "received ch l s @ buf (p_chans (sy_prov s') ch) = buf (p_chans (sy_prov s) ch)
     \<and> p_next (sy_prov s) \<le> p_next (sy_prov s')"
proof -
  have ok: "prov_ok (sy_prov s)" using assms(1) by (simp add: sys_ok_def)
  show ?thesis
  proof (cases l)
    case (LUnsubscribe c)
    with assms(3) show ?thesis
      by (auto simp: received_def other_step_def with_prov_def bind_res_Inr_iff unsubscribe_def lift_panic_def
          close_chan_def split: if_splits sum.splits)
  next
    case LCloseFinish
    obtain tab where t: "close_finish None (sy_prov s) =
        Inr ((sy_prov s)\<lparr>p_chans := tab, p_subs := [], p_close_err := None\<rparr>)"
      "\<forall>ch. tab ch = (if ch \<in> set (p_subs (sy_prov s)) then (p_chans (sy_prov s) ch)\<lparr>closed := True\<rparr>
                       else p_chans (sy_prov s) ch)"
      using close_finish_ok [OF ok, of None] by blast
    have "buf (tab ch) = buf (p_chans (sy_prov s) ch)" using t(2) by simp
    with LCloseFinish assms(3) t(1) show ?thesis
      by (auto simp: received_def other_step_def with_prov_def split: if_splits)
  next
    case (LSubRecv c)
    with assms(3) show ?thesis
      by (auto simp: received_def other_step_def with_prov_def sub_recv_def split_beta Let_def recv_def
          split: if_splits list.splits)
  next
    case LRefresh
    with assms(3) request_refresh_ok [OF ok] show ?thesis
      by (auto simp: received_def other_step_def with_prov_def split: if_splits)
  next
    case LSubscribe
    with assms(2,3) show ?thesis
      by (auto simp: received_def other_step_def with_prov_def subscribe_def Let_def split: if_splits)
  qed (use assms(3) in \<open>auto simp: received_def other_step_def with_prov_def with_store_def Let_def
        close_begin_def bind_res_Inr_iff split: if_splits prod.splits\<close>)
qed

text \<open>The provider's watch channel gets the events of its namespace, while it has room.\<close>

lemma broadcast_channel:
  assumes "subs_inv s" "started (sy_pc s)" "ms_broadcast e (sy_store s) = Inr st"
  shows "(buf (ms_chans st (sy_ch s)) = buf (ms_chans (sy_store s) (sy_ch s))
        \<or> buf (ms_chans st (sy_ch s)) = buf (ms_chans (sy_store s) (sy_ch s))
             @ (if ce_namespace e = p_ns (sy_prov s) then [e] else []))
     \<and> (\<not> p_cancelled (sy_prov s) \<and> has_room (ms_chans (sy_store s) (sy_ch s)) \<longrightarrow>
        buf (ms_chans st (sy_ch s)) = buf (ms_chans (sy_store s) (sy_ch s))
             @ (if ce_namespace e = p_ns (sy_prov s) then [e] else []))"
proof -
  let ?ws = "watchers_of (ce_namespace e) (sy_store s)"
  have ok: "sys_ok s" "own_events s" using assms(1) by (simp_all add: subs_inv_def)
  then have "ms_ok (sy_store s)" by (simp add: sys_ok_def)
  from ms_broadcast_ok [OF this, of e] assms(3) obtain tab where t: "st = (sy_store s)\<lparr>ms_chans := tab\<rparr>"
    and mem: "\<And>i. i \<in> set ?ws \<Longrightarrow> buf (tab i) = (if has_room (ms_chans (sy_store s) i)
        then buf (ms_chans (sy_store s) i) @ [e] else buf (ms_chans (sy_store s) i))"
    and out: "\<And>i. i \<notin> set ?ws \<Longrightarrow> tab i = ms_chans (sy_store s) i"
    by auto
  show ?thesis
  proof (cases "sy_ch s \<in> set ?ws")
    case True
    then have "ce_namespace e = p_ns (sy_prov s)"
      using ok(2) assms(2) by (auto simp: own_events_def watchers_of_own)
    with mem [OF True] show ?thesis by (simp add: t)
  next
    case False
    have "p_cancelled (sy_prov s)" if "ce_namespace e = p_ns (sy_prov s)"
      using that False ok(1) assms(2) by (force simp: sys_ok_def watching_def watchers_of_own)
    with out [OF False] show ?thesis by (simp add: t)
  qed
qed

text \<open>The loop passes events on: none is made up, and one is lost only where a channel is full.\<close>

lemma loop_accounts:
  assumes inv: "subs_inv s" and st: "started (sy_pc s)" and step: "loop_step choice now s = Some (Inr s')"
  shows "accounts [] (to_come ch s') (to_come ch s) [] (finds_room ch (LLoop choice now) s)
     \<and> p_next (sy_prov s') = p_next (sy_prov s)"
proof (cases "sy_pc s")
  case PSelect
  with step show ?thesis
    by (cases choice)
       (auto simp: loop_step_def select_step_def ms_recv_def recv_def accounts_def to_come_def recreate_only_def
         is_recreate_def split: if_splits prod.splits received.splits list.splits)
next
  case (PInstall r ov)
  with step obtain p err where p: "refresh now (Inr ov) (sy_prov s) = Inr (p, err)"
    "s' = s\<lparr>sy_prov := p, sy_pc := after_install r p\<rparr>"
    by (auto simp: loop_step_def with_prov_def bind_res_Inr_iff)
  note same = refresh_same [OF p(1)]
  have "recreate_only p (loop_events (after_install r p)) = recreate_only (sy_prov s) (loop_events (PInstall r ov))"
    using same by (auto simp: after_install_def is_recreate_def split: loop_reason.split)
  moreover have "recreate_only p es = recreate_only (sy_prov s) es" for es
    using same by (intro recreate_only_same) simp
  ultimately show ?thesis using PInstall same by (simp add: p(2) to_come_def accounts_def)
next
  case (PNotify e)
  have ok: "prov_ok (sy_prov s)" and rec: "is_recreate (sy_prov s) (ce_key e)"
    using inv PNotify by (simp_all add: subs_inv_def sys_ok_def pc_event_ok_def event_for_def)
  from notify_ok [OF ok, of e] PNotify step obtain tab where
    s': "s' = s\<lparr>sy_prov := (sy_prov s)\<lparr>p_chans := tab\<rparr>, sy_pc := PSelect\<rparr>"
    and tab: "buf (tab ch) = (if ch \<in> set (p_subs (sy_prov s)) \<and> has_room (p_chans (sy_prov s) ch)
      then buf (p_chans (sy_prov s) ch) @ [e] else buf (p_chans (sy_prov s) ch))"
    by (cases "ch \<in> set (p_subs (sy_prov s))") (auto simp: loop_step_def with_prov_def)
  let ?w = "recreate_only (sy_prov s) (buf (ms_chans (sy_store s) (sy_ch s)))"
  have "recreate_only ((sy_prov s)\<lparr>p_chans := tab\<rparr>) es = recreate_only (sy_prov s) es" for es
    by (intro recreate_only_same) simp
  then have "to_come ch s = buf (p_chans (sy_prov s) ch) @ [e] @ ?w" "to_come ch s' = buf (tab ch) @ ?w"
    using PNotify rec by (simp_all add: to_come_def s')
  moreover have "subseq (buf (p_chans (sy_prov s) ch) @ ?w) ((buf (p_chans (sy_prov s) ch) @ [e]) @ ?w)"
    by (intro list_emb_append_mono subseq_append_left) simp
  ultimately show ?thesis using tab PNotify by (auto simp: accounts_def finds_room_def s')
next
  case (PList r)
  with step show ?thesis by (cases r) (auto simp: loop_step_def to_come_def accounts_def)
qed (use step st in \<open>auto simp: loop_step_def to_come_def accounts_def\<close>)

lemma other_step_watch:
  assumes ok: "sys_ok s" and st: "started (sy_pc s)" and step: "other_step l s = Some (Inr s')"
    and l: "\<And>e. l \<noteq> LBroadcast e"
  shows "buf (ms_chans (sy_store s') (sy_ch s')) = buf (ms_chans (sy_store s) (sy_ch s))"
proof (cases l)
  case (LOtherWatch ns)
  have "sy_ch s < ms_next (sy_store s)" using ok st by (simp add: sys_ok_def)
  with LOtherWatch step show ?thesis by (auto simp: other_step_def ms_watch_other(4))
next
  case (LWrite op1)
  with step ms_write_same(2) [of op1 "sy_store s"] show ?thesis
    by (auto simp: other_step_def split_beta Let_def)
next
  case (LOtherRecv c)
  with step st show ?thesis by (auto simp: other_step_def ms_recv_other(4) split: if_splits)
qed (use step l unwatch_shrinks in \<open>fastforce simp: other_step_def with_store_def with_prov_def bind_res_Inr_iff
      lift_panic_def Let_def split: if_splits sum.splits\<close>)+

lemma other_accounts:
  assumes inv: "subs_inv s" and st: "started (sy_pc s)" and ch: "ch < p_next (sy_prov s)"
    and step: "other_step l s = Some (Inr s')"
  shows "accounts (received ch l s) (to_come ch s') (to_come ch s) (announced l s) (finds_room ch l s)"
proof -
  let ?p = "sy_prov s" and ?w = "\<lambda>s. buf (ms_chans (sy_store s) (sy_ch s))"
  have ok: "sys_ok s" using inv by (simp add: subs_inv_def)
  have rec: "recreate_only (sy_prov s') es = recreate_only ?p es" for es
    using other_step_subs [OF ok step] by (intro recreate_only_same) simp
  have pc: "sy_pc s' = sy_pc s" by (rule other_step_same(2) [OF ok step])
  have r: "received ch l s @ buf (p_chans (sy_prov s') ch) = buf (p_chans ?p ch)"
    using other_step_channel [OF ok ch step] by simp
  have eq: "accounts (received ch l s) (to_come ch s') (to_come ch s) (announced l s) (finds_room ch l s)"
    if "?w s' = ?w s" "announced l s = []"
    using that r by (simp add: accounts_def to_come_def rec pc) (metis append.assoc subseq_order.refl)
  have kept: "?w s' = ?w s" if "\<And>e. l \<noteq> LBroadcast e" by (rule other_step_watch [OF ok st step that])
  show ?thesis
  proof (cases "\<exists>e. l = LBroadcast e")
    case True
    then obtain e where LBroadcast: "l = LBroadcast e" by blast
    then obtain st where b: "ms_broadcast e (sy_store s) = Inr st"
      "s' = s\<lparr>sy_store := st, sy_inflight := remove1 e (sy_inflight s)\<rparr>"
      using step by (auto simp: other_step_def with_store_def bind_res_Inr_iff lift_panic_def split: if_splits sum.splits)
    let ?new = "if ce_namespace e = p_ns ?p then [e] else []"
    from broadcast_channel [OF inv st b(1)] have w: "?w s' = ?w s \<or> ?w s' = ?w s @ ?new"
      "\<not> p_cancelled ?p \<Longrightarrow> has_room (ms_chans (sy_store s) (sy_ch s)) \<Longrightarrow> ?w s' = ?w s @ ?new"
      by (simp_all add: b(2))
    have new: "recreate_only ?p ?new = announced l s" by (simp add: LBroadcast announced_def)
    have "buf (p_chans (sy_prov s') ch) = buf (p_chans ?p ch)" "received ch l s = []"
      by (simp_all add: b(2) LBroadcast received_def)
    moreover have "recreate_only ?p (?w s') = recreate_only ?p (?w s)
        \<or> recreate_only ?p (?w s') = recreate_only ?p (?w s) @ announced l s"
      using w(1) new by auto
    moreover have "recreate_only ?p (?w s') = recreate_only ?p (?w s) @ announced l s" if "finds_room ch l s"
      using that w new by (auto simp: finds_room_def LBroadcast)
    ultimately show ?thesis
      by (auto simp: accounts_def to_come_def rec pc subseq_append_left simp flip: append_assoc)
  next
    case False
    then have "announced l s = []" by (cases l) (simp_all add: announced_def)
    with False kept eq show ?thesis by blast
  qed
qed

subsection \<open>Runs\<close>

text \<open>What the steps of a run contribute, in order.\<close>

fun along :: "(sys_label \<Rightarrow> system \<Rightarrow> 'a list) \<Rightarrow> sys_label list \<Rightarrow> system \<Rightarrow> 'a list" where
  "along f [] s = []"
| "along f (l # ls) s = f l s @ (case sys_exec l s of Some (Inr s') \<Rightarrow> along f ls s' | _ \<Rightarrow> [])"

definition always_room :: "nat \<Rightarrow> sys_label list \<Rightarrow> system \<Rightarrow> bool" where
  "always_room ch ls s \<longleftrightarrow> list_all id (along (\<lambda>l s. [finds_room ch l s]) ls s)"

lemma delivery_step:
  assumes "subs_inv s" "started (sy_pc s)" "ch < p_next (sy_prov s)" "sys_exec l s = Some (Inr s')"
  shows "accounts (received ch l s) (to_come ch s') (to_come ch s) (announced l s) (finds_room ch l s)
     \<and> subs_inv s' \<and> started (sy_pc s') \<and> ch < p_next (sy_prov s')"
  using assms(4)
proof (cases rule: sys_exec_cases)
  case (loop c now)
  have "sys_ok s" using assms(1) by (simp add: subs_inv_def)
  from loop_step_same(3) [OF this loop(2)] loop_accounts [OF assms(1,2) loop(2), of ch] subs_inv_loop [OF assms(1) loop(2)]
  show ?thesis using assms(2,3) by (simp add: loop(1) received_def announced_def)
next
  case other
  have ok: "sys_ok s" using assms(1) by (simp add: subs_inv_def)
  from other_step_same(2) [OF ok other(2)] other_step_channel [OF ok assms(3) other(2)]
    other_accounts [OF assms(1-3) other(2)] subs_inv_other [OF assms(1) other(2)]
  show ?thesis using assms(2,3) by simp
qed

lemma delivery_run:
  "subs_inv s \<Longrightarrow> started (sy_pc s) \<Longrightarrow> ch < p_next (sy_prov s) \<Longrightarrow> sys_run ls s = Some (Inr s') \<Longrightarrow>
     accounts (along (received ch) ls s) (to_come ch s') (to_come ch s) (along announced ls s) (always_room ch ls s)"
proof (induction ls arbitrary: s)
  case Nil
  then show ?case by (simp add: accounts_def)
next
  case (Cons l ls)
  from Cons.prems(4) obtain t where t: "sys_exec l s = Some (Inr t)" "sys_run ls t = Some (Inr s')"
    by (auto split: option.splits sum.splits)
  from delivery_step [OF Cons.prems(1-3) t(1)]
  have step: "accounts (received ch l s) (to_come ch t) (to_come ch s) (announced l s) (finds_room ch l s)"
    and inv: "subs_inv t" "started (sy_pc t)" "ch < p_next (sy_prov t)" by auto
  from accounts_trans [OF step Cons.IH [OF inv t(2)]] show ?case by (simp add: t(1) always_room_def)
qed

subsection \<open>The property\<close>

text \<open>C4: End-to-end delivery, for a config on which a refresh cannot panic (\<open>safe_config\<close>: no managed
  leaf is itself a pointer, no managed slice is of a named string type, and the base is well
  typed).
  Over any run, what a subscriber receives, followed by what is still on
  its way to it, is a subsequence of what was on its way at the start followed by the
  events announced to the provider for recreate-on-change fields: each at most once, in
  the order announced, none made up. As long as every broadcast finds room in the watch
  channel of a provider that is not cancelled, and every notification finds the
  subscriber with room in its channel, it is all of them.\<close>

theorem subscriber_gets_events_in_order:
  assumes "build_catalog (Some t) = Inr cat" "safe_config t cat base h" "options_ok cfg" "ms_ok st"
    and "sys_reach (sys_start t h base cat cfg st) s0" "started (sy_pc s0)" "ch \<in> set (p_subs (sy_prov s0))"
    and "sys_run ls s0 = Some (Inr s)"
  shows "subseq (along (received ch) ls s0 @ to_come ch s) (to_come ch s0 @ along announced ls s0)
     \<and> (always_room ch ls s0 \<longrightarrow>
          along (received ch) ls s0 @ to_come ch s = to_come ch s0 @ along announced ls s0)"
proof -
  have inv: "subs_inv s0" by (rule subs_inv_reach [OF assms(5) subs_inv_start [OF assms(1-4)]])
  then have "ch < p_next (sy_prov s0)" using assms(7) by (simp add: subs_inv_def sys_ok_def prov_ok_def)
  from delivery_run [OF inv assms(6) this assms(8)] show ?thesis by (simp add: accounts_def)
qed

text \<open>In the example the loop takes the waiting event, and the subscriber receives it.\<close>

theorem subscriber_gets_events_in_order_witness:
  "\<exists>s0 s. sys_run sample_labels sample_start = Some (Inr s0)
     \<and> sys_run (replicate 4 (LLoop ChooseEvent 9) @ [LSubRecv 0]) s0 = Some (Inr s)
     \<and> along (received 0) (replicate 4 (LLoop ChooseEvent 9) @ [LSubRecv 0]) s0 @ to_come 0 s = [sample_event]"
proof -
  let ?ls = "replicate 4 (LLoop ChooseEvent 9) @ [LSubRecv 0]"
  obtain s0 where s0: "sys_run sample_labels sample_start = Some (Inr s0)" "sy_pc s0 = PSelect"
    "buf (ms_chans (sy_store s0) (sy_ch s0)) = [sample_event]" "is_recreate (sy_prov s0) ''cron''"
    "p_subs (sy_prov s0) = [0]" "p_chans (sy_prov s0) 0 = make_chan 16"
    using sample_event_waiting by blast
  have reach0: "sys_reach sample_start s0" by (rule sys_reach_run [OF sr_refl s0(1)])
  have ok: "sys_ok s0" "prov_flat (sy_prov s0)"
    using sys_ok_reach [OF reach0 sample_start_ok(1)] sample_prov_flat [OF reach0] by simp_all
  have k: "ce_key sample_event = ''cron''" by (simp add: sample_event_def)
  have "\<exists>s. sys_run ?ls s0 = Some (Inr s) \<and> always_room 0 ?ls s0 \<and> along announced ?ls s0 = []"
    using s0(2-6) k
    by (simp add: numeral_eq_Suc always_room_def sys_exec_def loop_step_def select_step_def ms_recv_def recv_def
        with_prov_def refresh_flat [OF ok(2)] after_install_def is_recreate_def notify_subscribers_def
        try_send_def has_room_def make_chan_def finds_room_def announced_def other_step_def Let_def)
  then obtain s where run: "sys_run ?ls s0 = Some (Inr s)" and room: "always_room 0 ?ls s0"
    and quiet: "along announced ?ls s0 = []" by blast
  have "to_come 0 s0 = [sample_event]" using s0 k by (simp add: to_come_def make_chan_def)
  with subscriber_gets_events_in_order [OF sample_build flat_safe [OF sample_flat] with_options_ok(1) ms_ok_new
      reach0 [unfolded sample_start_def] _ _ run, of 0] s0 room quiet
  have "along (received 0) ?ls s0 @ to_come 0 s = [sample_event]" by simp
  with s0(1) run show ?thesis by blast
qed

end
