(* ===== verification/System_Requests.thy ===== *)
theory System_Requests
  imports System_Barrier
begin

text \<open>
  Requests for a refresh: \<open>Refresh\<close> only puts a token into a channel of capacity one, and
  drops it when one is there. No request is lost by that: the token that is there is taken
  after the request, and what the loop then lists is at least as recent.
\<close>

text \<open>A pending request can be served at once by a waiting loop.\<close>

lemma request_served:
  assumes "prov_flat (sy_prov s)" "sy_pc s = PSelect" "buf (p_trigger (sy_prov s)) \<noteq> []"
  shows "\<exists>s'. sys_run (replicate 3 (LLoop ChooseTrigger now)) s = Some (Inr s') \<and> sy_pc s' = PSelect
     \<and> provider_get (sy_prov s') = Inr (snapshot_of (sy_prov s) (listing_of s))"
proof -
  obtain u us where b: "buf (p_trigger (sy_prov s)) = u # us" using assms(3) by (cases "buf (p_trigger (sy_prov s))") auto
  let ?p = "(sy_prov s)\<lparr>p_trigger := (p_trigger (sy_prov s))\<lparr>buf := us\<rparr>\<rparr>"
  have "prov_flat ?p" using assms(1) by (simp add: prov_flat_def)
  with assms(2) b show ?thesis
    by (simp add: numeral_3_eq_3 sys_exec_def loop_step_def select_step_def recv_def with_prov_def refresh_flat
        after_install_def provider_get_def snapshot_of_def listing_of_def)
qed

subsection \<open>The property\<close>

text \<open>C9: No request for a refresh is lost, for a config whose managed fields are reached
  without pointers and whose managed slices are exactly \<^verbatim>\<open>[]string\<close> (\<open>flat_config\<close>; behind a
  non-nil pointer an override outlives its deletion).
  Take any call of \<open>Refresh\<close>, with or without another request
  pending, and let anything happen after it: whenever the loop waits again, either no
  request is pending and \<open>Get\<close> returns the base with overrides that were listed after the
  call, or three steps of the loop bring it to the overrides the store has now.\<close>

theorem refresh_request_honoured:
  assumes "build_catalog (Some t) = Inr cat" "flat_config t cat" "options_ok cfg" "ms_ok st"
    and "sys_reach (sys_start t h base cat cfg st) s0" "sys_exec LRefresh s0 = Some (Inr s1)"
    and "sys_run ls s1 = Some (Inr s)" "sy_pc s = PSelect"
  shows "(\<exists>us vs s2. ls = us @ vs \<and> sys_run us s1 = Some (Inr s2)
          \<and> provider_get (sy_prov s) = Inr (apply_pure (listing_of s2) cat base))
     \<or> (\<exists>s'. sys_run (replicate 3 (LLoop ChooseTrigger now)) s = Some (Inr s') \<and> sy_pc s' = PSelect
          \<and> provider_get (sy_prov s') = Inr (apply_pure (listing_of s) cat base))"
proof -
  let ?s = "sys_start t h base cat cfg st"
  have reach: "sys_reach ?s s1" "sys_reach s1 s"
    using sr_step [OF assms(5,6)] sys_reach_run [OF sr_refl assms(7)] by simp_all
  then have all: "sys_reach ?s s" using sys_reach_trans by blast
  note static = sys_start_static [OF all]
  have start: "sys_ok ?s" "prov_flat (sy_prov ?s)"
    using fresh_start [OF assms(1-4)] by (simp_all add: fresh_inv_def)
  have ok: "sys_ok s0" "sys_ok s1" "prov_flat (sy_prov s1)" "prov_flat (sy_prov s)"
    using sys_ok_reach [OF assms(5) start(1)] sys_ok_reach [OF reach(1) start(1)]
      sys_reach_flat [OF reach(1)] sys_reach_flat [OF all] start(2) by simp_all
  have "prov_ok (sy_prov s0)" using ok(1) by (simp add: sys_ok_def)
  from request_refresh_ok [OF this] assms(6) have s1: "started (sy_pc s1)" "requested (sy_prov s1) (sy_pc s1)"
    by (auto simp: sys_exec_def other_step_def with_prov_def requested_def split: if_splits)
  show ?thesis
  proof (cases "buf (p_trigger (sy_prov s)) = []")
    case True
    have "steps_from (\<lambda>s l s'. sys_exec l s = Some (Inr s')) s1 ls s" using assms(7) by (simp add: steps_from_sys_run)
    from mem_client.request_honoured [OF this _ s1 _ assms(8) True] ok(2,3) show ?thesis
      by (simp add: steps_from_sys_run static list_all_iff)
  next
    case False
    with request_served [OF ok(4) assms(8), of now] static show ?thesis by simp
  qed
qed

theorem refresh_request_honoured_witness:
  "\<exists>s s'. sys_run (startup_labels @ [LRefresh]) sample_start = Some (Inr s)
     \<and> (s' = s \<or> sys_run (replicate 3 (LLoop ChooseTrigger 9)) s = Some (Inr s'))
     \<and> provider_get (sy_prov s') = Inr (apply_pure (listing_of s) sample_catalog sample_base)"
proof -
  obtain s0 where s0: "sys_run startup_labels sample_start = Some (Inr s0)" "sy_pc s0 = PSelect"
    using startup_run [OF sample_build sample_flat with_options_ok(1) ms_ok_new, of "[]" sample_base]
    by (auto simp: sample_start_def)
  have reach: "sys_reach sample_start s0" by (rule sys_reach_run [OF sr_refl s0(1)])
  then have "prov_ok (sy_prov s0)" using sys_ok_reach [OF reach sample_start_ok(1)] by (simp add: sys_ok_def)
  from request_refresh_ok [OF this] s0(2) obtain s where s: "sys_exec LRefresh s0 = Some (Inr s)" "sy_pc s = PSelect"
    by (auto simp: sys_exec_def other_step_def with_prov_def)
  have run: "sys_run (startup_labels @ [LRefresh]) sample_start = Some (Inr s)"
    using s0(1) by (rule sys_run_append) (simp add: s(1))
  have none: "sys_run [] s = Some (Inr s)" by simp
  from refresh_request_honoured [OF sample_build sample_flat with_options_ok(1) ms_ok_new
      reach [unfolded sample_start_def] s(1) none s(2), of 9] run show ?thesis by auto
qed

end
