(* ===== verification/System_Close.thy ===== *)
theory System_Close
  imports System_Delivery
begin

text \<open>
  The end of a provider: after \<open>Close\<close> the snapshot and the statistics stay as they are,
  every channel handed out before is closed, a subscriber still receives what was buffered
  and nothing else, and the closing is done once.
\<close>

subsection \<open>Channels are subscribed or closed\<close>

definition life_inv :: "system \<Rightarrow> bool" where
  "life_inv s \<longleftrightarrow>
     (sy_closing s \<longrightarrow> p_once (sy_prov s))
     \<and> (\<forall>ch < p_next (sy_prov s). ch \<in> set (p_subs (sy_prov s)) \<or> closed (p_chans (sy_prov s) ch))"

lemma life_inv_same:
  assumes "life_inv s" "p_next (sy_prov s') = p_next (sy_prov s)" "p_subs (sy_prov s') = p_subs (sy_prov s)"
    "\<And>ch. closed (p_chans (sy_prov s) ch) \<Longrightarrow> closed (p_chans (sy_prov s') ch)"
    "p_once (sy_prov s) \<Longrightarrow> p_once (sy_prov s')" "sy_closing s' \<Longrightarrow> sy_closing s \<or> p_once (sy_prov s')"
  shows "life_inv s'"
  using assms by (auto simp: life_inv_def)

lemma life_inv_loop:
  assumes ok: "sys_ok s" and inv: "life_inv s" and step: "loop_step choice now s = Some (Inr s')"
  shows "life_inv s'"
proof (cases "sy_pc s")
  case (PNotify e)
  have "prov_ok (sy_prov s)" using ok by (simp add: sys_ok_def)
  from notify_ok [OF this, of e] PNotify step obtain tab where
    s': "s' = s\<lparr>sy_prov := (sy_prov s)\<lparr>p_chans := tab\<rparr>, sy_pc := PSelect\<rparr>"
    and out: "\<forall>ch. ch \<notin> set (p_subs (sy_prov s)) \<longrightarrow> tab ch = p_chans (sy_prov s) ch"
    by (auto simp: loop_step_def with_prov_def)
  have "ch \<in> set (p_subs (sy_prov s)) \<or> closed (tab ch)" if "ch < p_next (sy_prov s)" for ch
    using out inv that by (cases "ch \<in> set (p_subs (sy_prov s))") (auto simp: life_inv_def)
  with inv show ?thesis by (auto simp: life_inv_def s')
next
  case PSelect
  with step show ?thesis
    by (intro life_inv_same [OF inv])
       (auto simp: loop_step_def select_step_def split: loop_choice.splits received.splits if_splits prod.splits)
next
  case (PInstall r ov)
  with step show ?thesis
    by (intro life_inv_same [OF inv])
       (auto simp: loop_step_def with_prov_def bind_res_Inr_iff dest!: refresh_same)
next
  case (PStartInstall ov)
  with step show ?thesis
    by (intro life_inv_same [OF inv])
       (auto simp: loop_step_def with_prov_def bind_res_Inr_iff dest!: refresh_same)
qed (use step inv in \<open>auto simp: loop_step_def Let_def split_beta life_inv_def\<close>)

text \<open>What \<open>Get\<close> and \<open>Stats\<close> look at.\<close>

definition view :: "provider \<Rightarrow> gval option \<times> 64 word \<times> int \<times> string option" where
  "view p = (p_current p, p_refresh_count p, p_last_refresh p, p_last_err p)"

lemma view_same:
  "view p' = view p \<Longrightarrow> provider_get p' = provider_get p \<and> provider_stats p' = provider_stats p"
  by (simp add: view_def provider_get_def provider_stats_def)

text \<open>What the rest of the program does to the provider's life: nothing is reopened.\<close>

lemma other_step_life:
  assumes ok: "sys_ok s" and inv: "life_inv s" and step: "other_step l s = Some (Inr s')"
  shows "life_inv s' \<and> (\<forall>ch < p_next (sy_prov s). closed (p_chans (sy_prov s) ch) \<longrightarrow> closed (p_chans (sy_prov s') ch))
     \<and> (p_once (sy_prov s) \<and> \<not> sy_closing s \<longrightarrow> p_once (sy_prov s') \<and> \<not> sy_closing s')
     \<and> view (sy_prov s') = view (sy_prov s)"
proof -
  have pr: "prov_ok (sy_prov s)" using ok by (simp add: sys_ok_def)
  show ?thesis
  proof (cases l)
    case (LUnsubscribe c)
    show ?thesis
    proof (cases "c \<in> set (p_subs (sy_prov s))")
      case True
      then have "\<not> closed (p_chans (sy_prov s) c)" using pr by (simp add: prov_ok_def)
      with True LUnsubscribe step inv show ?thesis
        by (auto simp: other_step_def with_prov_def unsubscribe_def close_chan_def life_inv_def view_def split: if_splits)
    next
      case False
      with LUnsubscribe step inv show ?thesis
        by (auto simp: other_step_def with_prov_def unsubscribe_def life_inv_def split: if_splits)
    qed
  next
    case LCloseFinish
    from close_finish_ok [OF pr, of None] obtain tab where
      t: "close_finish None (sy_prov s) = Inr ((sy_prov s)\<lparr>p_chans := tab, p_subs := [], p_close_err := None\<rparr>)"
      "\<forall>ch. tab ch = (if ch \<in> set (p_subs (sy_prov s)) then (p_chans (sy_prov s) ch)\<lparr>closed := True\<rparr>
                       else p_chans (sy_prov s) ch)" by blast
    then have "closed (tab ch) \<longleftrightarrow> ch \<in> set (p_subs (sy_prov s)) \<or> closed (p_chans (sy_prov s) ch)" for ch by simp
    with LCloseFinish step inv t(1) show ?thesis
      by (auto simp: other_step_def with_prov_def life_inv_def view_def split: if_splits)
  next
    case LSubscribe
    with step inv show ?thesis
      by (auto simp: other_step_def with_prov_def subscribe_def Let_def life_inv_def view_def less_Suc_eq split: if_splits)
  next
    case LRefresh
    with step inv request_refresh_ok [OF pr] show ?thesis
      by (auto simp: other_step_def with_prov_def life_inv_def view_def split: if_splits)
  next
    case (LSubRecv c)
    with step inv show ?thesis
      by (auto simp: other_step_def with_prov_def sub_recv_def split_beta Let_def life_inv_def view_def split: if_splits)
  qed (use step inv in \<open>auto simp: other_step_def with_prov_def with_store_def Let_def close_begin_def life_inv_def
        view_def bind_res_Inr_iff split: if_splits prod.splits\<close>)
qed

lemma life_inv_exec: "sys_ok s \<Longrightarrow> life_inv s \<Longrightarrow> sys_exec l s = Some (Inr s') \<Longrightarrow> life_inv s'"
  by (erule sys_exec_cases) (use life_inv_loop other_step_life in blast)+

lemma life_inv_reach: "sys_reach s0 s \<Longrightarrow> sys_ok s0 \<Longrightarrow> life_inv s0 \<Longrightarrow> life_inv s"
proof (induction rule: sys_reach.induct)
  case (sr_step s l s')
  then show ?case using life_inv_exec sys_ok_reach by blast
qed simp

lemma life_inv_start: "life_inv (sys_start t h base cat cfg st)"
  by (simp add: life_inv_def sys_start_def init_provider_def)

subsection \<open>After Close\<close>

definition closed_for :: "nat \<Rightarrow> system \<Rightarrow> bool" where
  "closed_for ch s \<longleftrightarrow> sy_pc s = PReturned \<and> p_once (sy_prov s) \<and> \<not> sy_closing s
     \<and> ch < p_next (sy_prov s) \<and> closed (p_chans (sy_prov s) ch)"

lemma closed_step:
  assumes "sys_ok s" "life_inv s" "closed_for ch s" "sys_exec l s = Some (Inr s')"
  shows "closed_for ch s' \<and> received ch l s @ buf (p_chans (sy_prov s') ch) = buf (p_chans (sy_prov s) ch)
     \<and> view (sy_prov s') = view (sy_prov s)"
proof -
  have step: "other_step l s = Some (Inr s')"
    using assms(3,4) by (cases l) (auto simp: sys_exec_def closed_for_def loop_step_def)
  have ch: "ch < p_next (sy_prov s)" using assms(3) by (simp add: closed_for_def)
  from other_step_life [OF assms(1,2) step] other_step_channel [OF assms(1) ch step]
    other_step_same(2) [OF assms(1) step] assms(3)
  show ?thesis by (auto simp: closed_for_def)
qed

lemma closed_run:
  "sys_ok s \<Longrightarrow> life_inv s \<Longrightarrow> closed_for ch s \<Longrightarrow> sys_run ls s = Some (Inr s') \<Longrightarrow>
     closed_for ch s' \<and> along (received ch) ls s @ buf (p_chans (sy_prov s') ch) = buf (p_chans (sy_prov s) ch)
     \<and> view (sy_prov s') = view (sy_prov s)"
proof (induction ls arbitrary: s)
  case (Cons l ls)
  from Cons.prems(4) obtain t where t: "sys_exec l s = Some (Inr t)" "sys_run ls t = Some (Inr s')"
    by (auto split: option.splits sum.splits)
  have "sys_ok t" by (rule outcome_ok_elim [OF sys_exec_ok [OF Cons.prems(1)] t(1)])
  with closed_step [OF Cons.prems(1-3) t(1)] life_inv_exec [OF Cons.prems(1,2) t(1)] Cons.IH [OF _ _ _ t(2)] t(1)
  show ?case by simp
qed simp

text \<open>C10: Closing is final, for a config on which a refresh cannot panic (\<open>safe_config\<close>: no managed
  leaf is itself a pointer, no managed slice is of a named string type, and the base is well
  typed).
  Once \<open>Close\<close> has done its work, whatever the program does next: the
  loop stays returned and \<open>Close\<close> does its work never again, \<open>Get\<close> and \<open>Stats\<close> answer as
  they did then, and every channel handed out by \<open>Subscribe\<close> before is closed, its reader
  receiving the events that were buffered, in order, and nothing else.\<close>

theorem close_is_final:
  assumes "build_catalog (Some t) = Inr cat" "safe_config t cat base h" "options_ok cfg" "ms_ok st"
    and "sys_reach (sys_start t h base cat cfg st) s0" "sys_exec LCloseFinish s0 = Some (Inr s1)"
    and "ch < p_next (sy_prov s1)" "sys_run ls s1 = Some (Inr s)"
  shows "sy_pc s = PReturned \<and> sys_exec LCloseFinish s = None
     \<and> provider_get (sy_prov s) = provider_get (sy_prov s1) \<and> provider_stats (sy_prov s) = provider_stats (sy_prov s1)
     \<and> closed (p_chans (sy_prov s) ch)
     \<and> along (received ch) ls s1 @ buf (p_chans (sy_prov s) ch) = buf (p_chans (sy_prov s1) ch)"
proof -
  let ?s = "sys_start t h base cat cfg st"
  have start: "sys_ok ?s" by (rule sys_ok_start [OF assms(1-4)])
  have ok0: "sys_ok s0" "life_inv s0"
    using sys_ok_reach [OF assms(5) start] life_inv_reach [OF assms(5) start life_inv_start] by simp_all
  have ok1: "sys_ok s1" "life_inv s1"
    using outcome_ok_elim [OF sys_exec_ok [OF ok0(1)] assms(6)] life_inv_exec [OF ok0 assms(6)] by simp_all
  have s1: "sy_pc s1 = PReturned" "\<not> sy_closing s1" "p_once (sy_prov s1)" "p_subs (sy_prov s1) = []"
    using assms(6) ok0(2)
    by (auto simp: sys_exec_def other_step_def with_prov_def close_finish_def bind_res_Inr_iff life_inv_def
        split: if_splits)
  then have "closed_for ch s1" using assms(7) ok1(2) by (simp add: closed_for_def life_inv_def)
  from closed_run [OF ok1 this assms(8)] have "closed_for ch s" "view (sy_prov s) = view (sy_prov s1)"
    "along (received ch) ls s1 @ buf (p_chans (sy_prov s) ch) = buf (p_chans (sy_prov s1) ch)" by simp_all
  with view_same [OF this(2)] show ?thesis by (simp add: closed_for_def sys_exec_def other_step_def)
qed

theorem close_is_final_witness:
  "\<exists>s1 s. sys_run (startup_labels @ [LSubscribe, LCloseBegin, LLoop ChooseDone 9, LCloseFinish]) sample_start = Some (Inr s1)
     \<and> sys_run [LRefresh, LSubscribe] s1 = Some (Inr s)
     \<and> closed (p_chans (sy_prov s) 0) \<and> sy_pc s = PReturned \<and> is_ok (provider_get (sy_prov s1))
     \<and> provider_get (sy_prov s) = provider_get (sy_prov s1)"
proof -
  obtain s where s: "sys_run startup_labels sample_start = Some (Inr s)" "sy_pc s = PSelect"
    "p_next (sy_prov s) = 0" "p_subs (sy_prov s) = []" "\<not> p_once (sy_prov s)"
    using startup_run [OF sample_build sample_flat with_options_ok(1) ms_ok_new, of "[]" sample_base]
    by (auto simp: sample_start_def)
  then obtain s0 where s0: "sys_run [LSubscribe, LCloseBegin, LLoop ChooseDone 9] s = Some (Inr s0)"
    "sy_pc s0 = PReturned" "sy_closing s0" "p_next (sy_prov s0) = 1"
    by (auto simp: sys_exec_def other_step_def with_prov_def subscribe_def Let_def close_begin_def loop_step_def
        select_step_def)
  have run0: "sys_run (startup_labels @ [LSubscribe, LCloseBegin, LLoop ChooseDone 9]) sample_start = Some (Inr s0)"
    using s(1) s0(1) by (rule sys_run_append)
  note reach = sys_reach_run [OF sr_refl run0]
  have ok: "sys_ok s0" by (rule sys_ok_reach [OF reach sample_start_ok(1)])
  then have "prov_ok (sy_prov s0)" "p_current (sy_prov s0) \<noteq> None" using s0(2) by (simp_all add: sys_ok_def)
  from close_finish_ok [OF this(1), of None] this(2) s0(2-4) obtain s1 where
    s1: "sys_exec LCloseFinish s0 = Some (Inr s1)" "p_next (sy_prov s1) = 1" "sy_pc s1 = PReturned"
    "is_ok (provider_get (sy_prov s1))"
    by (auto simp: sys_exec_def other_step_def with_prov_def provider_get_def is_ok_def)
  have "sys_ok s1" by (rule outcome_ok_elim [OF sys_exec_ok [OF ok] s1(1)])
  then have "prov_ok (sy_prov s1)" by (simp add: sys_ok_def)
  from request_refresh_ok [OF this] s1(3) obtain s2 where s2: "sys_run [LRefresh, LSubscribe] s1 = Some (Inr s2)"
    by (auto simp: sys_exec_def other_step_def with_prov_def)
  have "0 < p_next (sy_prov s1)" by (simp add: s1(2))
  from close_is_final [OF sample_build flat_safe [OF sample_flat] with_options_ok(1) ms_ok_new
      reach [unfolded sample_start_def] s1(1) this s2] s2 s1(4)
    sys_run_append [OF run0, of "[LCloseFinish]" s1] s1(1)
  show ?thesis by auto
qed

end
