(* ===== verification/Spec2Isabelle.thy ===== *)
theory Spec2Isabelle
  imports LC_Prelude Go_Utf8 Go_Strings Go_StructTag Go_Strconv Go_Json Go_Json_Value Go_Time Go_Float Go_Duration Reflect_Model Catalog Catalog_Spec Overrides Override_Lemmas Override_Flat Override_Shared Channels Store_Api Mem_Store Polling Options Provider Provider_Lemmas System System_Inv System_Fresh System_Subs System_Drain Loop_Moves Loop_Client System_Poll Errors Pg_Config Pg_Payload Pg_Listen Pg_Store Pg_Contract Pg_Tables Pg_Race Pg_Feed Pg_Shutdown System_Pg System_Clients Catalog_Props Override_Props Go_Float_Exact Override_RoundTrip Store_Props Provider_Props System_Props System_Barrier System_Loop System_Delivery System_Requests System_Close
begin

text \<open>
  A verification library for liveconfig (Go package github.com/lepek/liveconfig): runtime
  configuration kept in a store, applied by reflection to a config struct, and refreshed
  by a background loop while the program runs.

  \<^bold>\<open>The program.\<close> A program describes its configuration as a Go struct whose fields carry
  tags. \<^verbatim>\<open>catalog.go\<close> walks the struct type and lists the fields it manages; it parses raw
  strings into field types and applies them. A store (the interface in \<^verbatim>\<open>store.go\<close>, with an
  in-memory and a Postgres implementation, and a polling watcher for stores without
  notifications) keeps string overrides per namespace and key, an audit trail, and sends
  change events over channels. \<^verbatim>\<open>provider.go\<close> ties them together: \<open>New\<close> builds the catalog,
  lists the overrides, installs the first snapshot, registers a watch and starts the event
  loop, which refreshes the snapshot after each change event, tick or request and tells
  subscribers of changes to recreate-on-change fields.

  \<^bold>\<open>The language and its standard library.\<close> Strings are byte lists. \<open>LC_Prelude\<close> has the
  result type (a sum, the error on the left) and its sequencing. \<open>Go_Utf8\<close>, \<open>Go_Strings\<close>,
  \<open>Go_StructTag\<close>, \<open>Go_Strconv\<close>, \<open>Go_Json\<close>, \<open>Go_Float\<close> and \<open>Go_Duration\<close> model the standard
  functions the source calls: decoding and trimming, \<^verbatim>\<open>StructTag.Get\<close>, the parsers of
  booleans, integers, floats and durations, and the JSON decoder into a string list.
  \<open>Go_Json_Value\<close> adds the text of marshalled strings and objects and the scanner that finds
  where any JSON value ends; \<open>Go_Time\<close> the calendar and the texts of RFC 3339.
  \<open>Reflect_Model\<close> has Go's types as a datatype, values in a memory of pointer cells, and the
  reflect operations the source uses, with their panics. \<open>Channels\<close> has buffered channels,
  the non-blocking send, receive and close, and the fan-out loop, proved once in the
  locale \<open>lossy_channel\<close> and interpreted on Go's channels.

  \<^bold>\<open>The catalog\<close> (\<^verbatim>\<open>catalog.go\<close>). \<open>Catalog\<close> translates \<open>buildCatalog\<close>, \<open>walkStruct\<close> and
  their helpers; \<open>walk_fields\<close> is the loop over a struct's fields, recursing into nested
  structs. \<open>Catalog_Spec\<close> describes the result without the walk: a descriptor stands for a
  chain of fields from the root to a leaf, and an inductive predicate says which types are
  rejected. \<open>Catalog_Props\<close> shows that the walk and the description agree, that secrets
  are never managed, that no managed field contains another, and that the accepted types
  are those the parser handles.

  \<^bold>\<open>Overrides\<close> (\<^verbatim>\<open>catalog.go\<close>). \<open>Overrides\<close> translates \<open>parseFieldValue\<close>,
  \<open>parseStringSlice\<close>, \<open>navigateField\<close> and \<open>applyOverrides\<close>; the error callback acts on a
  state of the caller's choosing. \<open>Override_Lemmas\<close> shows that the loop keeps memory well
  typed, \<open>Override_Flat\<close> that for configs whose managed fields are reached without pointers
  and whose managed slices are exactly \<^verbatim>\<open>[]string\<close> (\<open>flat_config\<close>) it is
  the pure function \<open>apply_pure\<close>. \<open>Override_Props\<close> states what fields hold afterwards, type
  soundness, on which fields the loop panics and where (a leaf that is a pointer, and a
  slice of a named string type), the wrap-around of narrow integers, and the round trips of
  durations and lists; \<open>Override_Shared\<close> that an override of a field behind a non-nil
  pointer is written into the base itself and outlives its deletion.
  \<open>Go_Float_Exact\<close> shows that rounding is exact on representable numbers and that the exact
  decimal text of a float of either width parses back to it; \<open>Override_RoundTrip\<close> puts the
  types together: every value a managed field can hold has a text that sets it.

  \<^bold>\<open>The stores.\<close> \<open>Store_Api\<close> has the data of \<^verbatim>\<open>store.go\<close> and the interface's contract as two
  locales: \<open>kv_store\<close> (reads answer what the writes so far say) and \<open>audited_store\<close> (the
  trail of a key can be replayed, and history pages it). \<open>Mem_Store\<close> translates every
  operation of \<^verbatim>\<open>memstore/store.go\<close> and interprets both; the write of a \<open>Set\<close> or \<open>Delete\<close>
  and its broadcast are two definitions, since the code makes them two critical sections.
  \<open>Polling\<close> translates the polling watcher as a step relation whose sends block.
  \<open>Store_Props\<close> holds their properties.

  \<^bold>\<open>The provider\<close> (\<^verbatim>\<open>options.go\<close>, \<^verbatim>\<open>provider.go\<close>, \<^verbatim>\<open>errors.go\<close>). \<open>Options\<close> has the options
  and the normalisation in \<open>New\<close>; \<open>Provider\<close> the record and every method, the store's
  answers and the clock being arguments; \<open>Provider_Lemmas\<close> the invariant \<open>prov_ok\<close>; \<open>Errors\<close>
  the sentinel errors. \<open>Provider_Props\<close> states the outcome of \<open>New\<close>, of the event handler
  and of its error path, the coalescing of requests and the shutdown.

  \<^bold>\<open>The running system.\<close> \<open>System\<close> puts a provider on an in-memory store. A label of
  \<open>sys_label\<close> is one critical section: a step of the goroutine that runs \<open>New\<close> and then
  \<open>eventLoop\<close> (\<open>loop_step\<close>), a write, a broadcast that may come any time after its write, a
  subscription, a refresh request, a cancellation, the two halves of \<open>Close\<close>, or what other
  watchers of the store do. \<open>sys_exec\<close> gives the next state, a panic, or says that the step
  is not enabled; \<open>sys_reach\<close> are the states reached. \<open>System_Inv\<close> proves the invariant
  \<open>sys_ok\<close> and the absence of panics, \<open>System_Fresh\<close> that the snapshot is up to date or a
  change event is still on its way, \<open>System_Subs\<close> what subscribers get, \<open>System_Drain\<close> that the pending work is used up.
  \<open>System_Props\<close> states the properties of the whole: convergence of the snapshot although
  broadcasts may be delayed or dropped, the absence of panics, and the window in \<open>New\<close> in
  which a change is lost. \<open>System_Loop\<close> shows what handling one event does while the rest of
  the program goes on between the loop's steps, and bounds the steps of a cancelled loop by the
  number of times \<^verbatim>\<open>select\<close> picks another ready case than the done case (it may pick so
  at random; how long \<open>Close\<close> waits is not bounded). \<open>System_Barrier\<close> shows
  that a subscriber who has an event reads a snapshot listed after the event's write,
  \<open>System_Requests\<close> that no request for a refresh is lost although requests coalesce,
  \<open>System_Delivery\<close> that a subscriber receives each announced event at most once and in
  order, and all of them while the buffers have room, and \<open>System_Close\<close> that nothing
  happens to a provider after it has been closed. \<open>other_step\<close> is the environment: each of its labels runs an operation of the program
  that is a definition of its own. The invariant and the
  absence of panics hold for every config on which a refresh is safe (\<open>safe_config\<close>: no managed
  leaf is itself a pointer, no managed slice is of a named string type), nested
  structs behind pointers included; the value of the snapshot is stated for \<open>flat_config\<close>s,
  where also no managed field is behind a pointer and no cells are shared.

  \<^bold>\<open>Other stores under the loop.\<close> \<open>Loop_Moves\<close> has the loop's steps for stores whose listings
  may fail, and the notion of being caught up with the store, shared by two more systems.
  \<open>System_Poll\<close> puts the provider on a store with a polling watcher, where it converges when
  contents never return and the first poll finds what \<open>New\<close> listed; \<open>System_Pg\<close> puts it on
  the Postgres store with its listener, where it converges while the connection lasts, and
  shows that each committed write of the store's programs is one of its steps. Runs in both
  show what happens otherwise.
  \<open>Loop_Client\<close> is what the loop promises on any store, proved once in the locale
  \<open>loop_client\<close>: a subscriber who has an event reads a recent snapshot, and a request is
  followed by a listing. \<open>System_Barrier\<close> interprets it on the in-memory system,
  \<open>System_Clients\<close> on the other two, with the result for commits on Postgres.

  \<^bold>\<open>The Postgres store\<close> (\<^verbatim>\<open>pgstore\<close>). \<open>Pg_Config\<close> has its options, the identifier check,
  the schema text as a template and the notification payload. \<open>Pg_Payload\<close> has the JSON of
  the payload: what \<open>Delete\<close> marshals and what the listener makes of a text it receives
  (unknown members, names in other cases, \<^verbatim>\<open>null\<close>, malformed bytes), and that what is
  marshalled is read back. \<open>Pg_Store\<close> writes the operations as programs, trees of commands
  to a database that is a parameter; the locale \<open>pg_database\<close> lists what the code relies
  on of it. \<open>Pg_Contract\<close> extends it to \<open>pg_queries\<close> and shows that reads answer what the
  committed tables say and that the store refines the abstract key-value store on the
  writes that took effect, whichever commands fail. \<open>Pg_Tables\<close> gives a database in
  memory, with failures and lost answers, that has these properties, and states the
  results. \<open>Pg_Race\<close> runs writers in concurrent sessions (locale \<open>pg_read_committed\<close>) and
  exhibits what the isolation level does not prevent. \<open>Pg_Listen\<close> is the listener as a
  step relation, the panic that a failed reconnect leads to and the deferred close of its
  channel included: the driver decides how each call ends, and \<^verbatim>\<open>time.Parse\<close>, which is tried
  on times that are not strictly RFC 3339, is a parameter. \<open>Pg_Feed\<close> puts the
  notifications of commits, the connection's queue and the listener together;
  \<open>Pg_Shutdown\<close> bounds the steps of a cancelled listener and says in what state it ends.

  \<^bold>\<open>Bounds.\<close> No definition uses fuel: loops over lists, fields and indices are structural or
  have a termination proof by a size. The audit sequence and the refresh counter are 64-bit
  words, the backoff a wrapping 64-bit integer; the properties on them state the bounds
  they need (fewer than \<open>2 ^ 63\<close> records, a maximal backoff below \<open>2 ^ 62\<close> nanoseconds).
  Loops that run for ever (\<open>eventLoop\<close>, \<open>pollLoop\<close>, \<open>listenLoop\<close>) are transition systems.

  \<^bold>\<open>Not modelled.\<close> Logging (only the warnings about overrides are kept), real time (a tick
  may come at any moment), the pgx driver, PostgreSQL and the SQL text of the statements,
  the text the trigger gives a notification, the names of slice types (the names of their
  element types are kept), recursive struct types (on which the
  walk does not end) and data races inside one critical section.
\<close>

end
